(* ===== verification/Prelude.thy ===== *)
theory Prelude
  imports Main
begin

text \<open>
  The vocabulary the component theories share: Go computations as functions that pass a state
  and end either in a value or in a panic, the control operators the engine uses on them
  (sequencing, \<open>defer\<close>, \<open>recover\<close>), a weakest-precondition calculus for them with
  the collection \<open>wp\<close> of its rules, the relational frame calculus used for facts of the
  form "every run only extends the trace", and generic lemmas on lists.
\<close>

section \<open>Go computations\<close>

text \<open>
  A Go function with effects is a function of the state. It returns (\<open>Ret\<close>) or it panics
  (\<open>Panic\<close>, with the message the panic value prints). In both cases the state it leaves
  is kept, because deferred calls run on it.
\<close>

datatype 'a outcome = Ret 'a | Panic string

type_synonym ('s, 'a) go = "'s \<Rightarrow> 'a outcome \<times> 's"

definition ret :: "'a \<Rightarrow> ('s, 'a) go" where
  "ret a = (\<lambda>s. (Ret a, s))"

definition panic :: "string \<Rightarrow> ('s, 'a) go" where
  "panic msg = (\<lambda>s. (Panic msg, s))"

definition bind_go :: "('s, 'a) go \<Rightarrow> ('a \<Rightarrow> ('s, 'b) go) \<Rightarrow> ('s, 'b) go" where
  "bind_go m f = (\<lambda>s. case m s of (r, s') \<Rightarrow>
     (case r of Ret a \<Rightarrow> f a s' | Panic p \<Rightarrow> (Panic p, s')))"

definition seq_go :: "('s, 'a) go \<Rightarrow> ('s, 'b) go \<Rightarrow> ('s, 'b) go" where
  "seq_go m k = bind_go m (\<lambda>_. k)"

definition gets :: "('s \<Rightarrow> 'a) \<Rightarrow> ('s, 'a) go" where
  "gets f = (\<lambda>s. (Ret (f s), s))"

definition modify :: "('s \<Rightarrow> 's) \<Rightarrow> ('s, unit) go" where
  "modify f = (\<lambda>s. (Ret (), f s))"

text \<open>
  \<open>deferred d m\<close> is a function body \<open>m\<close> with one deferred call \<open>d\<close>: \<open>d\<close> runs however
  the body ends, and a panic of \<open>d\<close> replaces the body's outcome. \<open>on_panic d m\<close> is the
  part of a deferred call that matters while a prefix of the body runs: \<open>d\<close> runs only if
  \<open>m\<close> panics. \<open>recovered m\<close> is a call under \<open>defer func() { _ = recover() }()\<close>: it
  always returns.
\<close>

definition deferred :: "('s, unit) go \<Rightarrow> ('s, 'a) go \<Rightarrow> ('s, 'a) go" where
  "deferred d m = (\<lambda>s. case m s of (r, s') \<Rightarrow>
     (case d s' of (Ret _, s'') \<Rightarrow> (r, s'') | (Panic p, s'') \<Rightarrow> (Panic p, s'')))"

definition on_panic :: "('s, unit) go \<Rightarrow> ('s, 'a) go \<Rightarrow> ('s, 'a) go" where
  "on_panic d m = (\<lambda>s. case m s of (r, s') \<Rightarrow>
     (case r of Ret a \<Rightarrow> (Ret a, s')
      | Panic p \<Rightarrow> (case d s' of (Ret _, s'') \<Rightarrow> (Panic p, s'') | (Panic q, s'') \<Rightarrow> (Panic q, s''))))"

definition recovered :: "('s, 'a) go \<Rightarrow> ('s, unit) go" where
  "recovered m = (\<lambda>s. (Ret (), snd (m s)))"

text \<open>
  \<open>zoom get put m\<close> runs a computation on a part of the state, as a method call on a
  field of a struct does.
\<close>

definition zoom :: "('s \<Rightarrow> 't) \<Rightarrow> ('t \<Rightarrow> 's \<Rightarrow> 's) \<Rightarrow> ('t, 'a) go \<Rightarrow> ('s, 'a) go" where
  "zoom get put m = (\<lambda>s. case m (get s) of (r, t) \<Rightarrow> (r, put t s))"

definition never_panics :: "('s, 'a) go \<Rightarrow> bool" where
  "never_panics m \<longleftrightarrow> (\<forall>s. \<exists>a s'. m s = (Ret a, s'))"

lemma on_panic_Ret: "on_panic d m s = (Ret a, t) \<Longrightarrow> m s = (Ret a, t)"
  by (auto simp: on_panic_def split: prod.splits outcome.splits)

section \<open>Weakest preconditions\<close>

text \<open>
  \<open>wp m Q E s\<close>: run from \<open>s\<close>, \<open>m\<close> either returns some \<open>a\<close> in a state with \<open>Q a\<close>,
  or panics in a state with \<open>E\<close>. With \<open>E = (\<lambda>_. False)\<close> it says that \<open>m\<close> does not
  panic.
\<close>

definition wp :: "('s, 'a) go \<Rightarrow> ('a \<Rightarrow> 's \<Rightarrow> bool) \<Rightarrow> ('s \<Rightarrow> bool) \<Rightarrow> 's \<Rightarrow> bool" where
  "wp m Q E s = (case m s of (Ret a, s') \<Rightarrow> Q a s' | (Panic p, s') \<Rightarrow> E s')"

named_theorems wp_simps \<open>equations that compute wp over the control operators\<close>
named_theorems wp_intros \<open>rules that establish wp of an engine operation\<close>

lemma wp_ret [wp_simps]: "wp (ret a) Q E s = Q a s"
  by (simp add: wp_def ret_def)

lemma wp_panic [wp_simps]: "wp (panic p) Q E s = E s"
  by (simp add: wp_def panic_def)

lemma wp_gets [wp_simps]: "wp (gets f) Q E s = Q (f s) s"
  by (simp add: wp_def gets_def)

lemma wp_modify [wp_simps]: "wp (modify f) Q E s = Q () (f s)"
  by (simp add: wp_def modify_def)

lemma wp_bind [wp_simps]: "wp (bind_go m f) Q E s = wp m (\<lambda>a. wp (f a) Q E) E s"
  by (simp add: wp_def bind_go_def split: prod.splits outcome.splits)

lemma wp_seq [wp_simps]: "wp (seq_go m k) Q E s = wp m (\<lambda>_. wp k Q E) E s"
  by (simp add: seq_go_def wp_bind)

lemma wp_deferred [wp_simps]:
  "wp (deferred d m) Q E s = wp m (\<lambda>a. wp d (\<lambda>_. Q a) E) (wp d (\<lambda>_. E) E) s"
  by (simp add: wp_def deferred_def split: prod.splits outcome.splits)

lemma wp_on_panic [wp_simps]:
  "wp (on_panic d m) Q E s = wp m Q (wp d (\<lambda>_. E) E) s"
  by (simp add: wp_def on_panic_def split: prod.splits outcome.splits)

lemma wp_recovered [wp_simps]:
  "wp (recovered m) Q E s = wp m (\<lambda>_. Q ()) (Q ()) s"
  by (simp add: wp_def recovered_def split: prod.splits outcome.splits)

lemma wp_if [wp_simps]: "wp (if b then m else k) Q E s = (if b then wp m Q E s else wp k Q E s)"
  by simp

lemma wp_case_option [wp_simps]:
  "wp (case x of None \<Rightarrow> m | Some a \<Rightarrow> f a) Q E s
   = (case x of None \<Rightarrow> wp m Q E s | Some a \<Rightarrow> wp (f a) Q E s)"
  by (simp split: option.split)

lemma wp_case_prod [wp_simps]:
  "wp (case x of (a, b) \<Rightarrow> f a b) Q E s = (case x of (a, b) \<Rightarrow> wp (f a b) Q E s)"
  by (simp split: prod.split)

lemma wp_let [wp_simps]: "wp (Let x f) Q E s = (let y = x in wp (f y) Q E s)"
  by simp

lemma wp_mono:
  assumes "wp m Q E s" and "\<And>a t. Q a t \<Longrightarrow> Q' a t" and "\<And>t. E t \<Longrightarrow> E' t"
  shows "wp m Q' E' s"
  using assms by (auto simp: wp_def split: prod.splits outcome.splits)

lemma wp_conj:
  assumes "wp m Q E s" and "wp m Q' E' s"
  shows "wp m (\<lambda>a t. Q a t \<and> Q' a t) (\<lambda>t. E t \<and> E' t) s"
  using assms by (auto simp: wp_def split: prod.splits outcome.splits)

lemma wp_RetD: "wp m Q E s \<Longrightarrow> m s = (Ret a, s') \<Longrightarrow> Q a s'"
  by (simp add: wp_def)

lemma wp_PanicD: "wp m Q E s \<Longrightarrow> m s = (Panic p, s') \<Longrightarrow> E s'"
  by (simp add: wp_def)

lemma wp_no_panic:
  assumes "wp m Q (\<lambda>_. False) s"
  obtains a s' where "m s = (Ret a, s')" and "Q a s'"
  using assms by (auto simp: wp_def split: prod.splits outcome.splits)

text \<open>
  A part of the state run by code outside the library: any result, any new value of that
  part, and a panic only if that code may panic.
\<close>

lemma wp_zoom [wp_intros]:
  assumes "\<And>a t. Q a (put t s)"
    and "\<not> never_panics m \<Longrightarrow> (\<And>t. E (put t s))"
  shows "wp (zoom get put m) Q E s"
proof (cases "m (get s)")
  case (Pair r t)
  show ?thesis
  proof (cases r)
    case (Ret a)
    then show ?thesis using Pair assms(1) by (simp add: wp_def zoom_def)
  next
    case (Panic p)
    then have "\<not> never_panics m"
      using Pair by (auto simp: never_panics_def) (metis Pair_inject outcome.distinct(1))
    then show ?thesis using Panic Pair assms(2) by (simp add: wp_def zoom_def)
  qed
qed

section \<open>Frames\<close>

text \<open>
  A relation between the state before and after that every primitive step keeps is
  kept by every program built from those steps.
\<close>

definition keeps :: "('s \<Rightarrow> 's \<Rightarrow> bool) \<Rightarrow> ('s, 'a) go \<Rightarrow> bool" where
  "keeps R m \<longleftrightarrow> (\<forall>s. R s (snd (m s)))"

locale frame =
  fixes R :: "'s \<Rightarrow> 's \<Rightarrow> bool"
  assumes refl: "R s s"
    and trans: "R s t \<Longrightarrow> R t u \<Longrightarrow> R s u"
begin

lemma ret_frame: "keeps R (ret a)"
  by (simp add: keeps_def ret_def refl)

lemma panic_frame: "keeps R (panic p)"
  by (simp add: keeps_def panic_def refl)

lemma gets_frame: "keeps R (gets f)"
  by (simp add: keeps_def gets_def refl)

lemma modify_frame: "(\<And>s. R s (f s)) \<Longrightarrow> keeps R (modify f)"
  by (simp add: keeps_def modify_def)

lemma bind_frame_ret:
  assumes "keeps R m" and "\<And>s a t. m s = (Ret a, t) \<Longrightarrow> keeps R (f a)"
  shows "keeps R (bind_go m f)"
  unfolding keeps_def
proof
  fix s
  obtain r t where m: "m s = (r, t)" by (cases "m s")
  have "R s t" using assms(1) m by (metis keeps_def snd_conv)
  moreover have "R t (snd (f a t))" if "r = Ret a" for a
    using assms(2) [of s a t] m that by (simp add: keeps_def)
  ultimately show "R s (snd (bind_go m f s))"
    by (cases r) (auto simp: bind_go_def m intro: trans)
qed

lemma bind_frame: "keeps R m \<Longrightarrow> (\<And>a. keeps R (f a)) \<Longrightarrow> keeps R (bind_go m f)"
  by (rule bind_frame_ret)

lemma seq_frame: "keeps R m \<Longrightarrow> keeps R k \<Longrightarrow> keeps R (seq_go m k)"
  by (simp add: seq_go_def bind_frame)

lemma deferred_frame:
  assumes "keeps R m" and "keeps R d"
  shows "keeps R (deferred d m)"
  unfolding keeps_def
proof
  fix s
  have "R s (snd (m s))" "R (snd (m s)) (snd (d (snd (m s))))"
    using assms by (simp_all add: keeps_def)
  then show "R s (snd (deferred d m s))"
    by (auto simp: deferred_def split: prod.splits outcome.splits intro: trans)
qed

lemma on_panic_frame:
  assumes "keeps R m" and "keeps R d"
  shows "keeps R (on_panic d m)"
  unfolding keeps_def
proof
  fix s
  have "R s (snd (m s))" "R (snd (m s)) (snd (d (snd (m s))))"
    using assms by (simp_all add: keeps_def)
  then show "R s (snd (on_panic d m s))"
    by (auto simp: on_panic_def split: prod.splits outcome.splits intro: trans)
qed

lemma recovered_frame: "keeps R m \<Longrightarrow> keeps R (recovered m)"
  by (simp add: keeps_def recovered_def)

lemma zoom_frame: "(\<And>s t. R s (put t s)) \<Longrightarrow> keeps R (zoom get put m)"
  by (simp add: keeps_def zoom_def split: prod.split)

lemma if_frame:
  "(b \<Longrightarrow> keeps R m) \<Longrightarrow> (\<not> b \<Longrightarrow> keeps R k) \<Longrightarrow> keeps R (if b then m else k)"
  by simp

lemma option_frame:
  "(x = None \<Longrightarrow> keeps R m) \<Longrightarrow> (\<And>a. x = Some a \<Longrightarrow> keeps R (f a)) \<Longrightarrow>
   keeps R (case x of None \<Rightarrow> m | Some a \<Rightarrow> f a)"
  by (simp split: option.split)

lemma prod_frame: "(\<And>a b. x = (a, b) \<Longrightarrow> keeps R (f a b)) \<Longrightarrow> keeps R (case x of (a, b) \<Rightarrow> f a b)"
  by (simp split: prod.split)

lemmas frame_rules = ret_frame panic_frame gets_frame modify_frame bind_frame seq_frame
  deferred_frame on_panic_frame recovered_frame zoom_frame if_frame option_frame prod_frame

end

section \<open>Lists\<close>

lemma list_update_mid [simp]: "(xs @ x # ys)[length xs := y] = xs @ y # ys"
  by simp

lemma nth_mid [simp]: "(xs @ x # ys) ! length xs = x"
  by simp

lemma map_update_same: "i < length xs \<Longrightarrow> f y = f (xs ! i) \<Longrightarrow> map f (xs[i := y]) = map f xs"
  by (simp add: map_update list_update_same_conv)

end
