(* ===== verification/Statuses.thy ===== *)
theory Statuses
  imports Prelude
begin

text \<open>
  The two state machines of the engine: \<open>Status\<close> of an execution (\<open>status.go\<close>),
  \<open>StepStatus\<close> of one step (\<open>step_status.go\<close>) and their transition tables
  (\<open>transitions.go\<close>). The locale \<open>lifecycle\<close> states what makes a transition table a
  lifecycle (terminal states are final, every other recognised state can move, a rank falls
  with every move); both tables are interpreted as one.
\<close>

section \<open>Status of an execution\<close>

text \<open>
  A Go \<open>Status\<close> is a string with seven recognised values. \<open>OtherStatus s\<close> is any other
  string, which a corrupted record could hold.
\<close>

datatype status =
    StatusPending | StatusRunning | StatusCompleted | StatusCompensating
  | StatusCompensated | StatusFailed | StatusCompensationFailed | OtherStatus string

fun status_string :: "status \<Rightarrow> string" where
  "status_string StatusPending = ''PENDING''"
| "status_string StatusRunning = ''RUNNING''"
| "status_string StatusCompleted = ''COMPLETED''"
| "status_string StatusCompensating = ''COMPENSATING''"
| "status_string StatusCompensated = ''COMPENSATED''"
| "status_string StatusFailed = ''FAILED''"
| "status_string StatusCompensationFailed = ''COMPENSATION_FAILED''"
| "status_string (OtherStatus s) = s"

text \<open>The Go conversion \<open>Status(s)\<close> of a stored string.\<close>

definition status_of :: "string \<Rightarrow> status" where
  "status_of s =
     (if s = ''PENDING'' then StatusPending
      else if s = ''RUNNING'' then StatusRunning
      else if s = ''COMPLETED'' then StatusCompleted
      else if s = ''COMPENSATING'' then StatusCompensating
      else if s = ''COMPENSATED'' then StatusCompensated
      else if s = ''FAILED'' then StatusFailed
      else if s = ''COMPENSATION_FAILED'' then StatusCompensationFailed
      else OtherStatus s)"

text \<open>A lookup in a Go \<open>map[K]bool\<close> yields \<open>false\<close> for a missing key.\<close>

definition flag_at :: "('k \<rightharpoonup> bool) \<Rightarrow> 'k \<Rightarrow> bool" where
  "flag_at m k = (case m k of None \<Rightarrow> False | Some b \<Rightarrow> b)"

definition terminalStatuses :: "status \<rightharpoonup> bool" where
  "terminalStatuses = [StatusCompleted \<mapsto> True, StatusCompensated \<mapsto> True,
     StatusFailed \<mapsto> True, StatusCompensationFailed \<mapsto> True]"

definition validStatuses :: "status \<rightharpoonup> bool" where
  "validStatuses = [StatusPending \<mapsto> True, StatusRunning \<mapsto> True,
     StatusCompleted \<mapsto> True, StatusCompensating \<mapsto> True, StatusCompensated \<mapsto> True,
     StatusFailed \<mapsto> True, StatusCompensationFailed \<mapsto> True]"

definition Valid :: "status \<Rightarrow> bool" where
  "Valid s = flag_at validStatuses s"

definition IsTerminal :: "status \<Rightarrow> bool" where
  "IsTerminal s = flag_at terminalStatuses s"

fun statusTransitions :: "status \<Rightarrow> status list" where
  "statusTransitions StatusPending = [StatusRunning]"
| "statusTransitions StatusRunning = [StatusCompleted, StatusCompensating, StatusFailed]"
| "statusTransitions StatusCompensating = [StatusCompensated, StatusCompensationFailed]"
| "statusTransitions _ = []"

definition canTransitionStatus :: "status \<Rightarrow> status \<Rightarrow> bool" where
  "canTransitionStatus from to' = list_ex (\<lambda>allowed. allowed = to') (statusTransitions from)"

section \<open>Status of a step\<close>

datatype step_status =
    StepStatusPending | StepStatusRunning | StepStatusSucceeded | StepStatusFailed
  | StepStatusCompensating | StepStatusCompensated | StepStatusCompensationFailed
  | OtherStepStatus string

fun step_status_string :: "step_status \<Rightarrow> string" where
  "step_status_string StepStatusPending = ''PENDING''"
| "step_status_string StepStatusRunning = ''RUNNING''"
| "step_status_string StepStatusSucceeded = ''SUCCEEDED''"
| "step_status_string StepStatusFailed = ''FAILED''"
| "step_status_string StepStatusCompensating = ''COMPENSATING''"
| "step_status_string StepStatusCompensated = ''COMPENSATED''"
| "step_status_string StepStatusCompensationFailed = ''COMPENSATION_FAILED''"
| "step_status_string (OtherStepStatus s) = s"

definition terminalStepStatuses :: "step_status \<rightharpoonup> bool" where
  "terminalStepStatuses = [StepStatusFailed \<mapsto> True, StepStatusCompensated \<mapsto> True,
     StepStatusCompensationFailed \<mapsto> True]"

definition validStepStatuses :: "step_status \<rightharpoonup> bool" where
  "validStepStatuses = [StepStatusPending \<mapsto> True, StepStatusRunning \<mapsto> True,
     StepStatusSucceeded \<mapsto> True, StepStatusFailed \<mapsto> True, StepStatusCompensating \<mapsto> True,
     StepStatusCompensated \<mapsto> True, StepStatusCompensationFailed \<mapsto> True]"

definition step_Valid :: "step_status \<Rightarrow> bool" where
  "step_Valid s = flag_at validStepStatuses s"

definition step_IsTerminal :: "step_status \<Rightarrow> bool" where
  "step_IsTerminal s = flag_at terminalStepStatuses s"

fun stepStatusTransitions :: "step_status \<Rightarrow> step_status list" where
  "stepStatusTransitions StepStatusPending = [StepStatusRunning]"
| "stepStatusTransitions StepStatusRunning = [StepStatusSucceeded, StepStatusFailed]"
| "stepStatusTransitions StepStatusSucceeded = [StepStatusCompensating]"
| "stepStatusTransitions StepStatusCompensating =
     [StepStatusCompensated, StepStatusCompensationFailed]"
| "stepStatusTransitions _ = []"

definition canTransitionStepStatus :: "step_status \<Rightarrow> step_status \<Rightarrow> bool" where
  "canTransitionStepStatus from to' =
     list_ex (\<lambda>allowed. allowed = to') (stepStatusTransitions from)"

section \<open>Computed facts about the tables\<close>

lemma IsTerminal_iff [simp]:
  "IsTerminal s \<longleftrightarrow> s \<in> {StatusCompleted, StatusFailed, StatusCompensated, StatusCompensationFailed}"
  by (cases s) (simp_all add: IsTerminal_def flag_at_def terminalStatuses_def)

lemma Valid_iff [simp]: "Valid s \<longleftrightarrow> (\<forall>x. s \<noteq> OtherStatus x)"
  by (cases s) (simp_all add: Valid_def flag_at_def validStatuses_def)

lemma step_IsTerminal_iff [simp]:
  "step_IsTerminal s \<longleftrightarrow> s \<in> {StepStatusFailed, StepStatusCompensated, StepStatusCompensationFailed}"
  by (cases s) (simp_all add: step_IsTerminal_def flag_at_def terminalStepStatuses_def)

lemma step_Valid_iff [simp]: "step_Valid s \<longleftrightarrow> (\<forall>x. s \<noteq> OtherStepStatus x)"
  by (cases s) (simp_all add: step_Valid_def flag_at_def validStepStatuses_def)

lemma canTransitionStatus_iff [simp]:
  "canTransitionStatus a b \<longleftrightarrow>
     a = StatusPending \<and> b = StatusRunning
   \<or> a = StatusRunning \<and> b \<in> {StatusCompleted, StatusCompensating, StatusFailed}
   \<or> a = StatusCompensating \<and> b \<in> {StatusCompensated, StatusCompensationFailed}"
  by (cases a) (auto simp: canTransitionStatus_def)

lemma canTransitionStepStatus_iff [simp]:
  "canTransitionStepStatus a b \<longleftrightarrow>
     a = StepStatusPending \<and> b = StepStatusRunning
   \<or> a = StepStatusRunning \<and> b \<in> {StepStatusSucceeded, StepStatusFailed}
   \<or> a = StepStatusSucceeded \<and> b = StepStatusCompensating
   \<or> a = StepStatusCompensating \<and> b \<in> {StepStatusCompensated, StepStatusCompensationFailed}"
  by (cases a) (auto simp: canTransitionStepStatus_def)

text \<open>
  A status survives the trip through its stored string: the seven recognised values have
  seven different strings and every string converts back to itself, so nothing a store writes
  as a string can come back as a different recognised status.
\<close>

lemma status_string_roundtrip:
  "status_string (status_of s) = s \<and> (Valid x \<longrightarrow> status_of (status_string x) = x)"
  by (cases x) (auto simp: status_of_def)

section \<open>Lifecycles\<close>

text \<open>A walk through a transition table, as the list of the states after the first.\<close>

fun legal_path :: "('st \<Rightarrow> 'st \<Rightarrow> bool) \<Rightarrow> 'st \<Rightarrow> 'st list \<Rightarrow> bool" where
  "legal_path can s [] = True"
| "legal_path can s (t # ts) = (can s t \<and> legal_path can t ts)"

locale lifecycle =
  fixes can :: "'st \<Rightarrow> 'st \<Rightarrow> bool"
    and terminal :: "'st \<Rightarrow> bool"
    and valid :: "'st \<Rightarrow> bool"
    and rank :: "'st \<Rightarrow> nat"
  assumes stuck: "terminal s \<Longrightarrow> \<not> can s t"
    and closed: "can s t \<Longrightarrow> valid s \<and> valid t"
    and descends: "can s t \<Longrightarrow> rank t < rank s"
    and moves: "valid s \<Longrightarrow> \<not> terminal s \<Longrightarrow> \<exists>t. can s t"
begin

lemma path_bound: "legal_path can s ts \<Longrightarrow> length ts \<le> rank s"
proof (induction ts arbitrary: s)
  case Nil
  then show ?case by simp
next
  case (Cons t ts)
  then show ?case using descends [of s t] by fastforce
qed

lemma path_never_returns: "legal_path can s ts \<Longrightarrow> t \<in> set ts \<Longrightarrow> rank t < rank s"
proof (induction ts arbitrary: s)
  case Nil
  then show ?case by simp
next
  case (Cons u ts)
  then show ?case using descends [of s u] by fastforce
qed

lemma path_distinct: "legal_path can s ts \<Longrightarrow> distinct (s # ts)"
proof (induction ts arbitrary: s)
  case Nil
  then show ?case by simp
next
  case (Cons t ts)
  have "s \<notin> set (t # ts)" using path_never_returns [OF Cons.prems] by blast
  moreover have "distinct (t # ts)" using Cons.prems by (intro Cons.IH) simp
  ultimately show ?case by simp
qed

lemma path_valid: "legal_path can s ts \<Longrightarrow> t \<in> set ts \<Longrightarrow> valid t"
  by (induction ts arbitrary: s) (auto dest: closed)

lemma reaches_terminal: "valid s \<Longrightarrow> \<exists>ts. legal_path can s ts \<and> terminal (last (s # ts))"
proof (induction "rank s" arbitrary: s rule: less_induct)
  case less
  show ?case
  proof (cases "terminal s")
    case True
    then show ?thesis by (intro exI [of _ "[]"]) simp
  next
    case False
    then obtain t where t: "can s t" using moves less.prems by blast
    then obtain ts where "legal_path can t ts" "terminal (last (t # ts))"
      using less.hyps [OF descends [OF t]] closed [OF t] by blast
    then show ?thesis using t by (intro exI [of _ "t # ts"]) simp
  qed
qed

lemma path_stops: "legal_path can s ts \<Longrightarrow> terminal s \<Longrightarrow> ts = []"
  using stuck by (cases ts) auto

end

fun status_rank :: "status \<Rightarrow> nat" where
  "status_rank StatusPending = 3"
| "status_rank StatusRunning = 2"
| "status_rank StatusCompensating = 1"
| "status_rank _ = 0"

fun step_status_rank :: "step_status \<Rightarrow> nat" where
  "step_status_rank StepStatusPending = 4"
| "step_status_rank StepStatusRunning = 3"
| "step_status_rank StepStatusSucceeded = 2"
| "step_status_rank StepStatusCompensating = 1"
| "step_status_rank _ = 0"

interpretation exec_life: lifecycle canTransitionStatus IsTerminal Valid status_rank
proof unfold_locales
  show "\<exists>t. canTransitionStatus s t" if "Valid s" "\<not> IsTerminal s" for s
    using that by (cases s) auto
qed auto

interpretation step_life: lifecycle canTransitionStepStatus step_IsTerminal step_Valid
  step_status_rank
proof unfold_locales
  show "\<exists>t. canTransitionStepStatus s t" if "step_Valid s" "\<not> step_IsTerminal s" for s
    using that by (cases s) auto
qed auto

text \<open>
  C32: an execution's status changes at most three times, never returns to an earlier value,
  and from every recognised status a terminal one can be reached; nothing follows a terminal
  one.
\<close>

theorem status_lifecycle:
  "(legal_path canTransitionStatus s ts \<longrightarrow>
      length ts \<le> 3 \<and> distinct (s # ts) \<and> (IsTerminal s \<longrightarrow> ts = []))
   \<and> (Valid s \<longrightarrow> (\<exists>us. legal_path canTransitionStatus s us \<and> IsTerminal (last (s # us))))"
proof -
  have "status_rank s \<le> 3" by (cases s) simp_all
  then show ?thesis
    using exec_life.path_bound exec_life.path_distinct exec_life.path_stops
      exec_life.reaches_terminal by (meson le_trans)
qed

theorem status_lifecycle_witness:
  "distinct [StatusPending, StatusRunning, StatusCompensating, StatusCompensated]
   \<and> (\<exists>us. legal_path canTransitionStatus StatusRunning us
        \<and> IsTerminal (last (StatusRunning # us)))"
proof -
  have p: "legal_path canTransitionStatus StatusPending
      [StatusRunning, StatusCompensating, StatusCompensated]" by code_simp
  have v: "Valid StatusRunning" by code_simp
  show ?thesis
    using status_lifecycle [of StatusPending "[StatusRunning, StatusCompensating, StatusCompensated]"]
      status_lifecycle [of StatusRunning "[]"] p v by blast
qed

end
