(* ===== verification/Errors.thy ===== *)
theory Errors
  imports Statuses "HOL-Library.Word"
begin

text \<open>
  The error values of the library (\<open>errors.go\<close>, and \<open>ExecutionLockedError\<close> of
  \<open>lock.go\<close>), the messages they print, and the standard library's \<open>errors.Is\<close> and
  \<open>errors.As\<close> on them. First the pieces of \<open>fmt\<close> and \<open>time\<close> those messages use.
\<close>

section \<open>Durations and formatting\<close>

text \<open>
  \<open>time.Duration\<close> is a signed 64-bit count of nanoseconds: \<open>sint\<close> reads it, and its
  arithmetic wraps.
\<close>

type_synonym duration = "64 word"

definition Nanosecond :: duration where "Nanosecond = 1"
definition Millisecond :: duration where "Millisecond = 1000000"
definition Second :: duration where "Second = 1000000000"

fun digit_char :: "nat \<Rightarrow> char" where
  "digit_char d = ''0123456789'' ! d"

fun nat_string :: "nat \<Rightarrow> string" where
  "nat_string n = (if n < 10 then [digit_char n] else nat_string (n div 10) @ [digit_char (n mod 10)])"

declare nat_string.simps [simp del]

text \<open>
  \<open>fmtFrac\<close> of Go's \<open>time\<close> package: the last \<open>prec\<close> digits of \<open>v\<close> as a fraction
  without trailing zeros, and what remains of \<open>v\<close>. \<open>acc\<close> is the text to its right.
\<close>

fun fmtFrac :: "nat \<Rightarrow> nat \<Rightarrow> bool \<Rightarrow> string \<Rightarrow> string \<times> nat" where
  "fmtFrac 0 v started acc = ((if started then CHR ''.'' # acc else acc), v)"
| "fmtFrac (Suc prec) v started acc =
     (let digit = v mod 10; started' = (started \<or> digit \<noteq> 0)
      in fmtFrac prec (v div 10) started' (if started' then digit_char digit # acc else acc))"

definition micro_sign :: string where
  "micro_sign = [CHR 0xC2, CHR 0xB5]"

definition duration_magnitude :: "nat \<Rightarrow> string" where
  "duration_magnitude u =
     (if u = 0 then ''0s''
      else if u < 1000 then nat_string u @ ''ns''
      else if u < 1000000 then
        (case fmtFrac 3 u False (micro_sign @ ''s'') of (acc, v) \<Rightarrow> nat_string v @ acc)
      else if u < 1000000000 then
        (case fmtFrac 6 u False ''ms'' of (acc, v) \<Rightarrow> nat_string v @ acc)
      else
        (case fmtFrac 9 u False ''s'' of (acc, secs) \<Rightarrow>
           let m = secs div 60; h = m div 60
           in (if h > 0 then nat_string h @ ''h'' else [])
              @ (if m > 0 then nat_string (m mod 60) @ ''m'' else [])
              @ nat_string (secs mod 60) @ acc))"

definition duration_string :: "duration \<Rightarrow> string" where
  "duration_string d =
     (if sint d < 0 then ''-'' @ duration_magnitude (nat (- sint d))
      else duration_magnitude (nat (sint d)))"

text \<open>
  The verb \<open>%q\<close> (\<open>strconv.Quote\<close>) on the bytes of a string: ASCII as Go escapes it; bytes
  from 128 on (printable UTF-8 text) stand for themselves.
\<close>

definition hex_alphabet :: string where
  "hex_alphabet = ''0123456789abcdef''"

definition hex_digit :: "nat \<Rightarrow> char" where
  "hex_digit d = hex_alphabet ! d"

definition quote_char :: "char \<Rightarrow> string" where
  "quote_char c = (let n = (of_char c :: nat) in
     if c = CHR 0x22 then [CHR 0x5C, CHR 0x22]
     else if c = CHR 0x5C then [CHR 0x5C, CHR 0x5C]
     else if n = 7 then [CHR 0x5C, CHR ''a'']
     else if n = 8 then [CHR 0x5C, CHR ''b'']
     else if n = 9 then [CHR 0x5C, CHR ''t'']
     else if n = 10 then [CHR 0x5C, CHR ''n'']
     else if n = 11 then [CHR 0x5C, CHR ''v'']
     else if n = 12 then [CHR 0x5C, CHR ''f'']
     else if n = 13 then [CHR 0x5C, CHR ''r'']
     else if n < 32 \<or> n = 127 then [CHR 0x5C, CHR ''x'', hex_digit (n div 16), hex_digit (n mod 16)]
     else [c])"

definition quoted :: "string \<Rightarrow> string" where
  "quoted s = [CHR 0x22] @ concat (map quote_char s) @ [CHR 0x22]"

section \<open>Error values\<close>

text \<open>
  One constructor per kind of error the library creates, inspects or receives. Go compares
  pointers: the sentinels are constructors of their own, and the errors whose identity the
  engine compares (\<open>SagaTimeoutError\<close>, \<open>StepTimeoutError\<close>) and those a caller creates
  with \<open>errors.New\<close> (\<open>ErrorString\<close>) carry the number of the allocation. \<open>WrapError\<close> is
  what \<open>fmt.Errorf\<close> returns for a format with \<open>%w\<close> verbs: the text and the errors it
  wraps. A \<open>StepError\<close> may hold no error (\<open>Err: nil\<close>).
\<close>

datatype gerr =
    ErrCompensationFailed
  | ErrExecutionNotFound
  | ErrRecoverySkipped
  | DeadlineExceeded
  | Canceled
  | ErrorString nat string
  | StepError string "gerr option"
  | InvalidTransitionError status status
  | InvalidStepTransitionError string step_status step_status
  | NonRetryableError gerr
  | SagaTimeoutError nat string duration
  | StepTimeoutError nat string duration
  | ExecutionLockedError string
  | WrapError string "gerr list"

text \<open>The method \<open>Error()\<close> of each type, and of the standard library's errors.\<close>

primrec Error_msg :: "gerr \<Rightarrow> string" where
  "Error_msg ErrCompensationFailed = ''saga: compensation failed''"
| "Error_msg ErrExecutionNotFound = ''saga: execution not found''"
| "Error_msg ErrRecoverySkipped = ''saga: recovery skipped: execution has an in-flight step''"
| "Error_msg DeadlineExceeded = ''context deadline exceeded''"
| "Error_msg Canceled = ''context canceled''"
| "Error_msg (ErrorString i s) = s"
| "Error_msg (StepError step e) = ''saga: step '' @ quoted step @ '': ''
     @ (case map_option Error_msg e of None \<Rightarrow> ''<nil>'' | Some m \<Rightarrow> m)"
| "Error_msg (InvalidTransitionError from to') =
     ''saga: invalid status transition '' @ status_string from @ '' -> '' @ status_string to'"
| "Error_msg (InvalidStepTransitionError step from to') =
     ''saga: invalid step '' @ quoted step @ '' status transition ''
     @ step_status_string from @ '' -> '' @ step_status_string to'"
| "Error_msg (NonRetryableError e) = Error_msg e"
| "Error_msg (SagaTimeoutError i saga t) =
     ''saga: '' @ quoted saga @ '' exceeded its '' @ duration_string t @ '' timeout''"
| "Error_msg (StepTimeoutError i step t) =
     ''saga: step '' @ quoted step @ '' exceeded its '' @ duration_string t @ '' timeout''"
| "Error_msg (ExecutionLockedError i) =
     ''saga: execution '' @ quoted i @ '' is locked by another worker''"
| "Error_msg (WrapError m es) = m"

text \<open>The methods \<open>Unwrap()\<close>: the errors an error wraps, in order.\<close>

fun Unwrap :: "gerr \<Rightarrow> gerr list" where
  "Unwrap (StepError step e) = (case e of None \<Rightarrow> [] | Some x \<Rightarrow> [x])"
| "Unwrap (NonRetryableError e) = [e]"
| "Unwrap (SagaTimeoutError i saga t) = [DeadlineExceeded]"
| "Unwrap (StepTimeoutError i step t) = [DeadlineExceeded]"
| "Unwrap (WrapError m es) = es"
| "Unwrap _ = []"

text \<open>
  \<open>errors.Is\<close> and \<open>errors.As\<close> visit the error and what it wraps, depth first:
  \<open>err_chain\<close> lists the errors in that order.
\<close>

primrec err_chain :: "gerr \<Rightarrow> gerr list" where
  "err_chain ErrCompensationFailed = [ErrCompensationFailed]"
| "err_chain ErrExecutionNotFound = [ErrExecutionNotFound]"
| "err_chain ErrRecoverySkipped = [ErrRecoverySkipped]"
| "err_chain DeadlineExceeded = [DeadlineExceeded]"
| "err_chain Canceled = [Canceled]"
| "err_chain (ErrorString i s) = [ErrorString i s]"
| "err_chain (StepError step e) =
     StepError step e # (case map_option err_chain e of None \<Rightarrow> [] | Some c \<Rightarrow> c)"
| "err_chain (InvalidTransitionError from to') = [InvalidTransitionError from to']"
| "err_chain (InvalidStepTransitionError step from to') = [InvalidStepTransitionError step from to']"
| "err_chain (NonRetryableError e) = NonRetryableError e # err_chain e"
| "err_chain (SagaTimeoutError i saga t) = [SagaTimeoutError i saga t, DeadlineExceeded]"
| "err_chain (StepTimeoutError i step t) = [StepTimeoutError i step t, DeadlineExceeded]"
| "err_chain (ExecutionLockedError i) = [ExecutionLockedError i]"
| "err_chain (WrapError m es) = WrapError m es # concat (map err_chain es)"

text \<open>The visiting order is the one \<open>Unwrap\<close> gives.\<close>

lemma err_chain_Unwrap: "err_chain e = e # concat (map err_chain (Unwrap e))"
  by (cases e rule: Unwrap.cases) (auto split: option.split)

definition errors_Is :: "gerr \<Rightarrow> gerr \<Rightarrow> bool" where
  "errors_Is err target = list_ex (\<lambda>e. e = target) (err_chain err)"

text \<open>\<open>NonRetryable(err)\<close>: nil stays nil.\<close>

definition NonRetryable :: "gerr option \<Rightarrow> gerr option" where
  "NonRetryable err = (case err of None \<Rightarrow> None | Some e \<Rightarrow> Some (NonRetryableError e))"

fun is_NonRetryableError :: "gerr \<Rightarrow> bool" where
  "is_NonRetryableError (NonRetryableError e) = True"
| "is_NonRetryableError _ = False"

text \<open>\<open>isNonRetryable\<close>: \<open>errors.As\<close> finds a \<open>*nonRetryableError\<close> in the chain.\<close>

definition isNonRetryable :: "gerr \<Rightarrow> bool" where
  "isNonRetryable err = list_ex is_NonRetryableError (err_chain err)"

text \<open>The errors the engine builds with \<open>fmt.Errorf\<close>.\<close>

definition persist_error :: "string \<Rightarrow> gerr \<Rightarrow> gerr" where
  "persist_error i err =
     WrapError (''saga: failed to persist execution '' @ quoted i @ '': '' @ Error_msg err) [err]"

definition acquire_error :: "string \<Rightarrow> gerr \<Rightarrow> gerr" where
  "acquire_error i err =
     WrapError (''saga: failed to acquire execution lock for '' @ quoted i @ '': '' @ Error_msg err) [err]"

definition renew_error :: "string \<Rightarrow> gerr \<Rightarrow> gerr" where
  "renew_error i err =
     WrapError (''saga: failed to renew execution lock for '' @ quoted i @ '': '' @ Error_msg err) [err]"

definition compensation_error :: "gerr \<Rightarrow> gerr" where
  "compensation_error originalErr =
     WrapError (Error_msg ErrCompensationFailed @ '': '' @ Error_msg originalErr)
       [ErrCompensationFailed, originalErr]"

section \<open>Facts\<close>

lemma err_chain_self [simp]: "e \<in> set (err_chain e)"
  using err_chain_Unwrap [of e] by (metis list.set_intros(1))

lemma errors_Is_iff: "errors_Is err target \<longleftrightarrow> target \<in> set (err_chain err)"
  by (auto simp: errors_Is_def list_ex_iff)

lemma errors_Is_refl [simp]: "errors_Is e e"
  by (simp add: errors_Is_iff)

lemma errors_Is_wrapped: "e \<in> set (Unwrap err) \<Longrightarrow> errors_Is e target \<Longrightarrow> errors_Is err target"
  by (subst (asm) errors_Is_iff, subst errors_Is_iff, subst err_chain_Unwrap) auto

lemma isNonRetryable_wrapped: "e \<in> set (Unwrap err) \<Longrightarrow> isNonRetryable e \<Longrightarrow> isNonRetryable err"
  unfolding isNonRetryable_def list_ex_iff
  by (subst err_chain_Unwrap) auto

lemma compensation_error_Is [simp]:
  "errors_Is (compensation_error e) ErrCompensationFailed"
  "errors_Is e t \<Longrightarrow> errors_Is (compensation_error e) t"
  by (rule errors_Is_wrapped [of ErrCompensationFailed]; simp add: compensation_error_def)
     (rule errors_Is_wrapped [of e]; simp add: compensation_error_def)

lemma nat_string_nonempty: "nat_string n \<noteq> []"
  by (subst nat_string.simps) simp


end
