(* ===== verification/Executions.thy ===== *)
theory Executions
  imports Errors
begin

text \<open>
  The durable records of a run: \<open>StepExecution\<close> (\<open>step_execution.go\<close>) and \<open>Execution\<close>
  (\<open>execution.go\<close>), their guarded transitions and the deep copy \<open>Clone\<close>. A \<open>time.Time\<close>
  is its reading in nanoseconds (\<open>int\<close>), a \<open>*time.Time\<close> an option, a Go \<open>any\<close> an option
  of the payload type (\<open>None\<close> is nil). \<open>step_stamps_ok\<close> and \<open>exec_stamps_ok\<close> say that
  the timestamps agree with the status.
\<close>

type_synonym 'd any = "'d option"
type_synonym go_time = int

section \<open>StepExecution\<close>

record 'd step_execution =
  sName :: string
  sStatus :: step_status
  sAttempts :: int
  sOutput :: "'d any"
  sError :: string
  sStartedAt :: "go_time option"
  sCompletedAt :: "go_time option"
  sCompensationStartedAt :: "go_time option"
  sCompensatedAt :: "go_time option"

text \<open>The record Go builds from \<open>StepExecution{Name: name, Status: status}\<close>.\<close>

definition new_step_execution :: "string \<Rightarrow> step_status \<Rightarrow> 'd step_execution" where
  "new_step_execution name status =
     \<lparr>sName = name, sStatus = status, sAttempts = 0, sOutput = None, sError = [],
      sStartedAt = None, sCompletedAt = None, sCompensationStartedAt = None,
      sCompensatedAt = None\<rparr>"

definition step_transition ::
    "'d step_execution \<Rightarrow> step_status \<Rightarrow> go_time \<Rightarrow> gerr + 'd step_execution" where
  "step_transition s to' now =
     (if \<not> canTransitionStepStatus (sStatus s) to'
      then Inl (InvalidStepTransitionError (sName s) (sStatus s) to')
      else let s' = s\<lparr>sStatus := to'\<rparr> in
        Inr (case to' of
            StepStatusRunning \<Rightarrow> s'\<lparr>sStartedAt := Some now\<rparr>
          | StepStatusSucceeded \<Rightarrow> s'\<lparr>sCompletedAt := Some now\<rparr>
          | StepStatusFailed \<Rightarrow> s'\<lparr>sCompletedAt := Some now\<rparr>
          | StepStatusCompensating \<Rightarrow> s'\<lparr>sCompensationStartedAt := Some now\<rparr>
          | StepStatusCompensated \<Rightarrow> s'\<lparr>sCompensatedAt := Some now\<rparr>
          | StepStatusCompensationFailed \<Rightarrow> s'\<lparr>sCompensatedAt := Some now\<rparr>
          | _ \<Rightarrow> s'))"

section \<open>Execution\<close>

record 'd execution =
  ID :: string
  SagaName :: string
  Status :: status
  Input :: "'d any"
  Output :: "'d any"
  Steps :: "'d step_execution list"
  CurrentStep :: string
  Error :: string
  CreatedAt :: go_time
  UpdatedAt :: go_time
  StartedAt :: "go_time option"
  CompletedAt :: "go_time option"

definition clonedTime :: "go_time option \<Rightarrow> go_time option" where
  "clonedTime t = (case t of None \<Rightarrow> None | Some cp \<Rightarrow> Some cp)"

definition Clone :: "'d execution \<Rightarrow> 'd execution" where
  "Clone e = e\<lparr>Steps := map (\<lambda>s. s\<lparr>sStartedAt := clonedTime (sStartedAt s),
                  sCompletedAt := clonedTime (sCompletedAt s),
                  sCompensationStartedAt := clonedTime (sCompensationStartedAt s),
                  sCompensatedAt := clonedTime (sCompensatedAt s)\<rparr>) (Steps e),
               StartedAt := clonedTime (StartedAt e), CompletedAt := clonedTime (CompletedAt e)\<rparr>"

definition exec_transition ::
    "'d execution \<Rightarrow> status \<Rightarrow> go_time \<Rightarrow> gerr + 'd execution" where
  "exec_transition e to' now =
     (if \<not> canTransitionStatus (Status e) to'
      then Inl (InvalidTransitionError (Status e) to')
      else let e1 = e\<lparr>Status := to', UpdatedAt := now\<rparr>;
               e2 = (if to' = StatusRunning then e1\<lparr>StartedAt := Some now\<rparr> else e1);
               e3 = (if IsTerminal to' then e2\<lparr>CompletedAt := Some now\<rparr> else e2)
           in Inr e3)"

lemma clonedTime_id [simp]: "clonedTime t = t"
  by (simp add: clonedTime_def split: option.split)

lemma Clone_id [simp]: "Clone e = e"
  by (simp add: Clone_def)

section \<open>Transitions\<close>

lemma step_transition_fields:
  assumes "step_transition s to' now = Inr s'"
  shows "sStatus s' = to'" "sName s' = sName s" "sAttempts s' = sAttempts s"
    "sOutput s' = sOutput s" "sError s' = sError s"
  using assms by (auto simp: step_transition_def Let_def split: if_splits step_status.splits)

lemma exec_transition_fields:
  assumes "exec_transition e to' now = Inr e'"
  shows "Status e' = to'" "UpdatedAt e' = now" "ID e' = ID e" "SagaName e' = SagaName e"
    "Input e' = Input e" "Output e' = Output e" "Steps e' = Steps e"
    "CurrentStep e' = CurrentStep e" "Error e' = Error e" "CreatedAt e' = CreatedAt e"
  using assms by (auto simp: exec_transition_def Let_def split: if_splits)

lemma exec_transition_Inr_iff:
  "(\<exists>e'. exec_transition e to' now = Inr e') \<longleftrightarrow> canTransitionStatus (Status e) to'"
  by (simp add: exec_transition_def Let_def)

lemma step_transition_Inr_iff:
  "(\<exists>s'. step_transition s to' now = Inr s') \<longleftrightarrow> canTransitionStepStatus (sStatus s) to'"
  by (simp add: step_transition_def Let_def)

section \<open>Timestamps agree with the status\<close>

definition step_stamps_ok :: "'d step_execution \<Rightarrow> bool" where
  "step_stamps_ok s \<longleftrightarrow>
     (sStartedAt s \<noteq> None \<longleftrightarrow> sStatus s \<noteq> StepStatusPending)
   \<and> (sCompletedAt s \<noteq> None \<longleftrightarrow> sStatus s \<notin> {StepStatusPending, StepStatusRunning})
   \<and> (sCompensationStartedAt s \<noteq> None \<longleftrightarrow>
        sStatus s \<in> {StepStatusCompensating, StepStatusCompensated, StepStatusCompensationFailed})
   \<and> (sCompensatedAt s \<noteq> None \<longleftrightarrow>
        sStatus s \<in> {StepStatusCompensated, StepStatusCompensationFailed})"

definition exec_stamps_ok :: "'d execution \<Rightarrow> bool" where
  "exec_stamps_ok e \<longleftrightarrow>
     (StartedAt e \<noteq> None \<longleftrightarrow> Status e \<noteq> StatusPending)
   \<and> (CompletedAt e \<noteq> None \<longleftrightarrow> IsTerminal (Status e))"

lemma step_transition_stamps:
  assumes "step_stamps_ok s" and tr: "step_transition s to' now = Inr s'"
  shows "step_stamps_ok s'"
proof -
  have "canTransitionStepStatus (sStatus s) to'" using tr step_transition_Inr_iff by blast
  then consider "sStatus s = StepStatusPending" "to' = StepStatusRunning"
    | "sStatus s = StepStatusRunning" "to' = StepStatusSucceeded"
    | "sStatus s = StepStatusRunning" "to' = StepStatusFailed"
    | "sStatus s = StepStatusSucceeded" "to' = StepStatusCompensating"
    | "sStatus s = StepStatusCompensating" "to' = StepStatusCompensated"
    | "sStatus s = StepStatusCompensating" "to' = StepStatusCompensationFailed"
    by auto
  then show ?thesis
    by cases (use assms in \<open>auto simp: step_transition_def step_stamps_ok_def\<close>)
qed

lemma exec_transition_stamps:
  assumes "exec_stamps_ok e" and tr: "exec_transition e to' now = Inr e'"
  shows "exec_stamps_ok e'"
proof -
  have "canTransitionStatus (Status e) to'" using tr exec_transition_Inr_iff by blast
  then consider "Status e = StatusPending" "to' = StatusRunning"
    | "Status e = StatusRunning" "to' = StatusCompleted"
    | "Status e = StatusRunning" "to' = StatusCompensating"
    | "Status e = StatusRunning" "to' = StatusFailed"
    | "Status e = StatusCompensating" "to' = StatusCompensated"
    | "Status e = StatusCompensating" "to' = StatusCompensationFailed"
    by auto
  then show ?thesis
    by cases (use assms in \<open>auto simp: exec_transition_def exec_stamps_ok_def\<close>)
qed

text \<open>A transition either is refused and names both statuses, or moves the status and its timestamps together.\<close>

lemma step_transition_correct:
  assumes "step_stamps_ok s"
  shows "case step_transition s to' now of
      Inl err \<Rightarrow> \<not> canTransitionStepStatus (sStatus s) to'
        \<and> err = InvalidStepTransitionError (sName s) (sStatus s) to'
    | Inr s' \<Rightarrow> canTransitionStepStatus (sStatus s) to' \<and> sStatus s' = to' \<and> step_stamps_ok s'
        \<and> sName s' = sName s \<and> sAttempts s' = sAttempts s \<and> sOutput s' = sOutput s
        \<and> sError s' = sError s"
proof (cases "step_transition s to' now")
  case (Inl err)
  then show ?thesis by (auto simp: step_transition_def Let_def split: if_splits)
next
  case (Inr s')
  then have "canTransitionStepStatus (sStatus s) to'"
    using step_transition_Inr_iff by blast
  then show ?thesis
    using Inr step_transition_fields [OF Inr] step_transition_stamps [OF assms Inr] by simp
qed

lemma exec_transition_correct:
  assumes "exec_stamps_ok e"
  shows "case exec_transition e to' now of
      Inl err \<Rightarrow> \<not> canTransitionStatus (Status e) to'
        \<and> err = InvalidTransitionError (Status e) to'
    | Inr e' \<Rightarrow> canTransitionStatus (Status e) to' \<and> Status e' = to' \<and> UpdatedAt e' = now
        \<and> exec_stamps_ok e' \<and> ID e' = ID e \<and> SagaName e' = SagaName e \<and> Input e' = Input e
        \<and> Output e' = Output e \<and> Steps e' = Steps e \<and> CreatedAt e' = CreatedAt e"
proof (cases "exec_transition e to' now")
  case (Inl err)
  then show ?thesis by (auto simp: exec_transition_def Let_def split: if_splits)
next
  case (Inr e')
  then have "canTransitionStatus (Status e) to'"
    using exec_transition_Inr_iff by blast
  then show ?thesis
    using Inr exec_transition_fields [OF Inr] exec_transition_stamps [OF assms Inr] by simp
qed


text \<open>A pending step and a pending execution.\<close>

definition fresh_execution :: "unit execution" where
  "fresh_execution = \<lparr>ID = ''a'', SagaName = ''s'', Status = StatusPending, Input = None, Output = None,
    Steps = [], CurrentStep = [], Error = [], CreatedAt = 0, UpdatedAt = 0, StartedAt = None,
    CompletedAt = None\<rparr>"


end
