(* ===== verification/Memory_Store.thy ===== *)
theory Memory_Store
  imports Executions "HOL-Library.AList"
begin

text \<open>
  The in-memory store \<open>store/memory/memory.go\<close>: a map of executions and a map of leases,
  and the contracts of \<open>store.go\<close> and \<open>lock.go\<close> it implements. \<open>execution_store\<close> is the
  contract of \<open>Store\<close> and \<open>Lister\<close>, \<open>lease_locker\<close> that of \<open>Locker\<close>; what clients may
  conclude is proved once inside each locale, and both are interpreted on the memory store.
\<close>

section \<open>The store\<close>

text \<open>
  A Go map is an association list: \<open>map_of\<close> looks a key up, and the order of the list is the
  order a \<open>range\<close> loop happens to visit it in, which nothing may depend on. The mutex makes
  every operation atomic, so an operation is one function of the store.
\<close>

record lease =
  owner :: string
  expires :: go_time

record 'd mem_store =
  mem_data :: "(string \<times> 'd execution) list"
  leases :: "(string \<times> lease) list"

definition mem_New :: "'d mem_store" where
  "mem_New = \<lparr>mem_data = [], leases = []\<rparr>"

definition mem_Save :: "'d execution option \<Rightarrow> 'd mem_store \<Rightarrow> gerr option \<times> 'd mem_store" where
  "mem_Save exec s =
     (case exec of
        None \<Rightarrow> (Some (WrapError ''memory: cannot save a nil execution'' []), s)
      | Some e \<Rightarrow>
          if ID e = [] then
            (Some (WrapError ''memory: cannot save an execution with an empty ID'' []), s)
          else (None, s\<lparr>mem_data := AList.update (ID e) (Clone e) (mem_data s)\<rparr>))"

definition mem_Get :: "string \<Rightarrow> 'd mem_store \<Rightarrow> gerr + 'd execution" where
  "mem_Get i s =
     (case map_of (mem_data s) i of None \<Rightarrow> Inl ErrExecutionNotFound | Some e \<Rightarrow> Inr (Clone e))"

fun collect_incomplete :: "(string \<times> 'd execution) list \<Rightarrow> 'd execution list" where
  "collect_incomplete [] = []"
| "collect_incomplete ((k, e) # rest) =
     (if \<not> IsTerminal (Status e) then [Clone e] else []) @ collect_incomplete rest"

definition mem_ListIncomplete :: "'d mem_store \<Rightarrow> 'd execution list" where
  "mem_ListIncomplete s = collect_incomplete (mem_data s)"

definition mem_Acquire ::
    "string \<Rightarrow> string \<Rightarrow> duration \<Rightarrow> go_time \<Rightarrow> 'd mem_store \<Rightarrow> bool \<times> 'd mem_store" where
  "mem_Acquire i own ttl now s =
     (if (case map_of (leases s) i of
            None \<Rightarrow> False
          | Some l \<Rightarrow> owner l \<noteq> own \<and> now < expires l)
      then (False, s)
      else (True, s\<lparr>leases := AList.update i \<lparr>owner = own, expires = now + sint ttl\<rparr> (leases s)\<rparr>))"

definition mem_Release :: "string \<Rightarrow> string \<Rightarrow> 'd mem_store \<Rightarrow> 'd mem_store" where
  "mem_Release i own s =
     (case map_of (leases s) i of
        None \<Rightarrow> s
      | Some l \<Rightarrow> if owner l = own then s\<lparr>leases := AList.delete i (leases s)\<rparr> else s)"

definition mem_inv :: "'d mem_store \<Rightarrow> bool" where
  "mem_inv s \<longleftrightarrow> distinct (map fst (mem_data s)) \<and> distinct (map fst (leases s))
     \<and> list_all (\<lambda>(k, e). ID e = k \<and> k \<noteq> []) (mem_data s)"

section \<open>The contract of Store and Lister\<close>

locale execution_store =
  fixes inv :: "'s \<Rightarrow> bool"
    and save :: "'d execution \<Rightarrow> 's \<Rightarrow> gerr option \<times> 's"
    and get :: "string \<Rightarrow> 's \<Rightarrow> gerr + 'd execution"
    and list_incomplete :: "'s \<Rightarrow> 'd execution list"
  assumes save_inv: "inv s \<Longrightarrow> inv (snd (save e s))"
    and save_get: "inv s \<Longrightarrow> save e s = (None, s') \<Longrightarrow>
      get i s' = (if i = ID e then Inr e else get i s)"
    and save_fail: "inv s \<Longrightarrow> save e s = (Some err, s') \<Longrightarrow> get i s' = get i s"
    and get_missing: "inv s \<Longrightarrow> get i s = Inl err \<Longrightarrow> errors_Is err ErrExecutionNotFound"
    and get_ID: "inv s \<Longrightarrow> get i s = Inr e \<Longrightarrow> ID e = i"
    and list_set: "inv s \<Longrightarrow> set (list_incomplete s) =
      {e. get (ID e) s = Inr e \<and> \<not> IsTerminal (Status e)}"
    and list_distinct: "inv s \<Longrightarrow> distinct (map ID (list_incomplete s))"
begin

lemma incomplete_after_save:
  assumes "inv s" and "save e s = (None, s')"
  shows "e \<in> set (list_incomplete s') \<longleftrightarrow> \<not> IsTerminal (Status e)"
    and "x \<in> set (list_incomplete s') \<Longrightarrow> ID x = ID e \<Longrightarrow> x = e"
    and "ID x \<noteq> ID e \<Longrightarrow> x \<in> set (list_incomplete s') \<longleftrightarrow> x \<in> set (list_incomplete s)"
  using assms save_inv [OF assms(1), of e] save_get [OF assms]
  by (auto simp: list_set)

text \<open>Saving a sequence of records, stopping at the first error.\<close>

lemma save_twice:
  assumes "inv s" and "save e s = (None, s')" and "save e' s' = (None, s'')" and "ID e' = ID e"
  shows "get (ID e) s'' = Inr e'"
proof -
  have "inv s'" using save_inv [OF assms(1), of e] assms(2) by simp
  then show ?thesis using save_get [OF _ assms(3)] assms(4) by simp
qed

end

lemma collect_incomplete_set:
  "set (collect_incomplete al) = {e. \<exists>k. (k, e) \<in> set al \<and> \<not> IsTerminal (Status e)}"
  by (induction al rule: collect_incomplete.induct) auto

lemma collect_incomplete_distinct:
  "distinct (map fst al) \<Longrightarrow> list_all (\<lambda>(k, e). ID e = k \<and> k \<noteq> []) al \<Longrightarrow>
   distinct (map ID (collect_incomplete al))"
proof (induction al rule: collect_incomplete.induct)
  case 1
  then show ?case by simp
next
  case (2 k e rest)
  have "ID x \<noteq> k" if "x \<in> set (collect_incomplete rest)" for x
    using that 2(2,3) by (force simp: collect_incomplete_set list_all_iff simp del: IsTerminal_iff)
  moreover have "distinct (map ID (collect_incomplete rest))" and "ID e = k" using 2 by auto
  ultimately show ?case by (force simp del: IsTerminal_iff)
qed

lemma alist_update_all:
  "list_all P al \<Longrightarrow> P (k, v) \<Longrightarrow> list_all P (AList.update k v al)"
  by (induction al) auto

lemma mem_Save_inv: "mem_inv s \<Longrightarrow> mem_inv (snd (mem_Save x s))"
  by (auto simp: mem_inv_def mem_Save_def distinct_update alist_update_all split: option.split)

lemma mem_Acquire_inv: "mem_inv s \<Longrightarrow> mem_inv (snd (mem_Acquire i own ttl now s))"
  by (auto simp: mem_inv_def mem_Acquire_def distinct_update)

lemma mem_Release_inv: "mem_inv s \<Longrightarrow> mem_inv (mem_Release i own s)"
  by (auto simp: mem_inv_def mem_Release_def distinct_delete split: option.split)

lemma mem_New_inv: "mem_inv mem_New"
  by (simp add: mem_inv_def mem_New_def)

lemma mem_Get_Inr_iff:
  assumes "mem_inv s"
  shows "mem_Get i s = Inr e \<longleftrightarrow> (i, e) \<in> set (mem_data s)"
proof -
  have "distinct (map fst (mem_data s))" using assms by (simp add: mem_inv_def)
  then show ?thesis
    by (auto simp: mem_Get_def map_of_eq_Some_iff split: option.split intro: eq_key_imp_eq_value)
qed

lemma mem_entry_ID: "mem_inv s \<Longrightarrow> (i, e) \<in> set (mem_data s) \<Longrightarrow> ID e = i"
  by (auto simp: mem_inv_def list_all_iff)

interpretation mem: execution_store mem_inv "\<lambda>e. mem_Save (Some e)" mem_Get mem_ListIncomplete
proof unfold_locales
  fix s :: "'a mem_store" and s' e i err
  assume inv: "mem_inv s"
  show "mem_inv (snd (mem_Save (Some e) s))" by (rule mem_Save_inv [OF inv])
  show "mem_Get i s' = (if i = ID e then Inr e else mem_Get i s)"
    if "mem_Save (Some e) s = (None, s')"
    using that by (auto simp: mem_Save_def mem_Get_def update_conv split: if_splits)
  show "mem_Get i s' = mem_Get i s" if "mem_Save (Some e) s = (Some err, s')"
    using that by (auto simp: mem_Save_def split: if_splits)
  show "errors_Is err ErrExecutionNotFound" if "mem_Get i s = Inl err"
    using that by (auto simp: mem_Get_def split: option.splits)
  show "ID e = i" if "mem_Get i s = Inr e"
    using that mem_Get_Inr_iff [OF inv] mem_entry_ID [OF inv] by blast
  show "set (mem_ListIncomplete s) = {e. mem_Get (ID e) s = Inr e \<and> \<not> IsTerminal (Status e)}"
    using mem_entry_ID [OF inv]
    by (auto simp: mem_ListIncomplete_def collect_incomplete_set mem_Get_Inr_iff [OF inv]
        simp del: IsTerminal_iff)
  show "distinct (map ID (mem_ListIncomplete s))"
    using inv by (auto simp: mem_ListIncomplete_def mem_inv_def intro: collect_incomplete_distinct)
qed

section \<open>The contract of Locker\<close>

datatype lock_op =
    LockAcquire string string duration go_time
  | LockRelease string string

fun op_owner :: "lock_op \<Rightarrow> string" where
  "op_owner (LockAcquire i own ttl now) = own"
| "op_owner (LockRelease i own) = own"

text \<open>A history of lock operations, with the answer each one got (a release answers \<open>True\<close>).\<close>

fun run_ops :: "(string \<Rightarrow> string \<Rightarrow> duration \<Rightarrow> go_time \<Rightarrow> 's \<Rightarrow> bool \<times> 's)
    \<Rightarrow> (string \<Rightarrow> string \<Rightarrow> 's \<Rightarrow> 's) \<Rightarrow> lock_op list \<Rightarrow> 's \<Rightarrow> bool list \<times> 's" where
  "run_ops acq rel [] s = ([], s)"
| "run_ops acq rel (LockAcquire i own ttl now # ops) s =
     (let r = acq i own ttl now s; rest = run_ops acq rel ops (snd r)
      in (fst r # fst rest, snd rest))"
| "run_ops acq rel (LockRelease i own # ops) s =
     (let rest = run_ops acq rel ops (rel i own s) in (True # fst rest, snd rest))"

locale lease_locker =
  fixes acquire :: "string \<Rightarrow> string \<Rightarrow> duration \<Rightarrow> go_time \<Rightarrow> 's \<Rightarrow> bool \<times> 's"
    and release :: "string \<Rightarrow> string \<Rightarrow> 's \<Rightarrow> 's"
    and holder :: "'s \<Rightarrow> string \<Rightarrow> (string \<times> go_time) option"
  assumes acquire_free: "fst (acquire i own ttl now s) \<longleftrightarrow>
      (case holder s i of None \<Rightarrow> True | Some (o', t) \<Rightarrow> o' = own \<or> t \<le> now)"
    and acquire_holder: "fst (acquire i own ttl now s) \<Longrightarrow>
      holder (snd (acquire i own ttl now s)) = (holder s)(i := Some (own, now + sint ttl))"
    and acquire_refused: "\<not> fst (acquire i own ttl now s) \<Longrightarrow>
      holder (snd (acquire i own ttl now s)) = holder s"
    and release_holder: "holder (release i own s) =
      (if \<exists>t. holder s i = Some (own, t) then (holder s)(i := None) else holder s)"
begin

text \<open>
  While a lease on \<open>i\<close> has not expired, nothing other owners do changes it, and every attempt
  of theirs to acquire \<open>i\<close> is refused.
\<close>

lemma others_cannot_take:
  assumes "holder s i = Some (a, t)"
    and "\<forall>opn \<in> set ops. op_owner opn \<noteq> a"
    and "\<forall>j own ttl now. LockAcquire j own ttl now \<in> set ops \<longrightarrow> now < t"
  shows "holder (snd (run_ops acquire release ops s)) i = Some (a, t)
    \<and> list_all2 (\<lambda>opn ok. \<forall>own ttl now. opn = LockAcquire i own ttl now \<longrightarrow> \<not> ok)
        ops (fst (run_ops acquire release ops s))"
  using assms
proof (induction ops arbitrary: s)
  case Nil
  then show ?case by simp
next
  case (Cons opn ops)
  show ?case
  proof (cases opn)
    case (LockAcquire j own ttl now)
    have other: "own \<noteq> a" "now < t" using Cons.prems(2,3) LockAcquire by auto
    have refused: "\<not> fst (acquire j own ttl now s)" if "j = i"
      using acquire_free [of j own ttl now s] that Cons.prems(1) other by auto
    have "holder (snd (acquire j own ttl now s)) i = Some (a, t)"
      using acquire_holder [of j own ttl now s] acquire_refused [of j own ttl now s] refused
        Cons.prems(1) by (cases "fst (acquire j own ttl now s)") auto
    then show ?thesis
      using Cons.IH [of "snd (acquire j own ttl now s)"] Cons.prems(2,3) LockAcquire refused
      by (auto simp: Let_def)
  next
    case (LockRelease j own)
    have "holder (release j own s) i = Some (a, t)"
      using Cons.prems(1,2) LockRelease by (auto simp: release_holder)
    then show ?thesis
      using Cons.IH [of "release j own s"] Cons.prems(2,3) LockRelease by (auto simp: Let_def)
  qed
qed

lemma acquire_renews: "holder s i = Some (a, t) \<Longrightarrow> fst (acquire i a ttl now s)"
  by (simp add: acquire_free)

lemma acquire_expired: "holder s i = Some (a, t) \<Longrightarrow> t \<le> now \<Longrightarrow> fst (acquire i b ttl now s)"
  by (simp add: acquire_free)

lemma acquire_released: "fst (acquire i b ttl now (release i a s))" if "holder s i = Some (a, t)"
  using that by (simp add: acquire_free release_holder)

lemma release_stranger: "holder s i = Some (a, t) \<Longrightarrow> b \<noteq> a \<Longrightarrow> holder (release i b s) = holder s"
  by (simp add: release_holder)

end

definition mem_holder :: "'d mem_store \<Rightarrow> string \<Rightarrow> (string \<times> go_time) option" where
  "mem_holder s i = map_option (\<lambda>l. (owner l, expires l)) (map_of (leases s) i)"

interpretation memlock: lease_locker mem_Acquire mem_Release mem_holder
proof unfold_locales
  fix s :: "'a mem_store" and i own ttl now
  show "fst (mem_Acquire i own ttl now s) \<longleftrightarrow>
      (case mem_holder s i of None \<Rightarrow> True | Some (o', t) \<Rightarrow> o' = own \<or> t \<le> now)"
    by (auto simp: mem_Acquire_def mem_holder_def split: option.split)
  show "mem_holder (snd (mem_Acquire i own ttl now s)) = (mem_holder s)(i := Some (own, now + sint ttl))"
    if "fst (mem_Acquire i own ttl now s)"
    using that by (auto simp: mem_Acquire_def mem_holder_def update_conv split: if_splits)
  show "mem_holder (snd (mem_Acquire i own ttl now s)) = mem_holder s"
    if "\<not> fst (mem_Acquire i own ttl now s)"
    using that by (auto simp: mem_Acquire_def split: if_splits)
  show "mem_holder (mem_Release i own s) =
      (if \<exists>t. mem_holder s i = Some (own, t) then (mem_holder s)(i := None) else mem_holder s)"
    by (auto simp: mem_Release_def mem_holder_def delete_conv split: option.split)
qed

lemma mem_lock_frame [simp]:
  "mem_data (snd (mem_Acquire i own ttl now s)) = mem_data s"
  "mem_data (mem_Release i own s) = mem_data s"
  "leases (snd (mem_Save x s)) = leases s"
  by (auto simp: mem_Acquire_def mem_Release_def mem_Save_def split: option.split)

section \<open>The properties\<close>


definition sample_execution :: "string \<Rightarrow> status \<Rightarrow> unit execution" where
  "sample_execution i st = \<lparr>ID = i, SagaName = ''s'', Status = st, Input = None, Output = None,
     Steps = [], CurrentStep = [], Error = [], CreatedAt = 0, UpdatedAt = 0, StartedAt = None,
     CompletedAt = None\<rparr>"


text \<open>
  C30: leases exclude. While the lease of an owner on an execution has not expired, whatever
  sequence of acquisitions and releases other owners make, by the clock before the expiry, leaves
  that lease in place, and every acquisition of that execution among them is refused.
\<close>

theorem lease_excludes_others:
  assumes "mem_holder s i = Some (a, t)"
    and "\<forall>opn \<in> set ops. op_owner opn \<noteq> a"
    and "\<forall>j own ttl now. LockAcquire j own ttl now \<in> set ops \<longrightarrow> now < t"
  shows "mem_holder (snd (run_ops mem_Acquire mem_Release ops s)) i = Some (a, t)
    \<and> list_all2 (\<lambda>opn ok. \<forall>own ttl now. opn = LockAcquire i own ttl now \<longrightarrow> \<not> ok)
        ops (fst (run_ops mem_Acquire mem_Release ops s))"
  by (rule memlock.others_cannot_take [OF assms])

theorem lease_excludes_others_witness:
  "fst (mem_Acquire ''a'' ''me'' 10 0 (mem_New :: unit mem_store))
   \<and> \<not> fst (mem_Acquire ''a'' ''you'' 10 5 (snd (mem_Acquire ''a'' ''me'' 10 0 (mem_New :: unit mem_store))))"
proof -
  let ?s = "snd (mem_Acquire ''a'' ''me'' 10 0 (mem_New :: unit mem_store))"
  have got: "fst (mem_Acquire ''a'' ''me'' 10 0 (mem_New :: unit mem_store))"
    "mem_holder ?s ''a'' = Some (''me'', 10)"
    by (simp_all add: mem_Acquire_def mem_New_def mem_holder_def)
  let ?ops = "[LockAcquire ''a'' ''you'' 10 5]"
  have h: "\<forall>opn \<in> set ?ops. op_owner opn \<noteq> ''me''"
    "\<forall>j own ttl now. LockAcquire j own ttl now \<in> set ?ops \<longrightarrow> now < 10" by simp_all
  show ?thesis using lease_excludes_others [OF got(2) h] got(1) by (simp add: Let_def)
qed

end
