(* ===== verification/World.thy ===== *)
theory World
  imports Memory_Store
begin

text \<open>
  What the engine runs in: the clock, cancellation, randomness and pointer identity (the
  \<open>world\<close>), \<open>context.Context\<close> as the engine uses it, the idempotency keys a context carries
  (\<open>idempotency.go\<close>), identifiers (\<open>internal/idgen/idgen.go\<close>), and the interfaces
  \<open>Store\<close>, \<open>Lister\<close> and \<open>Locker\<close> (\<open>store.go\<close>, \<open>lock.go\<close>) as records of operations,
  with the two implementations of the repository.
\<close>

section \<open>Contexts\<close>

text \<open>
  A context is the chain of the calls that derived it from a root. \<open>Root n\<close> is a context made
  by a caller; \<open>WithDeadline c t cause\<close> is what \<open>context.WithTimeoutCause\<close> returns, with the
  time it expires at. Keys of values are compared by type and value, so the engine's own key
  never equals a foreign one.
\<close>

datatype ctx_key = OperationIDKey | ForeignKey string

datatype ctx =
    Root nat
  | WithValue ctx ctx_key string
  | WithDeadline ctx go_time gerr
  | WithoutCancel ctx

fun ctx_Value :: "ctx \<Rightarrow> ctx_key \<Rightarrow> string option" where
  "ctx_Value (Root n) k = None"
| "ctx_Value (WithValue c k' v) k = (if k' = k then Some v else ctx_Value c k)"
| "ctx_Value (WithDeadline c t e) k = ctx_Value c k"
| "ctx_Value (WithoutCancel c) k = ctx_Value c k"

definition OperationID :: "ctx \<Rightarrow> string" where
  "OperationID c = (case ctx_Value c OperationIDKey of None \<Rightarrow> [] | Some i \<Rightarrow> i)"

definition withOperationID :: "ctx \<Rightarrow> string \<Rightarrow> ctx" where
  "withOperationID c opID = WithValue c OperationIDKey opID"

definition operationID :: "string \<Rightarrow> string \<Rightarrow> string" where
  "operationID executionID stepName = executionID @ ''/'' @ stepName"

definition compensationOperationID :: "string \<Rightarrow> string \<Rightarrow> string" where
  "compensationOperationID executionID stepName = executionID @ ''/'' @ stepName @ ''/compensate''"

text \<open>
  When and why a context ends: a root when its caller cancels it, a derived context when its
  parent does or at its own deadline, whichever is first; \<open>context.Cause\<close> is the reason of
  that first event. Timers are ideal: they fire at their deadline.
\<close>

fun ctx_ends :: "(nat \<Rightarrow> (go_time \<times> gerr) option) \<Rightarrow> ctx \<Rightarrow> (go_time \<times> gerr) option" where
  "ctx_ends ca (Root n) = ca n"
| "ctx_ends ca (WithValue c k v) = ctx_ends ca c"
| "ctx_ends ca (WithDeadline c t e) =
     (case ctx_ends ca c of
        None \<Rightarrow> Some (t, e)
      | Some (t', e') \<Rightarrow> if t' \<le> t then Some (t', e') else Some (t, e))"
| "ctx_ends ca (WithoutCancel c) = None"

section \<open>The world\<close>

text \<open>
  \<open>clock\<close> is the current time. Between two observations of it any time may pass:
  \<open>ticks\<close> is the stream of these delays. \<open>cancel_at n\<close> is when (and with which cause) the
  caller's context \<open>n\<close> ends; a time in the future is a cancellation some other goroutine will
  make. \<open>entropy\<close> is what the system's random source will deliver (\<open>None\<close>: a read that fails),
  \<open>next_ref\<close> the next unused pointer, \<open>mem\<close> the content of the in-memory store, and \<open>user\<close>
  everything that belongs to code outside the library.
\<close>

record ('d, 'u) world =
  clock :: go_time
  ticks :: "nat \<Rightarrow> nat"
  cancel_at :: "nat \<Rightarrow> (go_time \<times> gerr) option"
  entropy :: "nat \<Rightarrow> 8 word option"
  next_ref :: nat
  mem :: "'d mem_store"
  user :: 'u

definition tick :: "('d, 'u) world \<Rightarrow> ('d, 'u) world" where
  "tick w = w\<lparr>clock := clock w + int (ticks w 0), ticks := (\<lambda>n. ticks w (Suc n))\<rparr>"

definition time_Now :: "(('d, 'u) world, go_time) go" where
  "time_Now = seq_go (modify tick) (gets clock)"

definition ended :: "('d, 'u) world \<Rightarrow> ctx \<Rightarrow> gerr option" where
  "ended w c = (case ctx_ends (cancel_at w) c of
      None \<Rightarrow> None
    | Some (t, e) \<Rightarrow> if t \<le> clock w then Some e else None)"

text \<open>\<open>ctx.Err() != nil\<close>, and a \<open>select\<close> on \<open>ctx.Done()\<close> with a default case.\<close>

definition ctx_Done :: "ctx \<Rightarrow> (('d, 'u) world, bool) go" where
  "ctx_Done c = seq_go (modify tick) (gets (\<lambda>w. ended w c \<noteq> None))"

definition context_Cause :: "ctx \<Rightarrow> (('d, 'u) world, gerr option) go" where
  "context_Cause c = seq_go (modify tick) (gets (\<lambda>w. ended w c))"

definition context_WithTimeoutCause :: "ctx \<Rightarrow> duration \<Rightarrow> gerr \<Rightarrow> (('d, 'u) world, ctx) go" where
  "context_WithTimeoutCause c timeout cause =
     bind_go time_Now (\<lambda>now. ret (WithDeadline c (now + sint timeout) cause))"

definition new_ref :: "(('d, 'u) world, nat) go" where
  "new_ref = bind_go (gets next_ref)
     (\<lambda>r. seq_go (modify (\<lambda>w. w\<lparr>next_ref := Suc r\<rparr>)) (ret r))"

text \<open>
  A \<open>select\<close> on a timer and \<open>ctx.Done()\<close>: whichever is first, and the clock stands there.
\<close>

definition timer_or_done :: "ctx \<Rightarrow> duration \<Rightarrow> (('d, 'u) world, gerr option) go" where
  "timer_or_done c delay = bind_go time_Now (\<lambda>now. let wake = now + sint delay in
     bind_go (gets (\<lambda>w. ctx_ends (cancel_at w) c)) (\<lambda>fin.
       case fin of
         Some (t, e) \<Rightarrow> if t \<le> wake
           then seq_go (modify (\<lambda>w. w\<lparr>clock := max (clock w) t\<rparr>)) (ret (Some e))
           else seq_go (modify (\<lambda>w. w\<lparr>clock := wake\<rparr>)) (ret None)
       | None \<Rightarrow> seq_go (modify (\<lambda>w. w\<lparr>clock := wake\<rparr>)) (ret None)))"

section \<open>Identifiers\<close>

definition byte_hex :: "8 word \<Rightarrow> string" where
  "byte_hex b = [hex_digit (unat b div 16), hex_digit (unat b mod 16)]"

definition hex_EncodeToString :: "8 word list \<Rightarrow> string" where
  "hex_EncodeToString bs = concat (map byte_hex bs)"

text \<open>\<open>crypto/rand.Read\<close> into a buffer of \<open>n\<close> bytes: all of them or an error.\<close>

definition rand_Read :: "nat \<Rightarrow> (('d, 'u) world, 8 word list option) go" where
  "rand_Read n = bind_go (gets (\<lambda>w. map (entropy w) [0..<n])) (\<lambda>bs.
     if list_all (\<lambda>b. b \<noteq> None) bs
     then seq_go (modify (\<lambda>w. w\<lparr>entropy := (\<lambda>i. entropy w (i + n))\<rparr>)) (ret (Some (map the bs)))
     else ret None)"

definition idgen_New :: "(('d, 'u) world, string) go" where
  "idgen_New = bind_go (rand_Read 16) (\<lambda>b. case b of
      None \<Rightarrow> panic ''idgen: failed to read random bytes''
    | Some bs \<Rightarrow> ret (hex_EncodeToString bs))"

section \<open>The interfaces Store, Lister and Locker\<close>

record ('d, 'u) locker_ops =
  Acquire :: "ctx \<Rightarrow> string \<Rightarrow> string \<Rightarrow> duration \<Rightarrow> (('d, 'u) world, bool \<times> gerr option) go"
  Release :: "ctx \<Rightarrow> string \<Rightarrow> string \<Rightarrow> (('d, 'u) world, gerr option) go"

text \<open>\<open>as_Locker\<close> is the type assertion \<open>store.(Locker)\<close>.\<close>

record ('d, 'u) store_ops =
  Save :: "ctx \<Rightarrow> 'd execution \<Rightarrow> (('d, 'u) world, gerr option) go"
  Get :: "ctx \<Rightarrow> string \<Rightarrow> (('d, 'u) world, gerr + 'd execution) go"
  as_Locker :: "('d, 'u) locker_ops option"

record ('d, 'u) lister_ops =
  ListIncomplete :: "ctx \<Rightarrow> (('d, 'u) world, gerr + 'd execution list) go"

definition noopStore :: "('d, 'u) store_ops" where
  "noopStore = \<lparr>Save = (\<lambda>c e. ret None), Get = (\<lambda>c i. ret (Inl ErrExecutionNotFound)),
     as_Locker = None\<rparr>"

text \<open>The in-memory store as an implementation of the three interfaces.\<close>

definition mem_locker :: "('d, 'u) locker_ops" where
  "mem_locker =
     \<lparr>Acquire = (\<lambda>c i own ttl. bind_go time_Now (\<lambda>now w.
        case mem_Acquire i own ttl now (mem w) of (ok, m) \<Rightarrow> (Ret (ok, None), w\<lparr>mem := m\<rparr>))),
      Release = (\<lambda>c i own w. (Ret None, w\<lparr>mem := mem_Release i own (mem w)\<rparr>))\<rparr>"

definition mem_store_ops :: "('d, 'u) store_ops" where
  "mem_store_ops =
     \<lparr>Save = (\<lambda>c e w. case mem_Save (Some e) (mem w) of (err, m) \<Rightarrow> (Ret err, w\<lparr>mem := m\<rparr>)),
      Get = (\<lambda>c i. gets (\<lambda>w. mem_Get i (mem w))),
      as_Locker = Some mem_locker\<rparr>"

definition mem_lister :: "('d, 'u) lister_ops" where
  "mem_lister = \<lparr>ListIncomplete = (\<lambda>c. gets (\<lambda>w. Inr (mem_ListIncomplete (mem w))))\<rparr>"

section \<open>Contexts do not come back to life\<close>

lemma tick_simps [simp]:
  "clock w \<le> clock (tick w)" "cancel_at (tick w) = cancel_at w" "entropy (tick w) = entropy w"
  "next_ref (tick w) = next_ref w" "mem (tick w) = mem w" "user (tick w) = user w"
  by (simp_all add: tick_def)

lemma ended_stable:
  "ended w c = Some e \<Longrightarrow> clock w \<le> clock w' \<Longrightarrow> cancel_at w' = cancel_at w \<Longrightarrow> ended w' c = Some e"
  by (auto simp: ended_def split: option.splits if_splits)

lemma ended_tick [simp]: "ended w c = Some e \<Longrightarrow> ended (tick w) c = Some e"
  by (rule ended_stable) simp_all

lemma ended_WithoutCancel [simp]: "ended w (WithoutCancel c) = None"
  by (simp add: ended_def)

lemma ended_WithValue [simp]: "ended w (WithValue c k v) = ended w c"
  by (simp add: ended_def)

lemma ended_withOperationID [simp]: "ended w (withOperationID c i) = ended w c"
  by (simp add: withOperationID_def)

text \<open>
  Deriving a deadline keeps the parent's end, unless the deadline came first.
\<close>

lemma ended_WithDeadline:
  "ended w (WithDeadline c t e) =
     (case ctx_ends (cancel_at w) c of
        Some (t', e') \<Rightarrow> if t' \<le> t then ended w c else if t \<le> clock w then Some e else None
      | None \<Rightarrow> if t \<le> clock w then Some e else None)"
  by (auto simp: ended_def split: option.split)

lemma parent_ended:
  "ended w c = Some e' \<Longrightarrow> \<exists>e''. ended w (WithDeadline c t e) = Some e''"
  by (auto simp: ended_WithDeadline ended_def split: option.splits if_splits)

section \<open>Operation identifiers\<close>

lemma OperationID_with [simp]: "OperationID (withOperationID c i) = i"
  by (simp add: OperationID_def withOperationID_def)

lemma OperationID_derived [simp]:
  "OperationID (WithDeadline c t e) = OperationID c"
  "OperationID (WithoutCancel c) = OperationID c"
  "OperationID (WithValue c (ForeignKey k) v) = OperationID c"
  "OperationID (Root n) = []"
  by (simp_all add: OperationID_def)

lemma hex_digit_in: "d < 16 \<Longrightarrow> hex_digit d \<in> set hex_alphabet"
  unfolding hex_digit_def by (rule nth_mem) (simp add: hex_alphabet_def)

lemma unat_byte: "unat (b :: 8 word) < 256"
  using unsigned_less [of b, where ?'a = nat] by simp

lemma byte_hex_chars: "set (byte_hex b) \<subseteq> set hex_alphabet"
proof -
  have "unat b div 16 < 16" "unat b mod 16 < 16" using unat_byte [of b] by auto
  then show ?thesis by (simp add: byte_hex_def hex_digit_in)
qed

lemma hex_length: "length (hex_EncodeToString bs) = 2 * length bs"
  by (induction bs) (simp_all add: hex_EncodeToString_def byte_hex_def)

lemma hex_chars: "set (hex_EncodeToString bs) \<subseteq> set hex_alphabet"
  using byte_hex_chars by (force simp: hex_EncodeToString_def)

lemma hex_digit_inj: "a < 16 \<Longrightarrow> b < 16 \<Longrightarrow> hex_digit a = hex_digit b \<Longrightarrow> a = b"
proof -
  assume "a < 16" "b < 16" "hex_digit a = hex_digit b"
  moreover have "distinct hex_alphabet" "length hex_alphabet = 16"
    by (simp_all add: hex_alphabet_def)
  ultimately show "a = b"
    unfolding hex_digit_def using nth_eq_iff_index_eq [of hex_alphabet a b] by simp
qed

lemma byte_hex_inj: "byte_hex a = byte_hex b \<Longrightarrow> a = b"
proof -
  assume eq: "byte_hex a = byte_hex b"
  have lt: "unat a div 16 < 16" "unat a mod 16 < 16" "unat b div 16 < 16" "unat b mod 16 < 16"
    using unat_byte [of a] unat_byte [of b] by auto
  then have "unat a div 16 = unat b div 16" "unat a mod 16 = unat b mod 16"
    using eq hex_digit_inj [OF lt(1,3)] hex_digit_inj [OF lt(2,4)] by (auto simp: byte_hex_def)
  then have "unat a = unat b" by (metis div_mult_mod_eq)
  then show "a = b" by (simp add: word_unat_eq_iff)
qed

lemma hex_inj: "length as = length bs \<Longrightarrow> hex_EncodeToString as = hex_EncodeToString bs \<Longrightarrow> as = bs"
proof (induction as bs rule: list_induct2)
  case Nil
  then show ?case by simp
next
  case (Cons a as b bs)
  have "byte_hex a @ hex_EncodeToString as = byte_hex b @ hex_EncodeToString bs"
    using Cons.prems by (simp add: hex_EncodeToString_def)
  moreover have "length (byte_hex a) = length (byte_hex b)" by (simp add: byte_hex_def)
  ultimately have "byte_hex a = byte_hex b" "hex_EncodeToString as = hex_EncodeToString bs"
    by (metis append_eq_append_conv)+
  then show ?case using Cons.IH byte_hex_inj by blast
qed

lemma idgen_New_Ret:
  "idgen_New w = (Ret i, w') \<Longrightarrow> length i = 32 \<and> set i \<subseteq> set hex_alphabet"
  by (auto simp: idgen_New_def rand_Read_def bind_go_def seq_go_def gets_def modify_def ret_def
      panic_def hex_length dest: set_mp [OF hex_chars] split: prod.splits outcome.splits if_splits)

end
