(* ===== verification/Retry.thy ===== *)
theory Retry
  imports World
begin

text \<open>
  Retry policies (\<open>retry.go\<close>). A \<open>RetryPolicy\<close> is the record of its two methods; delays are
  64-bit durations, so the doubling of \<open>ExponentialBackoff\<close> wraps as it does in Go. The
  locale \<open>retry_contract\<close> is what the engine relies on; the built-in policies are its
  interpretations.
\<close>

section \<open>Policies\<close>

text \<open>
  \<open>MaxAttempts\<close> is a constant of the policy, as its documentation has it; \<open>Delay\<close> may read
  the world (a random source, for instance).
\<close>

record ('d, 'u) retry_policy =
  MaxAttempts :: int
  Delay :: "int \<Rightarrow> (('d, 'u) world, duration) go"

definition noRetryPolicy :: "('d, 'u) retry_policy" where
  "noRetryPolicy = \<lparr>MaxAttempts = 1, Delay = (\<lambda>attempt. ret 0)\<rparr>"

definition NoRetry :: "('d, 'u) retry_policy" where
  "NoRetry = noRetryPolicy"

definition fixedDelayPolicy :: "duration \<Rightarrow> int \<Rightarrow> ('d, 'u) retry_policy" where
  "fixedDelayPolicy delay maxAttempts =
     \<lparr>MaxAttempts = maxAttempts, Delay = (\<lambda>attempt. ret delay)\<rparr>"

definition FixedDelay :: "duration \<Rightarrow> int \<Rightarrow> ('d, 'u) retry_policy" where
  "FixedDelay delay maxAttempts =
     fixedDelayPolicy delay (if maxAttempts < 1 then 1 else maxAttempts)"

text \<open>
  The loop of \<open>exponentialBackoffPolicy.Delay\<close>, with the number of iterations left, and the
  comparison after it.
\<close>

fun backoff_loop :: "duration \<Rightarrow> nat \<Rightarrow> duration \<Rightarrow> duration" where
  "backoff_loop maxDelay 0 delay = (if sint maxDelay < sint delay then maxDelay else delay)"
| "backoff_loop maxDelay (Suc n) delay =
     (if sint maxDelay \<le> sint delay then maxDelay else backoff_loop maxDelay n (delay * 2))"

definition backoff_Delay :: "duration \<Rightarrow> duration \<Rightarrow> int \<Rightarrow> duration" where
  "backoff_Delay base maxDelay attempt = backoff_loop maxDelay (nat (attempt - 2)) base"

definition exponentialBackoffPolicy :: "duration \<Rightarrow> duration \<Rightarrow> int \<Rightarrow> ('d, 'u) retry_policy" where
  "exponentialBackoffPolicy base maxDelay maxAttempts =
     \<lparr>MaxAttempts = maxAttempts, Delay = (\<lambda>attempt. ret (backoff_Delay base maxDelay attempt))\<rparr>"

definition ExponentialBackoff :: "duration \<Rightarrow> duration \<Rightarrow> int \<Rightarrow> ('d, 'u) retry_policy" where
  "ExponentialBackoff base maxDelay maxAttempts =
     exponentialBackoffPolicy base maxDelay (if maxAttempts < 1 then 1 else maxAttempts)"

section \<open>What the engine relies on\<close>

locale retry_contract =
  fixes policy :: "('d, 'u) retry_policy"
  assumes some_attempt: "1 \<le> MaxAttempts policy"
    and delay_returns: "never_panics (Delay policy n)"
begin

lemma attempts_left: "\<not> MaxAttempts policy \<le> a \<Longrightarrow> nat (MaxAttempts policy - (a + 1)) < nat (MaxAttempts policy - a)"
  using some_attempt by simp

lemma first_attempt_counts: "nat (MaxAttempts policy - 1) < nat (MaxAttempts policy)"
  using some_attempt by simp

end

lemma never_panics_ret [simp]: "never_panics (ret a)"
  by (simp add: never_panics_def ret_def)

interpretation no_retry: retry_contract NoRetry
  by unfold_locales (simp_all add: NoRetry_def noRetryPolicy_def)

interpretation fixed_delay: retry_contract "FixedDelay delay maxAttempts" for delay maxAttempts
  by unfold_locales (simp_all add: FixedDelay_def fixedDelayPolicy_def)

interpretation backoff: retry_contract "ExponentialBackoff base maxDelay maxAttempts"
  for base maxDelay maxAttempts
  by unfold_locales (simp_all add: ExponentialBackoff_def exponentialBackoffPolicy_def)

section \<open>The delays of exponential backoff\<close>

lemma sint_double:
  fixes x :: duration
  assumes "0 \<le> sint x" and "sint x < 2 ^ 62"
  shows "sint (x * 2) = 2 * sint x"
proof -
  have "sint (x * 2) = signed_take_bit 63 (sint x * sint (2 :: duration))"
    by (simp add: sint_word_ariths)
  also have "\<dots> = sint x * 2"
    using assms by (simp add: signed_take_bit_int_eq_self)
  finally show ?thesis by simp
qed

lemma backoff_loop_closed:
  assumes "sint maxDelay \<le> 2 ^ 62" and "0 \<le> sint delay"
  shows "sint (backoff_loop maxDelay n delay) = min (sint delay * 2 ^ n) (sint maxDelay)"
  using assms(2)
proof (induction n arbitrary: delay)
  case 0
  then show ?case by simp
next
  case (Suc n)
  show ?case
  proof (cases "sint maxDelay \<le> sint delay")
    case True
    have "sint delay \<le> sint delay * 2 ^ Suc n"
      using mult_left_mono [OF one_le_power [of 2 "Suc n"] Suc.prems] by simp
    then show ?thesis using True by simp
  next
    case False
    then have d: "sint (delay * 2) = 2 * sint delay"
      using assms(1) Suc.prems by (intro sint_double) simp_all
    then have "sint (backoff_loop maxDelay n (delay * 2)) = min (2 * sint delay * 2 ^ n) (sint maxDelay)"
      using Suc.IH [of "delay * 2"] Suc.prems by simp
    then show ?thesis using False by (simp add: algebra_simps)
  qed
qed

text \<open>
  C36: for a maximum of at most 2^62 nanoseconds (146 years), the delay before attempt
  \<open>2 + n\<close> is \<open>base\<close> doubled \<open>n\<close> times, capped at \<open>maxDelay\<close>: the loop never exceeds the
  cap and never overflows.
\<close>

theorem backoff_delay_closed:
  assumes "0 \<le> sint base" and "sint maxDelay \<le> 2 ^ 62"
  shows "sint (backoff_Delay base maxDelay (2 + int n)) = min (sint base * 2 ^ n) (sint maxDelay)"
  using backoff_loop_closed [OF assms(2,1)] by (simp add: backoff_Delay_def)

theorem backoff_delay_closed_witness:
  "sint (backoff_Delay (1000000000 :: duration) 30000000000 (2 + int 3)) = 8000000000
   \<and> sint (backoff_Delay (1000000000 :: duration) 30000000000 (2 + int 7)) = 30000000000"
  using backoff_delay_closed [of 1000000000 30000000000 3]
    backoff_delay_closed [of 1000000000 30000000000 7] by simp

text \<open>
  Above that bound the documented cap fails. With a base of one second and the largest
  duration as maximum ("no cap"), the delay before attempt 36 has wrapped to a negative
  number, which the engine takes as "do not wait".
\<close>

lemma backoff_delay_overflows:
  "sint (backoff_Delay 1000000000 (2 ^ 63 - 1) 35) = 8589934592000000000
   \<and> sint (backoff_Delay 1000000000 (2 ^ 63 - 1) 36) < 0"
  by code_simp

end
