(* ===== verification/Events.thy ===== *)
theory Events
  imports World
begin

text \<open>
  Lifecycle events and their publishers (\<open>events.go\<close>), and the interfaces \<open>Metrics\<close> and
  \<open>Tracer\<close> (\<open>observability.go\<close>) and the structured logger, as records of operations supplied
  by the caller.
\<close>

section \<open>Events\<close>

datatype event_type =
    EventSagaStarted | EventSagaCompleted | EventSagaFailed
  | EventStepStarted | EventStepCompleted | EventStepFailed
  | EventCompensationStarted | EventCompensationCompleted | EventCompensationFailed

fun event_type_string :: "event_type \<Rightarrow> string" where
  "event_type_string EventSagaStarted = ''SAGA_STARTED''"
| "event_type_string EventSagaCompleted = ''SAGA_COMPLETED''"
| "event_type_string EventSagaFailed = ''SAGA_FAILED''"
| "event_type_string EventStepStarted = ''STEP_STARTED''"
| "event_type_string EventStepCompleted = ''STEP_COMPLETED''"
| "event_type_string EventStepFailed = ''STEP_FAILED''"
| "event_type_string EventCompensationStarted = ''COMPENSATION_STARTED''"
| "event_type_string EventCompensationCompleted = ''COMPENSATION_COMPLETED''"
| "event_type_string EventCompensationFailed = ''COMPENSATION_FAILED''"

record event =
  ev_Type :: event_type
  ev_ExecutionID :: string
  ev_SagaName :: string
  ev_Step :: string
  ev_Error :: string
  ev_At :: go_time

fun sagaEventType :: "status \<Rightarrow> event_type option" where
  "sagaEventType StatusRunning = Some EventSagaStarted"
| "sagaEventType StatusCompleted = Some EventSagaCompleted"
| "sagaEventType StatusFailed = Some EventSagaFailed"
| "sagaEventType StatusCompensated = Some EventSagaFailed"
| "sagaEventType StatusCompensationFailed = Some EventSagaFailed"
| "sagaEventType _ = None"

fun stepEventType :: "step_status \<Rightarrow> event_type option" where
  "stepEventType StepStatusRunning = Some EventStepStarted"
| "stepEventType StepStatusSucceeded = Some EventStepCompleted"
| "stepEventType StepStatusFailed = Some EventStepFailed"
| "stepEventType StepStatusCompensating = Some EventCompensationStarted"
| "stepEventType StepStatusCompensated = Some EventCompensationCompleted"
| "stepEventType StepStatusCompensationFailed = Some EventCompensationFailed"
| "stepEventType _ = None"

section \<open>Publishers\<close>

record ('d, 'u) event_publisher =
  Publish :: "ctx \<Rightarrow> event \<Rightarrow> (('d, 'u) world, unit) go"

fun multi_Publish ::
    "('d, 'u) event_publisher list \<Rightarrow> ctx \<Rightarrow> event \<Rightarrow> (('d, 'u) world, unit) go" where
  "multi_Publish [] c ev = ret ()"
| "multi_Publish (p # ps) c ev = seq_go (Publish p c ev) (multi_Publish ps c ev)"

definition MultiPublisher :: "('d, 'u) event_publisher list \<Rightarrow> ('d, 'u) event_publisher" where
  "MultiPublisher publishers = \<lparr>Publish = multi_Publish publishers\<rparr>"

section \<open>Logger, Metrics and Tracer\<close>

datatype log_level = LevelInfo | LevelError

text \<open>The attributes of a log line are alternating keys and values, as the labels of a metric are.\<close>

record ('d, 'u) slog_logger =
  Log :: "ctx \<Rightarrow> log_level \<Rightarrow> string \<Rightarrow> string list \<Rightarrow> (('d, 'u) world, unit) go"

text \<open>
  \<open>ObserveDuration\<close> takes seconds as a \<open>float64\<close>; the model hands over the exact number of
  nanoseconds.
\<close>

record ('d, 'u) metrics_ops =
  IncCounter :: "string \<Rightarrow> string list \<Rightarrow> (('d, 'u) world, unit) go"
  ObserveDuration :: "string \<Rightarrow> int \<Rightarrow> string list \<Rightarrow> (('d, 'u) world, unit) go"

record ('d, 'u) tracer_ops =
  StartSpan :: "ctx \<Rightarrow> string \<Rightarrow> (('d, 'u) world, ctx \<times> (('d, 'u) world, unit) go) go"

text \<open>
  Every status change of a step except the initial one has its own event, different
  changes have different events, and the saga's failure event stands for exactly the terminal
  statuses other than \<open>StatusCompleted\<close>.
\<close>

lemma event_vocabulary:
  "(stepEventType st = None \<longleftrightarrow> st = StepStatusPending \<or> \<not> step_Valid st)
   \<and> (stepEventType st = stepEventType st' \<and> stepEventType st \<noteq> None \<longrightarrow> st = st')
   \<and> (sagaEventType s = Some EventSagaFailed \<longleftrightarrow> IsTerminal s \<and> s \<noteq> StatusCompleted)
   \<and> (stepEventType st \<noteq> sagaEventType s \<or> stepEventType st = None)"
  by (cases st; cases st'; cases s) simp_all

end
