(* ===== verification/Saga_Definition.thy ===== *)
theory Saga_Definition
  imports Retry Events
begin

text \<open>
  Building a saga: \<open>StepDefinition\<close> and its options (\<open>step.go\<close>), \<open>Definition\<close> with \<open>New\<close>,
  \<open>AddStep\<close>, \<open>Steps\<close> and \<open>Freeze\<close> (\<open>definition.go\<close>) and the options of \<open>New\<close>
  (\<open>options.go\<close>), with every panic as an outcome. \<open>def_inv\<close> is what a definition built this
  way always satisfies.
\<close>

section \<open>Steps\<close>

type_synonym ('d, 'u) action_func =
  "ctx \<Rightarrow> 'd any \<Rightarrow> (('d, 'u) world, 'd any \<times> gerr option) go"
type_synonym ('d, 'u) compensate_func =
  "ctx \<Rightarrow> 'd any \<Rightarrow> (('d, 'u) world, gerr option) go"

record ('d, 'u) step_definition =
  Name :: string
  Action :: "('d, 'u) action_func option"
  Compensate :: "('d, 'u) compensate_func option"
  step_retryPolicy :: "('d, 'u) retry_policy option"
  step_timeout :: duration

type_synonym ('d, 'u) step_option = "('d, 'u) step_definition \<Rightarrow> ('d, 'u) step_definition"

definition WithStepRetryPolicy ::
    "('d, 'u) retry_policy option \<Rightarrow> ('s, ('d, 'u) step_option) go" where
  "WithStepRetryPolicy policy = (case policy of
      None \<Rightarrow> panic ''saga: step retry policy must not be nil''
    | Some p \<Rightarrow> ret (\<lambda>s. s\<lparr>step_retryPolicy := Some p\<rparr>))"

definition WithStepTimeout :: "duration \<Rightarrow> ('d, 'u) step_option" where
  "WithStepTimeout timeout = (\<lambda>s. s\<lparr>step_timeout := timeout\<rparr>)"

fun apply_opts :: "('a \<Rightarrow> 'a) list \<Rightarrow> 'a \<Rightarrow> 'a" where
  "apply_opts [] x = x"
| "apply_opts (opt # opts) x = apply_opts opts (opt x)"

definition Step :: "string \<Rightarrow> ('d, 'u) action_func option \<Rightarrow> ('d, 'u) compensate_func option
    \<Rightarrow> ('d, 'u) step_option list \<Rightarrow> ('d, 'u) step_definition" where
  "Step name action compensate opts =
     apply_opts opts \<lparr>Name = name, Action = action, Compensate = compensate,
       step_retryPolicy = None, step_timeout = 0\<rparr>"

section \<open>Definitions\<close>

text \<open>\<open>strings.TrimSpace\<close> on the ASCII white space.\<close>

definition is_space :: "char \<Rightarrow> bool" where
  "is_space c \<longleftrightarrow> (of_char c :: nat) \<in> {9, 10, 11, 12, 13, 32}"

definition TrimSpace :: "string \<Rightarrow> string" where
  "TrimSpace s = rev (dropWhile is_space (rev (dropWhile is_space s)))"

record ('d, 'u) definition_ =
  d_name :: string
  d_steps :: "('d, 'u) step_definition list"
  stepSet :: "string \<rightharpoonup> bool"
  d_frozen :: bool
  d_store :: "('d, 'u) store_ops"
  d_retryPolicy :: "('d, 'u) retry_policy"
  d_timeout :: duration
  d_lockTTL :: duration
  d_publisher :: "('d, 'u) event_publisher option"
  d_logger :: "('d, 'u) slog_logger option"
  d_metrics :: "('d, 'u) metrics_ops option"
  d_tracer :: "('d, 'u) tracer_ops option"

definition DefaultLockTTL :: duration where
  "DefaultLockTTL = 30 * Second"

type_synonym ('d, 'u) saga_option = "('d, 'u) definition_ \<Rightarrow> ('d, 'u) definition_"

definition New :: "string \<Rightarrow> ('d, 'u) saga_option list \<Rightarrow> ('s, ('d, 'u) definition_) go" where
  "New name opts =
     (if TrimSpace name = [] then panic ''saga: saga name must not be empty''
      else ret (apply_opts opts
        \<lparr>d_name = name, d_steps = [], stepSet = Map.empty, d_frozen = False, d_store = noopStore,
         d_retryPolicy = NoRetry, d_timeout = 0, d_lockTTL = DefaultLockTTL, d_publisher = None,
         d_logger = None, d_metrics = None, d_tracer = None\<rparr>))"

text \<open>The methods of \<open>*Definition\<close>: the state is the definition the pointer refers to.\<close>

definition def_Name :: "(('d, 'u) definition_, string) go" where
  "def_Name = gets d_name"

definition AddStep :: "('d, 'u) step_definition \<Rightarrow> (('d, 'u) definition_, unit) go" where
  "AddStep step = bind_go (gets id) (\<lambda>d.
     if d_frozen d then panic (''saga: cannot add step '' @ quoted (Name step)
       @ '' to frozen saga '' @ quoted (d_name d))
     else if TrimSpace (Name step) = [] then
       panic (''saga: step name must not be empty (saga '' @ quoted (d_name d) @ '')'')
     else if flag_at (stepSet d) (Name step) then
       panic (''saga: duplicate step name '' @ quoted (Name step) @ '' in saga '' @ quoted (d_name d))
     else if Action step = None then
       panic (''saga: step '' @ quoted (Name step) @ '' must have a non-nil action (saga ''
         @ quoted (d_name d) @ '')'')
     else modify (\<lambda>d. d\<lparr>stepSet := (stepSet d)(Name step \<mapsto> True), d_steps := d_steps d @ [step]\<rparr>))"

definition def_Steps :: "(('d, 'u) definition_, ('d, 'u) step_definition list) go" where
  "def_Steps = gets d_steps"

definition Freeze :: "(('d, 'u) definition_, unit) go" where
  "Freeze = modify (\<lambda>d. d\<lparr>d_frozen := True\<rparr>)"

definition Frozen :: "(('d, 'u) definition_, bool) go" where
  "Frozen = gets d_frozen"

section \<open>Options\<close>

definition WithStore :: "('d, 'u) store_ops option \<Rightarrow> ('s, ('d, 'u) saga_option) go" where
  "WithStore store = (case store of
      None \<Rightarrow> panic ''saga: store must not be nil''
    | Some x \<Rightarrow> ret (\<lambda>d. d\<lparr>d_store := x\<rparr>))"

definition WithRetryPolicy :: "('d, 'u) retry_policy option \<Rightarrow> ('s, ('d, 'u) saga_option) go" where
  "WithRetryPolicy policy = (case policy of
      None \<Rightarrow> panic ''saga: retry policy must not be nil''
    | Some x \<Rightarrow> ret (\<lambda>d. d\<lparr>d_retryPolicy := x\<rparr>))"

definition WithTimeout :: "duration \<Rightarrow> ('d, 'u) saga_option" where
  "WithTimeout timeout = (\<lambda>d. d\<lparr>d_timeout := timeout\<rparr>)"

definition WithLockTTL :: "duration \<Rightarrow> ('d, 'u) saga_option" where
  "WithLockTTL ttl = (\<lambda>d. d\<lparr>d_lockTTL := ttl\<rparr>)"

definition WithEventPublisher :: "('d, 'u) event_publisher option \<Rightarrow> ('s, ('d, 'u) saga_option) go" where
  "WithEventPublisher publisher = (case publisher of
      None \<Rightarrow> panic ''saga: event publisher must not be nil''
    | Some x \<Rightarrow> ret (\<lambda>d. d\<lparr>d_publisher := Some x\<rparr>))"

definition WithLogger :: "('d, 'u) slog_logger option \<Rightarrow> ('s, ('d, 'u) saga_option) go" where
  "WithLogger logger = (case logger of
      None \<Rightarrow> panic ''saga: logger must not be nil''
    | Some x \<Rightarrow> ret (\<lambda>d. d\<lparr>d_logger := Some x\<rparr>))"

definition WithMetrics :: "('d, 'u) metrics_ops option \<Rightarrow> ('s, ('d, 'u) saga_option) go" where
  "WithMetrics metrics = (case metrics of
      None \<Rightarrow> panic ''saga: metrics must not be nil''
    | Some x \<Rightarrow> ret (\<lambda>d. d\<lparr>d_metrics := Some x\<rparr>))"

definition WithTracer :: "('d, 'u) tracer_ops option \<Rightarrow> ('s, ('d, 'u) saga_option) go" where
  "WithTracer tracer = (case tracer of
      None \<Rightarrow> panic ''saga: tracer must not be nil''
    | Some x \<Rightarrow> ret (\<lambda>d. d\<lparr>d_tracer := Some x\<rparr>))"

section \<open>What AddStep guarantees\<close>

definition def_inv :: "('d, 'u) definition_ \<Rightarrow> bool" where
  "def_inv d \<longleftrightarrow> distinct (map Name (d_steps d))
     \<and> (\<forall>n. flag_at (stepSet d) n \<longleftrightarrow> n \<in> set (map Name (d_steps d)))
     \<and> list_all (\<lambda>s. TrimSpace (Name s) \<noteq> [] \<and> Action s \<noteq> None) (d_steps d)"

fun add_all :: "('d, 'u) step_definition list \<Rightarrow> (('d, 'u) definition_, unit) go" where
  "add_all [] = ret ()"
| "add_all (s # ss) = seq_go (AddStep s) (add_all ss)"

lemma AddStep_wp:
  assumes "def_inv d"
  shows "wp (AddStep step) (\<lambda>_ d'. def_inv d' \<and> d_steps d' = d_steps d @ [step]
      \<and> \<not> d_frozen d \<and> Name step \<notin> set (map Name (d_steps d)) \<and> Action step \<noteq> None
      \<and> TrimSpace (Name step) \<noteq> [])
    (\<lambda>d'. d' = d \<and> (d_frozen d \<or> Name step \<in> set (map Name (d_steps d)) \<or> Action step = None
      \<or> TrimSpace (Name step) = [])) d"
  using assms
  by (auto simp: AddStep_def wp_simps def_inv_def flag_at_def split: option.splits)

lemma New_Ret:
  assumes "New name [] s = (Ret d, s')"
  shows "def_inv d \<and> d_steps d = [] \<and> d_name d = name \<and> \<not> d_frozen d"
  using assms by (auto simp: New_def ret_def panic_def def_inv_def flag_at_def split: if_splits)

text \<open>
  C34: adding a list of steps to an unfrozen definition either adds exactly these steps, in
  order, and leaves a definition whose step names are distinct and non-blank and whose actions
  are not nil; or it panics, and then one of the steps was blank, repeated or without an action.
\<close>

theorem add_all_correct:
  assumes "def_inv d" and "\<not> d_frozen d"
  shows "case add_all ss d of
      (Ret _, d') \<Rightarrow> def_inv d' \<and> d_steps d' = d_steps d @ ss
    | (Panic _, d') \<Rightarrow> \<not> distinct (map Name (d_steps d @ ss))
        \<or> (\<exists>s \<in> set ss. Action s = None \<or> TrimSpace (Name s) = [])"
  using assms
proof (induction ss arbitrary: d)
  case Nil
  then show ?case by (simp add: ret_def)
next
  case (Cons x ss)
  have step: "wp (AddStep x) (\<lambda>_ d'. def_inv d' \<and> d_steps d' = d_steps d @ [x] \<and> \<not> d_frozen d')
    (\<lambda>d'. Name x \<in> set (map Name (d_steps d)) \<or> Action x = None \<or> TrimSpace (Name x) = []) d"
    using Cons.prems
    by (auto simp: AddStep_def wp_simps def_inv_def flag_at_def split: option.splits)
  show ?case
  proof (cases "AddStep x d")
    case (Pair r d1)
    show ?thesis
    proof (cases r)
      case (Ret u)
      then have "def_inv d1" "d_steps d1 = d_steps d @ [x]" "\<not> d_frozen d1"
        using wp_RetD [OF step] Pair by auto
      then show ?thesis using Cons.IH [of d1] Ret Pair
        by (auto simp: seq_go_def bind_go_def split: prod.splits outcome.splits)
    next
      case (Panic p)
      then show ?thesis using wp_PanicD [OF step] Pair
        by (auto simp: seq_go_def bind_go_def)
    qed
  qed
qed

theorem add_all_correct_witness:
  "case add_all [Step ''a'' (Some (\<lambda>c x. ret (x, None))) None [],
                 Step ''b'' (Some (\<lambda>c x. ret (x, None))) None []]
      (the (case fst (New ''s'' [] ()) of Ret d \<Rightarrow> Some d | Panic _ \<Rightarrow> None)) of
      (Ret _, d') \<Rightarrow> def_inv (d' :: (unit, unit) definition_) \<and> map Name (d_steps d') = [''a'', ''b'']
    | (Panic _, d') \<Rightarrow> False"
proof -
  let ?ss = "[Step ''a'' (Some (\<lambda>c x. ret (x, None))) None [],
    Step ''b'' (Some (\<lambda>c x. ret (x, None))) None []] :: (unit, unit) step_definition list"
  obtain d :: "(unit, unit) definition_" where d: "New ''s'' [] () = (Ret d, ())"
    by (simp add: New_def TrimSpace_def is_space_def ret_def)
  have inv: "def_inv d" "d_steps d = []" "\<not> d_frozen d" using New_Ret [OF d] by auto
  have ok: "distinct (map Name (d_steps d @ ?ss))"
    "\<forall>s \<in> set ?ss. Action s \<noteq> None \<and> TrimSpace (Name s) \<noteq> []"
    by (simp_all add: inv Step_def TrimSpace_def is_space_def)
  show ?thesis
    using add_all_correct [OF inv(1,3), of ?ss] ok inv(2)
    by (auto simp: d Step_def split: prod.splits outcome.splits)
qed

end
