(* ===== verification/Engine.thy ===== *)
theory Engine
  imports Saga_Definition
begin

text \<open>
  The engine (\<open>execute.go\<close>), function by function in the order of the source. A computation
  of the engine has as its state the execution the pointer \<open>exec\<close> refers to, the world, and a
  trace: the calls it has made so far to code outside the engine. The trace is not in the
  source; no definition reads it, and the properties are stated about it.
\<close>

section \<open>State\<close>

datatype 'd obs =
    ObsAction string string "'d any"
  | ObsActionReturned string "'d any" "gerr option"
  | ObsCompensate string string "'d any"
  | ObsCompensateReturned string "gerr option"
  | ObsSave "'d execution"
  | ObsSaved "gerr option"
  | ObsAcquire string string
  | ObsAcquired bool
  | ObsRelease string string
  | ObsPublish event
  | ObsLog log_level string "string list"
  | ObsCounter string "string list"
  | ObsDuration string int "string list"
  | ObsSpanStart string
  | ObsSpanEnd string
  | ObsSleep duration

record ('d, 'u) machine =
  exec :: "'d execution"
  trace :: "'d obs list"
  world :: "('d, 'u) world"

type_synonym ('d, 'u, 'a) engine = "(('d, 'u) machine, 'a) go"

definition in_world :: "(('d, 'u) world, 'a) go \<Rightarrow> ('d, 'u, 'a) engine" where
  "in_world = zoom world (\<lambda>w s. s\<lparr>world := w\<rparr>)"

definition emit :: "'d obs \<Rightarrow> ('d, 'u, unit) engine" where
  "emit x = modify (\<lambda>s. s\<lparr>trace := trace s @ [x]\<rparr>)"

definition upd_exec :: "('d execution \<Rightarrow> 'd execution) \<Rightarrow> ('d, 'u, unit) engine" where
  "upd_exec f = modify (\<lambda>s. s\<lparr>exec := f (exec s)\<rparr>)"

text \<open>
  \<open>step_at i\<close> is the expression \<open>exec.Steps[i]\<close>, with its bounds check; \<open>upd_step i f\<close> writes
  through the pointer \<open>&exec.Steps[i]\<close> once it has been taken.
\<close>

definition index_panic :: string where
  "index_panic = ''runtime error: index out of range''"

definition nil_panic :: string where
  "nil_panic = ''runtime error: invalid memory address or nil pointer dereference''"

definition step_at :: "nat \<Rightarrow> ('d, 'u, 'd step_execution) engine" where
  "step_at i = bind_go (gets exec) (\<lambda>e.
     if i < length (Steps e) then ret (Steps e ! i) else panic index_panic)"

definition upd_step ::
    "nat \<Rightarrow> ('d step_execution \<Rightarrow> 'd step_execution) \<Rightarrow> ('d, 'u, unit) engine" where
  "upd_step i f = upd_exec (\<lambda>e. e\<lparr>Steps := (Steps e)[i := f (Steps e ! i)]\<rparr>)"

definition set_CurrentStep :: "string \<Rightarrow> ('d, 'u, unit) engine" where
  "set_CurrentStep n = upd_exec (\<lambda>e. e\<lparr>CurrentStep := n\<rparr>)"

text \<open>\<open>runState\<close>: the definition being driven, and the lease this call holds.\<close>

record ('d, 'u) run_state =
  rs_def :: "('d, 'u) definition_"
  locker :: "('d, 'u) locker_ops option"
  lockOwner :: string

section \<open>Observers\<close>

definition publish :: "('d, 'u) run_state \<Rightarrow> ctx \<Rightarrow> event \<Rightarrow> ('d, 'u, unit) engine" where
  "publish rs c ev = (case d_publisher (rs_def rs) of
      None \<Rightarrow> ret ()
    | Some p \<Rightarrow> seq_go (emit (ObsPublish ev)) (recovered (in_world (Publish p c ev))))"

definition event_level :: "event_type \<Rightarrow> log_level" where
  "event_level ty = (if ty \<in> {EventSagaFailed, EventStepFailed, EventCompensationFailed}
     then LevelError else LevelInfo)"

definition logEvent :: "('d, 'u) run_state \<Rightarrow> ctx \<Rightarrow> event \<Rightarrow> ('d, 'u, unit) engine" where
  "logEvent rs c ev = (case d_logger (rs_def rs) of
      None \<Rightarrow> ret ()
    | Some l \<Rightarrow>
        let attrs = [''execution_id'', ev_ExecutionID ev, ''saga'', ev_SagaName ev]
              @ (if ev_Step ev \<noteq> [] then [''step'', ev_Step ev] else [])
              @ (if ev_Error ev \<noteq> [] then [''error'', ev_Error ev] else []);
            level = event_level (ev_Type ev); msg = event_type_string (ev_Type ev)
        in seq_go (emit (ObsLog level msg attrs)) (in_world (Log l c level msg attrs)))"

definition incEventCounter :: "('d, 'u) run_state \<Rightarrow> event \<Rightarrow> ('d, 'u, unit) engine" where
  "incEventCounter rs ev = (case d_metrics (rs_def rs) of
      None \<Rightarrow> ret ()
    | Some m \<Rightarrow>
        let labels = [''saga'', ev_SagaName ev, ''event'', event_type_string (ev_Type ev)]
              @ (if ev_Step ev \<noteq> [] then [''step'', ev_Step ev] else [])
        in seq_go (emit (ObsCounter ''saga_events_total'' labels))
             (in_world (IncCounter m ''saga_events_total'' labels)))"

definition observeDuration ::
    "('d, 'u) run_state \<Rightarrow> string \<Rightarrow> int \<Rightarrow> string list \<Rightarrow> ('d, 'u, unit) engine" where
  "observeDuration rs name d labels = (case d_metrics (rs_def rs) of
      None \<Rightarrow> ret ()
    | Some m \<Rightarrow> seq_go (emit (ObsDuration name d labels)) (in_world (ObserveDuration m name d labels)))"

definition publishAndLog :: "('d, 'u) run_state \<Rightarrow> ctx \<Rightarrow> event \<Rightarrow> ('d, 'u, unit) engine" where
  "publishAndLog rs c ev =
     seq_go (publish rs c ev) (seq_go (logEvent rs c ev) (incEventCounter rs ev))"

definition notifyExec :: "('d, 'u) run_state \<Rightarrow> ctx \<Rightarrow> status \<Rightarrow> ('d, 'u, unit) engine" where
  "notifyExec rs c to' = (case sagaEventType to' of
      None \<Rightarrow> ret ()
    | Some evtType \<Rightarrow> bind_go (gets exec) (\<lambda>e. bind_go (in_world time_Now) (\<lambda>at.
        let ev = \<lparr>ev_Type = evtType, ev_ExecutionID = ID e, ev_SagaName = SagaName e,
                  ev_Step = [], ev_Error = Error e, ev_At = at\<rparr>
        in seq_go (publish rs c ev) (seq_go (logEvent rs c ev) (seq_go (incEventCounter rs ev)
             (case (IsTerminal to', StartedAt e) of
                (True, Some started) \<Rightarrow> bind_go (in_world time_Now) (\<lambda>now.
                  observeDuration rs ''saga_duration_seconds'' (now - started)
                    [''saga'', SagaName e, ''status'', status_string to'])
              | _ \<Rightarrow> ret ()))))))"

definition notifyStep ::
    "('d, 'u) run_state \<Rightarrow> ctx \<Rightarrow> nat \<Rightarrow> step_status \<Rightarrow> ('d, 'u, unit) engine" where
  "notifyStep rs c i to' = (case stepEventType to' of
      None \<Rightarrow> ret ()
    | Some evtType \<Rightarrow> bind_go (gets exec) (\<lambda>e. bind_go (in_world time_Now) (\<lambda>at.
        publishAndLog rs c
          \<lparr>ev_Type = evtType, ev_ExecutionID = ID e, ev_SagaName = SagaName e,
           ev_Step = sName (Steps e ! i), ev_Error = sError (Steps e ! i), ev_At = at\<rparr>)))"

definition startSpan ::
    "('d, 'u) run_state \<Rightarrow> ctx \<Rightarrow> string \<Rightarrow> ('d, 'u, ctx \<times> ('d, 'u, unit) engine) engine" where
  "startSpan rs c name = (case d_tracer (rs_def rs) of
      None \<Rightarrow> ret (c, ret ())
    | Some t \<Rightarrow> seq_go (emit (ObsSpanStart name))
        (bind_go (in_world (StartSpan t c name)) (\<lambda>(c', fin).
           ret (c', seq_go (emit (ObsSpanEnd name)) (in_world fin)))))"

section \<open>Persisting a change\<close>

definition do_Acquire ::
    "('d, 'u) locker_ops \<Rightarrow> ctx \<Rightarrow> string \<Rightarrow> string \<Rightarrow> duration \<Rightarrow> ('d, 'u, bool \<times> gerr option) engine"
  where
  "do_Acquire l c i own ttl = seq_go (emit (ObsAcquire i own))
     (bind_go (in_world (Acquire l c i own ttl)) (\<lambda>(acquired, err).
        seq_go (emit (ObsAcquired (acquired \<and> err = None))) (ret (acquired, err))))"

definition store_Save ::
    "('d, 'u) definition_ \<Rightarrow> ctx \<Rightarrow> ('d, 'u, gerr option) engine" where
  "store_Save d c = bind_go (gets exec) (\<lambda>e. seq_go (emit (ObsSave e))
     (bind_go (in_world (Save (d_store d) c e)) (\<lambda>err. seq_go (emit (ObsSaved err))
        (ret (map_option (persist_error (ID e)) err)))))"

definition save :: "('d, 'u) run_state \<Rightarrow> ctx \<Rightarrow> ('d, 'u, gerr option) engine" where
  "save rs c = (case locker rs of
      None \<Rightarrow> store_Save (rs_def rs) c
    | Some l \<Rightarrow> bind_go (gets (\<lambda>s. ID (exec s))) (\<lambda>i.
        bind_go (do_Acquire l c i (lockOwner rs) (d_lockTTL (rs_def rs))) (\<lambda>(acquired, err).
          case err of
            Some x \<Rightarrow> ret (Some (renew_error i x))
          | None \<Rightarrow> if \<not> acquired then ret (Some (ExecutionLockedError i))
              else store_Save (rs_def rs) c)))"

definition transitionExec ::
    "('d, 'u) run_state \<Rightarrow> ctx \<Rightarrow> status \<Rightarrow> ('d, 'u, gerr option) engine" where
  "transitionExec rs c to' = bind_go (in_world time_Now) (\<lambda>now. bind_go (gets exec) (\<lambda>e.
     case exec_transition e to' now of
       Inl err \<Rightarrow> panic (Error_msg err)
     | Inr e' \<Rightarrow> seq_go (upd_exec (\<lambda>_. e')) (bind_go (save rs c) (\<lambda>err. case err of
           Some x \<Rightarrow> ret (Some x)
         | None \<Rightarrow> seq_go (notifyExec rs c to') (ret None)))))"

definition transitionStep ::
    "('d, 'u) run_state \<Rightarrow> ctx \<Rightarrow> nat \<Rightarrow> step_status \<Rightarrow> ('d, 'u, gerr option) engine" where
  "transitionStep rs c i to' = bind_go (in_world time_Now) (\<lambda>now. bind_go (step_at i) (\<lambda>s.
     case step_transition s to' now of
       Inl err \<Rightarrow> panic (Error_msg err)
     | Inr s' \<Rightarrow> seq_go (upd_step i (\<lambda>_. s')) (bind_go (save rs c) (\<lambda>err. case err of
           Some x \<Rightarrow> ret (Some x)
         | None \<Rightarrow> seq_go (notifyStep rs c i to') (ret None)))))"

section \<open>One step\<close>

text \<open>
  \<open>errors.Is(err, target)\<close> with an \<open>err\<close> that may be nil.
\<close>

fun errors_Is_opt :: "gerr option \<Rightarrow> gerr \<Rightarrow> bool" where
  "errors_Is_opt None target = False"
| "errors_Is_opt (Some err) target = errors_Is err target"

definition run_action ::
    "('d, 'u) step_definition \<Rightarrow> ctx \<Rightarrow> 'd any \<Rightarrow> ('d, 'u, 'd any \<times> gerr option) engine" where
  "run_action step c data = (case Action step of
      None \<Rightarrow> panic nil_panic
    | Some f \<Rightarrow> seq_go (emit (ObsAction (Name step) (OperationID c) data))
        (bind_go (in_world (f c data)) (\<lambda>(out, err).
          seq_go (emit (ObsActionReturned (Name step) out err)) (ret (out, err)))))"

definition retryPolicyFor ::
    "('d, 'u) run_state \<Rightarrow> ('d, 'u) step_definition \<Rightarrow> ('d, 'u) retry_policy" where
  "retryPolicyFor rs step = (case step_retryPolicy step of
      Some p \<Rightarrow> p | None \<Rightarrow> d_retryPolicy (rs_def rs))"

definition callAction ::
    "('d, 'u) run_state \<Rightarrow> ctx \<Rightarrow> string \<Rightarrow> ('d, 'u) step_definition \<Rightarrow> duration \<Rightarrow> 'd any
     \<Rightarrow> ('d, 'u, 'd any \<times> gerr option) engine" where
  "callAction rs c opID step timeout data =
     bind_go (startSpan rs (withOperationID c opID) (''step:'' @ Name step)) (\<lambda>(c', endSpan).
       deferred endSpan
         (if sint timeout \<le> 0 then run_action step c' data
          else bind_go (in_world new_ref) (\<lambda>r. let stepTimeoutErr = StepTimeoutError r (Name step) timeout in
            bind_go (in_world (context_WithTimeoutCause c' timeout stepTimeoutErr)) (\<lambda>actionCtx.
            bind_go (run_action step actionCtx data) (\<lambda>(out, err).
            bind_go (in_world (context_Cause actionCtx)) (\<lambda>cause.
              if errors_Is_opt cause stepTimeoutErr then ret (None, Some stepTimeoutErr)
              else ret (out, err)))))))"

definition sleepOrDone :: "ctx \<Rightarrow> duration \<Rightarrow> ('d, 'u, gerr option) engine" where
  "sleepOrDone c delay =
     (if sint delay \<le> 0 then bind_go (in_world (ctx_Done c)) (\<lambda>done.
        if done then in_world (context_Cause c) else ret None)
      else seq_go (emit (ObsSleep delay)) (bind_go (in_world (timer_or_done c delay)) (\<lambda>fin.
        case fin of None \<Rightarrow> ret None | Some e \<Rightarrow> in_world (context_Cause c))))"

text \<open>
  The test \<open>sagaTimeoutErr != nil && errors.Is(context.Cause(ctx), sagaTimeoutErr)\<close>, and
  whether the saga's own deadline has passed.
\<close>

definition saga_expired :: "ctx \<Rightarrow> gerr option \<Rightarrow> ('d, 'u, bool) engine" where
  "saga_expired c sagaTimeoutErr = (case sagaTimeoutErr of
      None \<Rightarrow> ret False
    | Some e \<Rightarrow> bind_go (in_world (context_Cause c)) (\<lambda>cause. ret (errors_Is_opt cause e)))"

text \<open>
  The loop of \<open>runStep\<close> from attempt number \<open>attempt\<close> on. It ends because an attempt that
  leads to another one has a number below \<open>MaxAttempts\<close>.
\<close>

function run_attempts ::
    "('d, 'u) run_state \<Rightarrow> ctx \<Rightarrow> gerr option \<Rightarrow> string \<Rightarrow> nat \<Rightarrow> ('d, 'u) step_definition \<Rightarrow> 'd any
     \<Rightarrow> int \<Rightarrow> ('d, 'u, 'd any \<times> gerr option) engine" where
  "run_attempts rs c sagaTimeoutErr opID i step data attempt =
     bind_go (in_world (ctx_Done c)) (\<lambda>done.
     if done then bind_go (in_world (context_Cause c)) (\<lambda>cause. ret (None, cause))
     else seq_go (upd_step i (\<lambda>s. s\<lparr>sAttempts := sAttempts s + 1\<rparr>))
       (bind_go (callAction rs c opID step (step_timeout step) data) (\<lambda>(out, err).
        bind_go (saga_expired c sagaTimeoutErr) (\<lambda>expired.
        if expired then ret (None, sagaTimeoutErr)
        else (case err of
            None \<Rightarrow> ret (out, None)
          | Some x \<Rightarrow> bind_go (in_world (ctx_Done c)) (\<lambda>done.
              if done then bind_go (in_world (context_Cause c)) (\<lambda>cause. ret (None, cause))
              else if isNonRetryable x \<or> MaxAttempts (retryPolicyFor rs step) \<le> attempt
              then ret (None, Some (StepError (Name step) (Some x)))
              else bind_go (in_world (Delay (retryPolicyFor rs step) (attempt + 1))) (\<lambda>delay.
                bind_go (sleepOrDone c delay) (\<lambda>waitErr. case waitErr of
                    Some e \<Rightarrow> ret (None, Some e)
                  | None \<Rightarrow> run_attempts rs c sagaTimeoutErr opID i step data (attempt + 1)))))))))"
  by pat_completeness auto
termination
  by (relation "measure (\<lambda>(rs, c, st, opID, i, step, data, attempt).
        nat (MaxAttempts (retryPolicyFor rs step) - attempt))") auto

declare run_attempts.simps [simp del]

definition runStep ::
    "('d, 'u) run_state \<Rightarrow> ctx \<Rightarrow> gerr option \<Rightarrow> string \<Rightarrow> nat \<Rightarrow> ('d, 'u) step_definition \<Rightarrow> 'd any
     \<Rightarrow> ('d, 'u, 'd any \<times> gerr option) engine" where
  "runStep rs c sagaTimeoutErr executionID i step data =
     run_attempts rs c sagaTimeoutErr (operationID executionID (Name step)) i step data 1"

section \<open>Compensation\<close>

fun anySucceeded :: "'d step_execution list \<Rightarrow> bool" where
  "anySucceeded [] = False"
| "anySucceeded (s # ss) = (if sStatus s = StepStatusSucceeded then True else anySucceeded ss)"

definition invokeCompensate ::
    "('d, 'u) run_state \<Rightarrow> ctx \<Rightarrow> nat \<Rightarrow> ('d, 'u) compensate_func \<Rightarrow> ('d, 'u, gerr option) engine"
  where
  "invokeCompensate rs c i compensateFn = bind_go (gets exec) (\<lambda>e. let s = Steps e ! i in
     bind_go (startSpan rs (withOperationID c (compensationOperationID (ID e) (sName s)))
         (''step:'' @ sName s @ '':compensate'')) (\<lambda>(c', endSpan).
       deferred endSpan (seq_go (emit (ObsCompensate (sName s) (OperationID c') (sOutput s)))
         (bind_go (in_world (compensateFn c' (sOutput s))) (\<lambda>err.
            seq_go (emit (ObsCompensateReturned (sName s) err)) (ret err))))))"

text \<open>
  The loop of \<open>compensate\<close>, from index \<open>i - 1\<close> down to 0: an error only if persisting failed.
\<close>

fun comp_loop :: "('d, 'u) run_state \<Rightarrow> ctx \<Rightarrow> nat \<Rightarrow> ('d, 'u, gerr option) engine" where
  "comp_loop rs c 0 = ret None"
| "comp_loop rs c (Suc i) = bind_go (step_at i) (\<lambda>s.
     if sStatus s \<noteq> StepStatusSucceeded \<and> sStatus s \<noteq> StepStatusCompensating then comp_loop rs c i
     else if length (d_steps (rs_def rs)) \<le> i then panic index_panic
     else (case Compensate (d_steps (rs_def rs) ! i) of
         None \<Rightarrow> comp_loop rs c i
       | Some compensateFn \<Rightarrow> seq_go (set_CurrentStep (sName s))
           (bind_go (if sStatus s = StepStatusSucceeded
                     then transitionStep rs c i StepStatusCompensating else ret None) (\<lambda>err.
            case err of Some x \<Rightarrow> ret (Some x)
            | None \<Rightarrow> bind_go (invokeCompensate rs c i compensateFn) (\<lambda>cErr. case cErr of
                Some x \<Rightarrow> seq_go (upd_step i (\<lambda>s. s\<lparr>sError := Error_msg x\<rparr>))
                  (bind_go (transitionStep rs c i StepStatusCompensationFailed) (\<lambda>err.
                   case err of Some y \<Rightarrow> ret (Some y) | None \<Rightarrow> comp_loop rs c i))
              | None \<Rightarrow> bind_go (transitionStep rs c i StepStatusCompensated) (\<lambda>err.
                   case err of Some y \<Rightarrow> ret (Some y) | None \<Rightarrow> comp_loop rs c i))))))"

text \<open>The second loop of \<open>compensate\<close>: whether no step before \<open>failedAt\<close> is left failed.\<close>

fun all_compensated :: "nat \<Rightarrow> nat \<Rightarrow> ('d, 'u, bool) engine" where
  "all_compensated i 0 = ret True"
| "all_compensated i (Suc n) = bind_go (step_at i) (\<lambda>s.
     if sStatus s = StepStatusCompensationFailed then ret False else all_compensated (Suc i) n)"

definition compensate ::
    "('d, 'u) run_state \<Rightarrow> ctx \<Rightarrow> nat \<Rightarrow> ('d, 'u, bool \<times> gerr option) engine" where
  "compensate rs c failedAt = bind_go (comp_loop rs c failedAt) (\<lambda>err. case err of
      Some x \<Rightarrow> ret (False, Some x)
    | None \<Rightarrow> bind_go (all_compensated 0 failedAt) (\<lambda>ok. ret (ok, None)))"

definition finishCompensating ::
    "('d, 'u) run_state \<Rightarrow> ctx \<Rightarrow> nat \<Rightarrow> gerr \<Rightarrow> ('d, 'u, gerr option) engine" where
  "finishCompensating rs c failedAt originalErr =
     bind_go (compensate rs (WithoutCancel c) failedAt) (\<lambda>(ok, err).
     seq_go (set_CurrentStep [])
       (case err of Some x \<Rightarrow> ret (Some x)
        | None \<Rightarrow>
            if \<not> ok then bind_go (transitionExec rs c StatusCompensationFailed) (\<lambda>err. case err of
                Some x \<Rightarrow> ret (Some x) | None \<Rightarrow> ret (Some (compensation_error originalErr)))
            else bind_go (transitionExec rs c StatusCompensated) (\<lambda>err. case err of
                Some x \<Rightarrow> ret (Some x) | None \<Rightarrow> ret (Some originalErr))))"

text \<open>\<open>originalErr.Error()\<close> on a nil error is a nil dereference.\<close>

definition abort ::
    "('d, 'u) run_state \<Rightarrow> ctx \<Rightarrow> nat \<Rightarrow> gerr option \<Rightarrow> ('d, 'u, gerr option) engine" where
  "abort rs c failedAt originalErr = (case originalErr of
      None \<Rightarrow> panic nil_panic
    | Some oe \<Rightarrow> seq_go (upd_exec (\<lambda>e. e\<lparr>Error := Error_msg oe\<rparr>)) (bind_go (gets exec) (\<lambda>e.
        if \<not> anySucceeded (take failedAt (Steps e)) then
          bind_go (transitionExec rs c StatusFailed) (\<lambda>err. case err of
              Some x \<Rightarrow> ret (Some x) | None \<Rightarrow> ret (Some oe))
        else bind_go (transitionExec rs c StatusCompensating) (\<lambda>err. case err of
              Some x \<Rightarrow> ret (Some x) | None \<Rightarrow> finishCompensating rs c failedAt oe))))"

text \<open>
  The loop at the start of \<open>resumeCompensating\<close>: one past the last step that ever succeeded,
  counting from index \<open>i\<close>.
\<close>

fun compensation_boundary :: "nat \<Rightarrow> nat \<Rightarrow> 'd step_execution list \<Rightarrow> nat" where
  "compensation_boundary i failedAt [] = failedAt"
| "compensation_boundary i failedAt (s # ss) = compensation_boundary (Suc i)
     (if sStatus s \<in> {StepStatusSucceeded, StepStatusCompensating, StepStatusCompensated,
        StepStatusCompensationFailed} then Suc i else failedAt) ss"

definition errors_New :: "string \<Rightarrow> ('d, 'u, gerr) engine" where
  "errors_New msg = bind_go (in_world new_ref) (\<lambda>r. ret (ErrorString r msg))"

definition resumeCompensating :: "('d, 'u) run_state \<Rightarrow> ctx \<Rightarrow> ('d, 'u, gerr option) engine" where
  "resumeCompensating rs c = bind_go (gets exec) (\<lambda>e. bind_go (errors_New (Error e)) (\<lambda>oe.
     finishCompensating rs c (compensation_boundary 0 0 (Steps e)) oe))"

section \<open>Forward execution\<close>

fun find_failed :: "nat \<Rightarrow> 'd step_execution list \<Rightarrow> (nat \<times> 'd step_execution) option" where
  "find_failed i [] = None"
| "find_failed i (s # ss) =
     (if sStatus s = StepStatusFailed then Some (i, s) else find_failed (Suc i) ss)"

text \<open>
  The second loop of \<open>resumeRunning\<close>: how many leading steps have succeeded and the output of
  the last of them.
\<close>

fun skip_succeeded :: "nat \<Rightarrow> 'd any \<Rightarrow> 'd step_execution list \<Rightarrow> nat \<times> 'd any" where
  "skip_succeeded startAt data [] = (startAt, data)"
| "skip_succeeded startAt data (s # ss) =
     (if sStatus s \<noteq> StepStatusSucceeded then (startAt, data)
      else skip_succeeded (Suc startAt) (sOutput s) ss)"

text \<open>The third loop, over the steps still to run, and the completion after it.\<close>

fun forward ::
    "('d, 'u) run_state \<Rightarrow> ctx \<Rightarrow> gerr option \<Rightarrow> ('d, 'u) step_definition list \<Rightarrow> nat \<Rightarrow> 'd any
     \<Rightarrow> ('d, 'u, gerr option) engine" where
  "forward rs c sagaTimeoutErr [] i data =
     seq_go (upd_exec (\<lambda>e. e\<lparr>CurrentStep := [], Output := data\<rparr>))
       (transitionExec rs c StatusCompleted)"
| "forward rs c sagaTimeoutErr (step # rest) i data =
     bind_go (in_world (ctx_Done c)) (\<lambda>done.
     if done then seq_go (set_CurrentStep [])
       (bind_go (in_world (context_Cause c)) (\<lambda>cause. abort rs c i cause))
     else seq_go (set_CurrentStep (Name step)) (bind_go (step_at i) (\<lambda>s.
       bind_go (if sStatus s = StepStatusPending
                then transitionStep rs c i StepStatusRunning else ret None) (\<lambda>err.
       case err of Some x \<Rightarrow> ret (Some x)
       | None \<Rightarrow> bind_go (gets (\<lambda>m. ID (exec m))) (\<lambda>executionID.
         bind_go (runStep rs c sagaTimeoutErr executionID i step data) (\<lambda>(out, stepErr).
         case stepErr of
           Some x \<Rightarrow> seq_go (upd_step i (\<lambda>s. s\<lparr>sError := Error_msg x\<rparr>))
             (bind_go (transitionStep rs c i StepStatusFailed) (\<lambda>err. case err of
                Some y \<Rightarrow> ret (Some y)
              | None \<Rightarrow> seq_go (set_CurrentStep []) (abort rs c i (Some x))))
         | None \<Rightarrow> seq_go (upd_step i (\<lambda>s. s\<lparr>sOutput := out\<rparr>))
             (bind_go (transitionStep rs c i StepStatusSucceeded) (\<lambda>err. case err of
                Some y \<Rightarrow> ret (Some y)
              | None \<Rightarrow> forward rs c sagaTimeoutErr rest (Suc i) out))))))))"

definition resumeRunning ::
    "('d, 'u) run_state \<Rightarrow> ctx \<Rightarrow> gerr option \<Rightarrow> ('d, 'u, gerr option) engine" where
  "resumeRunning rs c sagaTimeoutErr = bind_go (gets exec) (\<lambda>e.
     case find_failed 0 (Steps e) of
       Some (i, s) \<Rightarrow> bind_go (errors_New (sError s)) (\<lambda>x.
         abort rs c i (Some (StepError (sName s) (Some x))))
     | None \<Rightarrow> (case skip_succeeded 0 (Input e) (Steps e) of (startAt, data) \<Rightarrow>
         forward rs c sagaTimeoutErr (drop startAt (d_steps (rs_def rs))) startAt data))"

section \<open>resume and Execute\<close>

definition dispatch ::
    "('d, 'u) run_state \<Rightarrow> ctx \<Rightarrow> gerr option \<Rightarrow> ('d, 'u, gerr option) engine" where
  "dispatch rs c sagaTimeoutErr = bind_go (gets exec) (\<lambda>e.
     if Status e \<in> {StatusCompleted, StatusFailed, StatusCompensated, StatusCompensationFailed}
     then ret None
     else if Status e = StatusCompensating then resumeCompensating rs c
     else if Status e = StatusPending then
       bind_go (transitionExec rs c StatusRunning) (\<lambda>err. case err of
           Some x \<Rightarrow> ret (Some x) | None \<Rightarrow> resumeRunning rs c sagaTimeoutErr)
     else resumeRunning rs c sagaTimeoutErr)"

text \<open>The saga's own deadline, if it has one.\<close>

definition start_timeout ::
    "('d, 'u) definition_ \<Rightarrow> ctx \<Rightarrow> ('d, 'u, ctx \<times> gerr option) engine" where
  "start_timeout d c =
     (if 0 < sint (d_timeout d) then bind_go (in_world new_ref) (\<lambda>r.
        let sagaTimeoutErr = SagaTimeoutError r (d_name d) (d_timeout d) in
        bind_go (in_world (context_WithTimeoutCause c (d_timeout d) sagaTimeoutErr)) (\<lambda>c'.
          ret (c', Some sagaTimeoutErr)))
      else ret (c, None))"

definition release_lock :: "('d, 'u) run_state \<Rightarrow> ctx \<Rightarrow> ('d, 'u, unit) engine" where
  "release_lock rs c = (case locker rs of
      None \<Rightarrow> ret ()
    | Some l \<Rightarrow> bind_go (gets (\<lambda>s. ID (exec s))) (\<lambda>i. seq_go (emit (ObsRelease i (lockOwner rs)))
        (bind_go (in_world (Release l (WithoutCancel c) i (lockOwner rs))) (\<lambda>_. ret ()))))"

text \<open>
  \<open>resume\<close> after the lease has been taken: the span, the deadline and the dispatch, with the
  deferred calls in reverse order. The deferred release reads the variable \<open>ctx\<close> when it runs.
\<close>

definition resume_held :: "('d, 'u) run_state \<Rightarrow> ctx \<Rightarrow> ('d, 'u, gerr option) engine" where
  "resume_held rs c0 =
     bind_go (on_panic (release_lock rs c0) (startSpan rs c0 (''saga:'' @ d_name (rs_def rs))))
       (\<lambda>(c1, endSpan). bind_go (start_timeout (rs_def rs) c1) (\<lambda>(c2, sagaTimeoutErr).
          deferred (release_lock rs c2) (deferred endSpan (dispatch rs c2 sagaTimeoutErr))))"

definition resume :: "('d, 'u) definition_ \<Rightarrow> ctx \<Rightarrow> ('d, 'u, gerr option) engine" where
  "resume d c = (case as_Locker (d_store d) of
      None \<Rightarrow> resume_held \<lparr>rs_def = d, locker = None, lockOwner = []\<rparr> c
    | Some l \<Rightarrow> bind_go (in_world idgen_New) (\<lambda>own. bind_go (gets (\<lambda>s. ID (exec s))) (\<lambda>i.
        bind_go (do_Acquire l c i own (d_lockTTL d)) (\<lambda>(acquired, err). case err of
            Some x \<Rightarrow> ret (Some (acquire_error i x))
          | None \<Rightarrow> if \<not> acquired then ret (Some (ExecutionLockedError i))
              else resume_held \<lparr>rs_def = d, locker = Some l, lockOwner = own\<rparr> c))))"

definition new_execution ::
    "('d, 'u) definition_ \<Rightarrow> string \<Rightarrow> 'd any \<Rightarrow> go_time \<Rightarrow> 'd execution" where
  "new_execution d i input now =
     \<lparr>ID = i, SagaName = d_name d, Status = StatusPending, Input = input, Output = None,
      Steps = map (\<lambda>step. new_step_execution (Name step) StepStatusPending) (d_steps d),
      CurrentStep = [], Error = [], CreatedAt = now, UpdatedAt = now, StartedAt = None,
      CompletedAt = None\<rparr>"

text \<open>
  \<open>Execute\<close>: the result is the error, and the definition as it is after the call (frozen).
\<close>

definition Execute ::
    "('d, 'u) definition_ \<Rightarrow> ctx \<Rightarrow> 'd any \<Rightarrow> ('d, 'u, gerr option \<times> ('d, 'u) definition_) engine"
  where
  "Execute d0 c input = (let d = snd (Freeze d0) in
     bind_go (in_world time_Now) (\<lambda>now. bind_go (in_world idgen_New) (\<lambda>i.
     seq_go (upd_exec (\<lambda>_. new_execution d i input now))
       (bind_go (store_Save d c) (\<lambda>err. case err of
           Some x \<Rightarrow> ret (Some x, d)
         | None \<Rightarrow> bind_go (resume d c) (\<lambda>err. ret (err, d)))))))"

end
