(* ===== verification/Recovery.thy ===== *)
theory Recovery
  imports Engine "HOL-Library.List_Lexorder" "HOL-Library.Char_ord" "HOL-Library.Product_Lexorder"
begin

text \<open>
  Crash recovery (\<open>recovery.go\<close>): the manager, its options with their panics, and
  \<open>Recover\<close>, which lists the incomplete executions, sorts them and resumes each one with the
  engine.
\<close>

section \<open>The manager\<close>

datatype recovery_policy = RecoverAutomatically | RecoverSkipInFlight

record 'd recovery_result =
  Execution :: "'d execution"
  Err :: "gerr option"

record ('d, 'u) recovery_manager =
  lister :: "('d, 'u) lister_ops"
  sagas :: "string \<rightharpoonup> ('d, 'u) definition_"
  policy :: recovery_policy

text \<open>An option is a function on the manager that may panic.\<close>

type_synonym ('d, 'u) recovery_option = "(('d, 'u) recovery_manager, unit) go"

definition WithSaga :: "('d, 'u) definition_ option \<Rightarrow> ('s, ('d, 'u) recovery_option) go" where
  "WithSaga d = (case d of
      None \<Rightarrow> panic ''saga: WithSaga requires a non-nil Definition''
    | Some x \<Rightarrow> ret (bind_go (gets sagas) (\<lambda>m. case m (d_name x) of
          Some _ \<Rightarrow> panic (''saga: two definitions named '' @ quoted (d_name x)
            @ '' registered with the same RecoveryManager'')
        | None \<Rightarrow> modify (\<lambda>r. r\<lparr>sagas := (sagas r)(d_name x \<mapsto> x)\<rparr>))))"

definition WithRecoveryPolicy :: "recovery_policy \<Rightarrow> ('d, 'u) recovery_option" where
  "WithRecoveryPolicy p = modify (\<lambda>r. r\<lparr>policy := p\<rparr>)"

fun run_all :: "('s, unit) go list \<Rightarrow> ('s, unit) go" where
  "run_all [] = ret ()"
| "run_all (m # ms) = seq_go m (run_all ms)"

definition NewRecoveryManager ::
    "('d, 'u) lister_ops option \<Rightarrow> ('d, 'u) recovery_option list
     \<Rightarrow> ('s, ('d, 'u) recovery_manager) go" where
  "NewRecoveryManager l opts = (case l of
      None \<Rightarrow> panic ''saga: recovery manager requires a non-nil Lister''
    | Some x \<Rightarrow> (case run_all opts \<lparr>lister = x, sagas = Map.empty, policy = RecoverAutomatically\<rparr> of
          (Ret _, r) \<Rightarrow> ret r
        | (Panic p, r) \<Rightarrow> panic p))"

section \<open>Recover\<close>

fun inFlightSteps :: "'d step_execution list \<Rightarrow> bool" where
  "inFlightSteps [] = False"
| "inFlightSteps (s # ss) =
     (if sStatus s = StepStatusRunning \<or> sStatus s = StepStatusCompensating then True
      else inFlightSteps ss)"

definition hasInFlightStep :: "'d execution \<Rightarrow> bool" where
  "hasInFlightStep e = inFlightSteps (Steps e)"

text \<open>The order of \<open>sort.Slice\<close>: by creation time, then by the bytes of the ID.\<close>

definition recovery_key :: "'d execution \<Rightarrow> go_time \<times> string" where
  "recovery_key e = (CreatedAt e, ID e)"

definition recovery_order :: "'d execution list \<Rightarrow> 'd execution list" where
  "recovery_order es = sort_key recovery_key es"

definition no_definition_error :: "'d execution \<Rightarrow> gerr" where
  "no_definition_error e = WrapError (''saga: no definition registered for saga ''
     @ quoted (SagaName e) @ '' (execution '' @ quoted (ID e) @ '')'') []"

definition list_error :: "gerr \<Rightarrow> gerr" where
  "list_error err =
     WrapError (''saga: failed to list incomplete executions: '' @ Error_msg err) [err]"

text \<open>The body of the loop for one execution. \<open>resume\<close> works on it through its pointer.\<close>

definition recover_one ::
    "('d, 'u) recovery_manager \<Rightarrow> ctx \<Rightarrow> 'd execution \<Rightarrow> ('d, 'u, 'd recovery_result) engine" where
  "recover_one r c e = (case sagas r (SagaName e) of
      None \<Rightarrow> ret \<lparr>Execution = e, Err = Some (no_definition_error e)\<rparr>
    | Some d \<Rightarrow>
        if policy r = RecoverSkipInFlight \<and> hasInFlightStep e
        then ret \<lparr>Execution = e, Err = Some ErrRecoverySkipped\<rparr>
        else seq_go (upd_exec (\<lambda>_. e)) (bind_go (resume d c) (\<lambda>resumeErr.
          bind_go (gets exec) (\<lambda>resumed. ret \<lparr>Execution = resumed, Err = resumeErr\<rparr>))))"

fun recover_all ::
    "('d, 'u) recovery_manager \<Rightarrow> ctx \<Rightarrow> 'd execution list \<Rightarrow> ('d, 'u, 'd recovery_result list) engine"
  where
  "recover_all r c [] = ret []"
| "recover_all r c (e # es) = bind_go (recover_one r c e) (\<lambda>x.
     bind_go (recover_all r c es) (\<lambda>xs. ret (x # xs)))"

definition Recover ::
    "('d, 'u) recovery_manager \<Rightarrow> ctx \<Rightarrow> ('d, 'u, gerr + 'd recovery_result list) engine" where
  "Recover r c = bind_go (in_world (ListIncomplete (lister r) c)) (\<lambda>res. case res of
      Inl err \<Rightarrow> ret (Inl (list_error err))
    | Inr incomplete \<Rightarrow> bind_go (recover_all r c (recovery_order incomplete)) (\<lambda>xs. ret (Inr xs)))"

end
