(* ===== verification/Engine_Rules.thy ===== *)
theory Engine_Rules
  imports Engine
begin

text \<open>
  The proof rules of the engine: exact weakest preconditions of the operations on the clock and
  the contexts, the rule for code outside the library, what a definition whose callbacks do not
  panic looks like (\<open>calm\<close>), and the relation \<open>evolves\<close> between the machine before and after:
  identity and input fixed, statuses moved only along the transition tables, trace only
  extended. Every function of the engine, from any state and however it ends, keeps it.
\<close>

section \<open>Exact rules\<close>

lemma wp_in_world [wp_simps]:
  "wp (in_world m) Q E s =
     wp m (\<lambda>a w. Q a (s\<lparr>world := w\<rparr>)) (\<lambda>w. E (s\<lparr>world := w\<rparr>)) (world s)"
  by (simp add: wp_def in_world_def zoom_def split: prod.splits outcome.splits)

lemma wp_emit [wp_simps]: "wp (emit x) Q E s = Q () (s\<lparr>trace := trace s @ [x]\<rparr>)"
  by (simp add: emit_def wp_modify)

lemma wp_upd_exec [wp_simps]: "wp (upd_exec f) Q E s = Q () (s\<lparr>exec := f (exec s)\<rparr>)"
  by (simp add: upd_exec_def wp_modify)

lemma wp_upd_step [wp_simps]:
  "wp (upd_step i f) Q E s =
     Q () (s\<lparr>exec := (exec s)\<lparr>Steps := (Steps (exec s))[i := f (Steps (exec s) ! i)]\<rparr>\<rparr>)"
  by (simp add: upd_step_def wp_upd_exec)

lemma wp_set_CurrentStep [wp_simps]:
  "wp (set_CurrentStep n) Q E s = Q () (s\<lparr>exec := (exec s)\<lparr>CurrentStep := n\<rparr>\<rparr>)"
  by (simp add: set_CurrentStep_def wp_upd_exec)

lemma wp_step_at [wp_simps]:
  "wp (step_at i) Q E s =
     (if i < length (Steps (exec s)) then Q (Steps (exec s) ! i) s else E s)"
  by (simp add: step_at_def wp_simps)

lemma wp_time_Now [wp_simps]: "wp time_Now Q E w = Q (clock (tick w)) (tick w)"
  by (simp add: time_Now_def wp_simps)

lemma wp_ctx_Done [wp_simps]: "wp (ctx_Done c) Q E w = Q (ended (tick w) c \<noteq> None) (tick w)"
  by (simp add: ctx_Done_def wp_simps)

lemma wp_context_Cause [wp_simps]:
  "wp (context_Cause c) Q E w = Q (ended (tick w) c) (tick w)"
  by (simp add: context_Cause_def wp_simps)

lemma wp_WithTimeoutCause [wp_simps]:
  "wp (context_WithTimeoutCause c t e) Q E w =
     Q (WithDeadline c (clock (tick w) + sint t) e) (tick w)"
  by (simp add: context_WithTimeoutCause_def wp_simps)

lemma wp_new_ref [wp_simps]:
  "wp new_ref Q E w = Q (next_ref w) (w\<lparr>next_ref := Suc (next_ref w)\<rparr>)"
  by (simp add: new_ref_def wp_simps)

lemma wp_errors_New [wp_simps]:
  "wp (errors_New m) Q E s = Q (ErrorString (next_ref (world s)) m)
     (s\<lparr>world := (world s)\<lparr>next_ref := Suc (next_ref (world s))\<rparr>\<rparr>)"
  by (simp add: errors_New_def wp_simps)

section \<open>Code outside the library\<close>

lemma wp_callback:
  assumes "\<And>a w'. m w = (Ret a, w') \<Longrightarrow> Q a w'"
    and "\<not> never_panics m \<Longrightarrow> (\<And>w'. E w')"
  shows "wp m Q E w"
proof (cases "m w")
  case (Pair r w')
  show ?thesis
  proof (cases r)
    case (Ret a)
    then show ?thesis using Pair assms(1) by (simp add: wp_def)
  next
    case (Panic p)
    then have "\<not> never_panics m"
      using Pair by (auto simp: never_panics_def) (metis Pair_inject outcome.distinct(1))
    then show ?thesis using Panic Pair assms(2) by (simp add: wp_def)
  qed
qed

lemma never_panics_time_Now [simp]: "never_panics time_Now"
  by (simp add: never_panics_def time_Now_def seq_go_def bind_go_def modify_def gets_def)

text \<open>
  No callback panics. The publisher is not mentioned: its panics are recovered.
\<close>

definition calm_policy :: "('d, 'u) retry_policy \<Rightarrow> bool" where
  "calm_policy p \<longleftrightarrow> (\<forall>n. never_panics (Delay p n))"

definition calm_step :: "('d, 'u) step_definition \<Rightarrow> bool" where
  "calm_step st \<longleftrightarrow>
     (\<exists>f. Action st = Some f \<and> (\<forall>c x. never_panics (f c x)))
   \<and> (\<forall>f. Compensate st = Some f \<longrightarrow> (\<forall>c x. never_panics (f c x)))
   \<and> (\<forall>p. step_retryPolicy st = Some p \<longrightarrow> calm_policy p)"

definition calm_locker :: "('d, 'u) locker_ops \<Rightarrow> bool" where
  "calm_locker l \<longleftrightarrow> (\<forall>c i own ttl. never_panics (Acquire l c i own ttl))
     \<and> (\<forall>c i own. never_panics (Release l c i own))"

definition calm_tracer :: "('d, 'u) tracer_ops \<Rightarrow> bool" where
  "calm_tracer t \<longleftrightarrow> (\<forall>c n. never_panics (StartSpan t c n))
     \<and> (\<forall>c n w c' fin w'. StartSpan t c n w = (Ret (c', fin), w') \<longrightarrow> never_panics fin)"

definition calm :: "('d, 'u) definition_ \<Rightarrow> bool" where
  "calm d \<longleftrightarrow> (\<forall>c e. never_panics (Save (d_store d) c e))
     \<and> (\<forall>l. as_Locker (d_store d) = Some l \<longrightarrow> calm_locker l)
     \<and> (\<forall>st \<in> set (d_steps d). calm_step st)
     \<and> calm_policy (d_retryPolicy d)
     \<and> (\<forall>l. d_logger d = Some l \<longrightarrow> (\<forall>c lv m a. never_panics (Log l c lv m a)))
     \<and> (\<forall>m. d_metrics d = Some m \<longrightarrow> (\<forall>n l. never_panics (IncCounter m n l))
           \<and> (\<forall>n t l. never_panics (ObserveDuration m n t l)))
     \<and> (\<forall>t. d_tracer d = Some t \<longrightarrow> calm_tracer t)"

section \<open>Frame: how a machine evolves\<close>

lemma wp_final: "wp m (\<lambda>_. P) P s = P (snd (m s))"
  by (simp add: wp_def split: prod.splits outcome.splits)

lemma keeps_iff_wp: "keeps R m \<longleftrightarrow> (\<forall>s. wp m (\<lambda>_. R s) (R s) s)"
  by (simp add: keeps_def wp_final)

definition step_evolves :: "'d step_execution \<Rightarrow> 'd step_execution \<Rightarrow> bool" where
  "step_evolves s t \<longleftrightarrow> sName t = sName s \<and> sAttempts s \<le> sAttempts t
     \<and> canTransitionStepStatus\<^sup>*\<^sup>* (sStatus s) (sStatus t)"

definition exec_evolves :: "'d execution \<Rightarrow> 'd execution \<Rightarrow> bool" where
  "exec_evolves e f \<longleftrightarrow> ID f = ID e \<and> SagaName f = SagaName e \<and> Input f = Input e
     \<and> CreatedAt f = CreatedAt e
     \<and> canTransitionStatus\<^sup>*\<^sup>* (Status e) (Status f)
     \<and> list_all2 step_evolves (Steps e) (Steps f)"

definition evolves :: "('d, 'u) machine \<Rightarrow> ('d, 'u) machine \<Rightarrow> bool" where
  "evolves s t \<longleftrightarrow> exec_evolves (exec s) (exec t) \<and> (\<exists>tr. trace t = trace s @ tr)"

lemma step_evolves_refl [simp]: "step_evolves s s"
  by (simp add: step_evolves_def)

lemma step_evolves_trans: "step_evolves s t \<Longrightarrow> step_evolves t u \<Longrightarrow> step_evolves s u"
  unfolding step_evolves_def by (auto intro: rtranclp_trans)

lemma exec_evolves_refl [simp]: "exec_evolves e e"
  by (simp add: exec_evolves_def list_all2_refl)

lemma exec_evolves_trans:
  assumes "exec_evolves e f" and "exec_evolves f g"
  shows "exec_evolves e g"
proof -
  have "list_all2 step_evolves (Steps e) (Steps g)"
    using assms by (auto simp: exec_evolves_def intro: list_all2_trans [OF step_evolves_trans])
  then show ?thesis using assms by (auto simp: exec_evolves_def intro: rtranclp_trans)
qed

interpretation evo: frame evolves
proof unfold_locales
  fix s t u :: "('d, 'u) machine"
  show "evolves s s" by (simp add: evolves_def)
  show "evolves s u" if "evolves s t" "evolves t u"
    using that by (auto simp: evolves_def intro: exec_evolves_trans)
qed

lemma evolves_world [simp]: "evolves s (s\<lparr>world := w\<rparr>)"
  by (simp add: evolves_def)

lemma evolves_trace [simp]: "evolves s (s\<lparr>trace := trace s @ tr\<rparr>)"
  by (simp add: evolves_def)

lemma list_all2_step_update:
  "step_evolves (ss ! i) y \<Longrightarrow> list_all2 step_evolves ss (ss[i := y])"
  by (cases "i < length ss") (auto simp: list_all2_conv_all_nth nth_list_update list_update_beyond)

lemma evolves_exec: "exec_evolves (exec s) e \<Longrightarrow> evolves s (s\<lparr>exec := e\<rparr>)"
  by (simp add: evolves_def)

lemma in_world_evolves: "keeps evolves (in_world m)"
  unfolding in_world_def by (rule evo.zoom_frame) simp

lemma emit_evolves: "keeps evolves (emit x)"
  unfolding emit_def by (rule evo.modify_frame) simp

lemma upd_exec_evolves: "(\<And>e. exec_evolves e (f e)) \<Longrightarrow> keeps evolves (upd_exec f)"
  unfolding upd_exec_def by (rule evo.modify_frame) (simp add: evolves_exec)

lemma upd_step_evolves: "(\<And>s. step_evolves s (f s)) \<Longrightarrow> keeps evolves (upd_step i f)"
  unfolding upd_step_def
  by (rule upd_exec_evolves) (simp add: exec_evolves_def list_all2_step_update)

lemma set_CurrentStep_evolves: "keeps evolves (set_CurrentStep n)"
  unfolding set_CurrentStep_def by (rule upd_exec_evolves) (simp add: exec_evolves_def list_all2_refl)

lemma step_at_evolves: "keeps evolves (step_at i)"
  unfolding step_at_def by (intro evo.frame_rules)

lemma exec_transition_evolves:
  "exec_transition e to' now = Inr e' \<Longrightarrow> exec_evolves e e'"
  using exec_transition_fields [of e to' now e'] exec_transition_Inr_iff [of e to' now]
  by (auto simp: exec_evolves_def list_all2_refl simp del: canTransitionStatus_iff)

lemma step_transition_evolves:
  "step_transition s to' now = Inr s' \<Longrightarrow> step_evolves s s'"
  using step_transition_fields [of s to' now s'] step_transition_Inr_iff [of s to' now]
  by (auto simp: step_evolves_def simp del: canTransitionStepStatus_iff)

lemmas evolve_rules = evo.ret_frame evo.panic_frame evo.gets_frame evo.bind_frame evo.seq_frame
  evo.deferred_frame evo.on_panic_frame evo.recovered_frame evo.if_frame evo.option_frame
  evo.prod_frame in_world_evolves emit_evolves set_CurrentStep_evolves step_at_evolves

lemma publish_evolves: "keeps evolves (publish rs c ev)"
  unfolding publish_def by (intro evolve_rules)

lemma logEvent_evolves: "keeps evolves (logEvent rs c ev)"
  unfolding logEvent_def Let_def by (intro evolve_rules)

lemma incEventCounter_evolves: "keeps evolves (incEventCounter rs ev)"
  unfolding incEventCounter_def Let_def by (intro evolve_rules)

lemma observeDuration_evolves: "keeps evolves (observeDuration rs n d ls)"
  unfolding observeDuration_def by (intro evolve_rules)

lemmas observer_evolves = publish_evolves logEvent_evolves incEventCounter_evolves
  observeDuration_evolves

lemma notifyExec_evolves: "keeps evolves (notifyExec rs c to')"
  unfolding notifyExec_def Let_def
  by (intro evolve_rules observer_evolves) (auto split: option.split bool.split
      intro!: evolve_rules observer_evolves)

lemma notifyStep_evolves: "keeps evolves (notifyStep rs c i to')"
  unfolding notifyStep_def publishAndLog_def Let_def by (intro evolve_rules observer_evolves)

lemma startSpan_evolves: "keeps evolves (startSpan rs c n)"
  unfolding startSpan_def by (intro evolve_rules)

lemma do_Acquire_evolves: "keeps evolves (do_Acquire l c i own ttl)"
  unfolding do_Acquire_def by (intro evolve_rules)

lemma store_Save_evolves: "keeps evolves (store_Save d c)"
  unfolding store_Save_def by (intro evolve_rules)

lemma save_evolves: "keeps evolves (save rs c)"
  unfolding save_def by (intro evolve_rules do_Acquire_evolves store_Save_evolves)

lemma keeps_evolves_after:
  assumes "keeps evolves m" and "exec_evolves (exec s) e"
  shows "evolves s (snd (m (s\<lparr>exec := e\<rparr>)))"
  using assms evo.trans [OF evolves_exec] by (auto simp: keeps_def)

lemma transitionExec_evolves: "keeps evolves (transitionExec rs c to')"
proof -
  let ?rest = "bind_go (save rs c) (\<lambda>err. case err of
      Some x \<Rightarrow> ret (Some x) | None \<Rightarrow> seq_go (notifyExec rs c to') (ret None))"
  have rest: "keeps evolves ?rest"
    by (intro evolve_rules save_evolves notifyExec_evolves)
  have "wp (transitionExec rs c to') (\<lambda>_. evolves s) (evolves s) s" for s
  proof (cases "exec_transition (exec s) to' (clock (tick (world s)))")
    case (Inl err)
    then show ?thesis by (simp add: transitionExec_def wp_simps)
  next
    case (Inr e')
    let ?s = "s\<lparr>world := tick (world s)\<rparr>"
    have "evolves s (snd (?rest (?s\<lparr>exec := e'\<rparr>)))"
      using keeps_evolves_after [OF rest, of ?s e'] exec_transition_evolves [OF Inr]
      by (auto intro: evo.trans [OF evolves_world])
    then have "wp ?rest (\<lambda>_. evolves s) (evolves s) (?s\<lparr>exec := e'\<rparr>)"
      by (simp only: wp_final)
    then show ?thesis using Inr by (simp add: transitionExec_def wp_simps)
  qed
  then show ?thesis by (simp add: keeps_iff_wp)
qed

lemma transitionStep_evolves: "keeps evolves (transitionStep rs c i to')"
proof -
  let ?rest = "bind_go (save rs c) (\<lambda>err. case err of
      Some x \<Rightarrow> ret (Some x) | None \<Rightarrow> seq_go (notifyStep rs c i to') (ret None))"
  have rest: "keeps evolves ?rest"
    by (intro evolve_rules save_evolves notifyStep_evolves)
  have "wp (transitionStep rs c i to') (\<lambda>_. evolves s) (evolves s) s" for s
  proof (cases "step_transition (Steps (exec s) ! i) to' (clock (tick (world s)))")
    case (Inl err)
    then show ?thesis by (simp add: transitionStep_def wp_simps)
  next
    case (Inr s')
    let ?s = "s\<lparr>world := tick (world s)\<rparr>"
    let ?e = "(exec s)\<lparr>Steps := (Steps (exec s))[i := s']\<rparr>"
    have "exec_evolves (exec s) ?e"
      by (simp add: exec_evolves_def list_all2_step_update [OF step_transition_evolves [OF Inr]])
    then have "evolves s (snd (?rest (?s\<lparr>exec := ?e\<rparr>)))"
      using keeps_evolves_after [OF rest, of ?s ?e] by (auto intro: evo.trans [OF evolves_world])
    then have "wp ?rest (\<lambda>_. evolves s) (evolves s) (?s\<lparr>exec := ?e\<rparr>)"
      by (simp only: wp_final)
    then show ?thesis using Inr by (simp add: transitionStep_def wp_simps)
  qed
  then show ?thesis by (simp add: keeps_iff_wp)
qed

lemma startSpan_end_evolves:
  assumes "startSpan rs c n s = (Ret (c', fin), t)"
  shows "keeps evolves fin"
proof -
  have "wp (startSpan rs c n) (\<lambda>(c', fin) _. keeps evolves fin) (\<lambda>_. True) s"
    by (auto simp: startSpan_def wp_simps intro!: wp_callback evolve_rules split: option.split)
  from wp_RetD [OF this assms] show ?thesis by simp
qed

lemma with_span_evolves:
  assumes "keeps evolves m" and "\<And>c' fin. keeps evolves fin \<Longrightarrow> keeps evolves (f (c', fin))"
    and "\<And>s c' fin t. m s = (Ret (c', fin), t) \<Longrightarrow> keeps evolves fin"
  shows "keeps evolves (bind_go m f)"
  by (rule evo.bind_frame_ret) (use assms in \<open>auto\<close>)

lemma run_action_evolves: "keeps evolves (run_action step c data)"
  unfolding run_action_def by (intro evolve_rules)

lemma callAction_evolves: "keeps evolves (callAction rs c opID step timeout data)"
  unfolding callAction_def Let_def
  by (intro with_span_evolves startSpan_evolves)
     (auto intro!: evolve_rules run_action_evolves dest: startSpan_end_evolves)

lemma sleepOrDone_evolves: "keeps evolves (sleepOrDone c delay)"
  unfolding sleepOrDone_def by (intro evolve_rules)

lemma saga_expired_evolves: "keeps evolves (saga_expired c e)"
  unfolding saga_expired_def by (intro evolve_rules)

lemma bump_attempts_evolves: "keeps evolves (upd_step i (\<lambda>s. s\<lparr>sAttempts := sAttempts s + 1\<rparr>))"
  by (rule upd_step_evolves) (simp add: step_evolves_def)

lemma run_attempts_evolves: "keeps evolves (run_attempts rs c st opID i step data attempt)"
proof (induction rs c st opID i step data attempt rule: run_attempts.induct)
  case (1 rs c st opID i step data attempt)
  show ?case
    by (subst run_attempts.simps)
       (intro evolve_rules callAction_evolves sleepOrDone_evolves saga_expired_evolves
          bump_attempts_evolves; rule 1; assumption)
qed

lemma runStep_evolves: "keeps evolves (runStep rs c st i k step data)"
  unfolding runStep_def by (rule run_attempts_evolves)

lemma invokeCompensate_evolves: "keeps evolves (invokeCompensate rs c i f)"
  unfolding invokeCompensate_def Let_def
  by (rule evo.bind_frame [OF evo.gets_frame], intro with_span_evolves startSpan_evolves)
     (auto intro!: evolve_rules dest: startSpan_end_evolves)

lemma set_sError_evolves: "keeps evolves (upd_step i (\<lambda>s. s\<lparr>sError := m\<rparr>))"
  by (rule upd_step_evolves) (simp add: step_evolves_def)

lemma set_sOutput_evolves: "keeps evolves (upd_step i (\<lambda>s. s\<lparr>sOutput := out\<rparr>))"
  by (rule upd_step_evolves) (simp add: step_evolves_def)

lemma set_fields_evolves:
  "keeps evolves (upd_exec (\<lambda>e. e\<lparr>Error := m\<rparr>))"
  "keeps evolves (upd_exec (\<lambda>e. e\<lparr>CurrentStep := n, Output := out\<rparr>))"
  by (rule upd_exec_evolves, simp add: exec_evolves_def list_all2_refl)+

lemmas setter_evolves = set_sError_evolves set_sOutput_evolves set_fields_evolves

lemma comp_loop_evolves: "keeps evolves (comp_loop rs c i)"
  by (induction i)
     (auto intro!: evolve_rules setter_evolves transitionStep_evolves invokeCompensate_evolves
        split: option.split)

lemma all_compensated_evolves: "keeps evolves (all_compensated i n)"
  by (induction n arbitrary: i) (auto intro!: evolve_rules)

lemma finishCompensating_evolves: "keeps evolves (finishCompensating rs c k oe)"
  unfolding finishCompensating_def compensate_def
  by (intro evolve_rules comp_loop_evolves all_compensated_evolves transitionExec_evolves)

lemma abort_evolves: "keeps evolves (abort rs c k oe)"
  unfolding abort_def
  by (intro evolve_rules setter_evolves transitionExec_evolves finishCompensating_evolves)

lemma forward_evolves: "keeps evolves (forward rs c st steps i data)"
  by (induction steps arbitrary: i data)
     (auto intro!: evolve_rules setter_evolves transitionStep_evolves transitionExec_evolves
        runStep_evolves abort_evolves split: option.split)

lemma errors_New_evolves: "keeps evolves (errors_New m)"
  unfolding errors_New_def by (intro evolve_rules)

lemma resumeRunning_evolves: "keeps evolves (resumeRunning rs c st)"
  unfolding resumeRunning_def
  by (intro evolve_rules abort_evolves errors_New_evolves forward_evolves)

lemma dispatch_evolves: "keeps evolves (dispatch rs c st)"
  unfolding dispatch_def resumeCompensating_def
  by (intro evolve_rules resumeRunning_evolves transitionExec_evolves errors_New_evolves
      finishCompensating_evolves)

lemma release_lock_evolves: "keeps evolves (release_lock rs c)"
  unfolding release_lock_def by (intro evolve_rules)

lemma resume_held_evolves: "keeps evolves (resume_held rs c)"
  unfolding resume_held_def start_timeout_def Let_def
  by (intro with_span_evolves)
     (auto intro!: evolve_rules startSpan_evolves release_lock_evolves dispatch_evolves
        dest!: on_panic_Ret dest: startSpan_end_evolves)

lemma resume_evolves: "keeps evolves (resume d c)"
  unfolding resume_def by (intro evolve_rules resume_held_evolves do_Acquire_evolves)

text \<open>
  C13: whatever the record, the callbacks and the way the call ends, \<open>resume\<close> keeps the
  identity and the input of the execution, moves the status of the execution and of every
  step only along the transition tables, never undoes an attempt count, and keeps the steps
  in number, order and name.
\<close>

theorem resume_moves_along_tables:
  "exec_evolves (exec s) (exec (snd (resume d c s)))"
  using resume_evolves [of d c] by (simp add: keeps_def evolves_def)

end
