(* ===== verification/Engine_Quiet.thy ===== *)
theory Engine_Quiet
  imports Engine_Rules
begin

text \<open>
  What the parts of the engine that do not persist anything leave alone, and that they return
  when the callbacks do: \<open>quiet\<close> (the execution unchanged, nothing saved) for observers, spans,
  locks and compensating calls, \<open>quiet_step i\<close> (only the attempt count of step \<open>i\<close>) for the
  retry loop, and the corresponding \<open>never_panics\<close> facts.
\<close>

section \<open>Saves in a trace\<close>

fun saves_of :: "'d obs list \<Rightarrow> 'd execution list" where
  "saves_of [] = []"
| "saves_of (ObsSave e # xs) = e # saves_of xs"
| "saves_of (x # xs) = saves_of xs"

lemma saves_of_append [simp]: "saves_of (xs @ ys) = saves_of xs @ saves_of ys"
  by (induction xs rule: saves_of.induct) auto

definition quiet :: "('d, 'u) machine \<Rightarrow> ('d, 'u) machine \<Rightarrow> bool" where
  "quiet s t \<longleftrightarrow> exec t = exec s \<and> (\<exists>tr. trace t = trace s @ tr \<and> saves_of tr = [])"

interpretation qf: frame quiet
  by unfold_locales (auto simp: quiet_def)

lemma quiet_world [simp]: "quiet s (s\<lparr>world := w\<rparr>)"
  by (simp add: quiet_def)

lemma in_world_quiet: "keeps quiet (in_world m)"
  unfolding in_world_def by (rule qf.zoom_frame) simp

lemma emit_quiet: "saves_of [x] = [] \<Longrightarrow> keeps quiet (emit x)"
  unfolding emit_def by (rule qf.modify_frame) (simp add: quiet_def)

lemmas quiet_rules = qf.ret_frame qf.panic_frame qf.gets_frame qf.bind_frame qf.seq_frame
  qf.deferred_frame qf.on_panic_frame qf.recovered_frame qf.if_frame qf.option_frame
  qf.prod_frame in_world_quiet emit_quiet

lemma publish_quiet: "keeps quiet (publish rs c ev)"
  unfolding publish_def by (intro quiet_rules) simp_all

lemma logEvent_quiet: "keeps quiet (logEvent rs c ev)"
  unfolding logEvent_def Let_def by (intro quiet_rules) simp_all

lemma incEventCounter_quiet: "keeps quiet (incEventCounter rs ev)"
  unfolding incEventCounter_def Let_def by (intro quiet_rules) simp_all

lemma observeDuration_quiet: "keeps quiet (observeDuration rs n d ls)"
  unfolding observeDuration_def by (intro quiet_rules) simp_all

lemmas observer_quiet = publish_quiet logEvent_quiet incEventCounter_quiet observeDuration_quiet

lemma notifyExec_quiet: "keeps quiet (notifyExec rs c to')"
  unfolding notifyExec_def Let_def
  by (intro quiet_rules observer_quiet)
     (auto split: option.split bool.split intro!: quiet_rules observer_quiet)

lemma notifyStep_quiet: "keeps quiet (notifyStep rs c i to')"
  unfolding notifyStep_def publishAndLog_def Let_def by (intro quiet_rules observer_quiet)

lemma startSpan_quiet: "keeps quiet (startSpan rs c n)"
  unfolding startSpan_def by (intro quiet_rules) simp_all

lemma startSpan_end_quiet:
  assumes "startSpan rs c n s = (Ret (c', fin), t)"
  shows "keeps quiet fin"
proof -
  have "wp (startSpan rs c n) (\<lambda>(c', fin) _. keeps quiet fin) (\<lambda>_. True) s"
    by (auto simp: startSpan_def wp_simps intro!: wp_callback quiet_rules split: option.split)
  from wp_RetD [OF this assms] show ?thesis by simp
qed

lemma with_span_quiet:
  assumes "\<And>c' fin. keeps quiet fin \<Longrightarrow> keeps quiet (f (c', fin))"
  shows "keeps quiet (bind_go (startSpan rs c n) f)"
proof (rule qf.bind_frame_ret [OF startSpan_quiet])
  fix s a t assume "startSpan rs c n s = (Ret a, t)"
  then show "keeps quiet (f a)" using assms startSpan_end_quiet by (cases a) blast
qed

lemma do_Acquire_quiet: "keeps quiet (do_Acquire l c i own ttl)"
  unfolding do_Acquire_def by (intro quiet_rules) simp_all

lemma run_action_quiet: "keeps quiet (run_action step c data)"
  unfolding run_action_def by (intro quiet_rules) simp_all

lemma callAction_quiet: "keeps quiet (callAction rs c opID step timeout data)"
  unfolding callAction_def Let_def
  by (rule with_span_quiet) (auto intro!: quiet_rules run_action_quiet)

lemma sleepOrDone_quiet: "keeps quiet (sleepOrDone c delay)"
  unfolding sleepOrDone_def by (intro quiet_rules) simp_all

lemma saga_expired_quiet: "keeps quiet (saga_expired c e)"
  unfolding saga_expired_def by (intro quiet_rules)

lemma invokeCompensate_quiet: "keeps quiet (invokeCompensate rs c i f)"
  unfolding invokeCompensate_def Let_def
  by (rule qf.bind_frame [OF qf.gets_frame], rule with_span_quiet) (auto intro!: quiet_rules)

lemma release_lock_quiet: "keeps quiet (release_lock rs c)"
  unfolding release_lock_def by (intro quiet_rules) simp_all

section \<open>The retry loop touches the attempt count only\<close>

definition quiet_step :: "nat \<Rightarrow> ('d, 'u) machine \<Rightarrow> ('d, 'u) machine \<Rightarrow> bool" where
  "quiet_step i s t \<longleftrightarrow>
     (\<exists>k. exec t = (exec s)\<lparr>Steps := (Steps (exec s))[i := (Steps (exec s) ! i)\<lparr>sAttempts := k\<rparr>]\<rparr>)
   \<and> (\<exists>tr. trace t = trace s @ tr \<and> saves_of tr = [])"

lemma quiet_step_of_quiet: "quiet s t \<Longrightarrow> quiet_step i s t"
  by (auto simp: quiet_def quiet_step_def intro!: exI [of _ "sAttempts (Steps (exec s) ! i)"])

interpretation qs: frame "quiet_step i" for i
proof unfold_locales
  fix s t u :: "('d, 'u) machine"
  show "quiet_step i s s" by (rule quiet_step_of_quiet) (rule qf.refl)
  assume "quiet_step i s t" "quiet_step i t u"
  then show "quiet_step i s u"
    by (cases "i < length (Steps (exec s))")
       (auto simp: quiet_step_def list_update_beyond)
qed

lemma keeps_quiet_step: "keeps quiet m \<Longrightarrow> keeps (quiet_step i) m"
  by (simp add: keeps_def quiet_step_of_quiet)

lemma bump_quiet_step: "keeps (quiet_step i) (upd_step i (\<lambda>s. s\<lparr>sAttempts := sAttempts s + 1\<rparr>))"
  unfolding upd_step_def upd_exec_def
  by (rule qs.modify_frame) (auto simp: quiet_step_def)

lemma run_attempts_quiet: "keeps (quiet_step i) (run_attempts rs c st opID i step data attempt)"
proof (induction rs c st opID i step data attempt rule: run_attempts.induct)
  case (1 rs c st opID i step data attempt)
  show ?case
    by (subst run_attempts.simps)
       (intro qs.frame_rules bump_quiet_step callAction_quiet [THEN keeps_quiet_step]
          sleepOrDone_quiet [THEN keeps_quiet_step] saga_expired_quiet [THEN keeps_quiet_step]
          in_world_quiet [THEN keeps_quiet_step]; rule 1; assumption)
qed

lemma runStep_quiet: "keeps (quiet_step i) (runStep rs c st k i step data)"
  unfolding runStep_def by (rule run_attempts_quiet)

section \<open>What returns when the callbacks return\<close>

definition calm_run :: "('d, 'u) run_state \<Rightarrow> bool" where
  "calm_run rs \<longleftrightarrow> calm (rs_def rs) \<and> (\<forall>l. locker rs = Some l \<longrightarrow> calm_locker l)"

lemma wp_returns: "wp m (\<lambda>_ _. True) (\<lambda>_. False) s \<longleftrightarrow> (\<exists>a t. m s = (Ret a, t))"
proof (cases "m s")
  case (Pair r t)
  then show ?thesis by (cases r) (simp_all add: wp_def)
qed

lemma never_panics_wp: "never_panics m \<longleftrightarrow> (\<forall>s. wp m (\<lambda>_ _. True) (\<lambda>_. False) s)"
  by (simp add: never_panics_def wp_returns)

lemma never_panics_bind_ret:
  assumes "never_panics m" and "\<And>s a t. m s = (Ret a, t) \<Longrightarrow> never_panics (f a)"
  shows "never_panics (bind_go m f)"
  unfolding never_panics_def
proof
  fix s
  from assms(1) have "\<exists>a t. m s = (Ret a, t)" unfolding never_panics_def by blast
  then obtain a t where m: "m s = (Ret a, t)" by blast
  have "\<exists>b u. f a t = (Ret b, u)" using assms(2) [OF m] unfolding never_panics_def by blast
  with m show "\<exists>b u. bind_go m f s = (Ret b, u)" by (simp add: bind_go_def)
qed

lemma never_panics_bind:
  "never_panics m \<Longrightarrow> (\<And>a. never_panics (f a)) \<Longrightarrow> never_panics (bind_go m f)"
  by (rule never_panics_bind_ret)

lemma never_panics_seq: "never_panics m \<Longrightarrow> never_panics k \<Longrightarrow> never_panics (seq_go m k)"
  by (simp add: seq_go_def never_panics_bind)

lemma never_panics_gets: "never_panics (gets f)"
  by (simp add: never_panics_def gets_def)

lemma never_panics_modify: "never_panics (modify f)"
  by (simp add: never_panics_def modify_def)

lemma never_panics_deferred:
  "never_panics d \<Longrightarrow> never_panics m \<Longrightarrow> never_panics (deferred d m)"
  unfolding never_panics_wp wp_deferred by (fastforce elim: wp_mono)

lemma never_panics_recovered: "never_panics (recovered m)"
  by (simp add: never_panics_def recovered_def)

lemma never_panics_in_world: "never_panics m \<Longrightarrow> never_panics (in_world m)"
  unfolding never_panics_wp wp_in_world by auto

lemma never_panics_if:
  "(b \<Longrightarrow> never_panics m) \<Longrightarrow> (\<not> b \<Longrightarrow> never_panics k) \<Longrightarrow> never_panics (if b then m else k)"
  by simp

lemma never_panics_option:
  "(x = None \<Longrightarrow> never_panics m) \<Longrightarrow> (\<And>a. x = Some a \<Longrightarrow> never_panics (f a)) \<Longrightarrow>
   never_panics (case x of None \<Rightarrow> m | Some a \<Rightarrow> f a)"
  by (simp split: option.split)

lemma never_panics_prod:
  "(\<And>a b. x = (a, b) \<Longrightarrow> never_panics (f a b)) \<Longrightarrow> never_panics (case x of (a, b) \<Rightarrow> f a b)"
  by (simp split: prod.split)

lemma never_panics_world_ops:
  "never_panics (ctx_Done c)" "never_panics (context_Cause c)" "never_panics new_ref"
  "never_panics (context_WithTimeoutCause c t e)" "never_panics (timer_or_done c delay)"
  by (simp_all add: never_panics_wp wp_simps timer_or_done_def Let_def split: option.split)

lemma never_panics_emit: "never_panics (emit x)"
  by (simp add: emit_def never_panics_modify)

lemmas calm_rules = never_panics_ret never_panics_gets never_panics_modify never_panics_bind
  never_panics_seq never_panics_deferred never_panics_recovered never_panics_in_world
  never_panics_if never_panics_option never_panics_prod never_panics_world_ops
  never_panics_time_Now never_panics_emit

lemma never_panics_publish: "never_panics (publish rs c ev)"
  unfolding publish_def by (intro calm_rules)

lemma never_panics_logEvent: "calm (rs_def rs) \<Longrightarrow> never_panics (logEvent rs c ev)"
  unfolding logEvent_def Let_def by (intro calm_rules) (auto simp: calm_def)

lemma never_panics_incEventCounter: "calm (rs_def rs) \<Longrightarrow> never_panics (incEventCounter rs ev)"
  unfolding incEventCounter_def Let_def by (intro calm_rules) (auto simp: calm_def)

lemma never_panics_observeDuration:
  "calm (rs_def rs) \<Longrightarrow> never_panics (observeDuration rs n d ls)"
  unfolding observeDuration_def by (intro calm_rules) (auto simp: calm_def)

lemmas observer_calm = never_panics_publish never_panics_logEvent never_panics_incEventCounter
  never_panics_observeDuration

lemma never_panics_notifyExec: "calm (rs_def rs) \<Longrightarrow> never_panics (notifyExec rs c to')"
  unfolding notifyExec_def Let_def
  by (intro calm_rules observer_calm)
     (auto split: option.split bool.split intro!: calm_rules observer_calm)

lemma never_panics_notifyStep: "calm (rs_def rs) \<Longrightarrow> never_panics (notifyStep rs c i to')"
  unfolding notifyStep_def publishAndLog_def Let_def by (intro calm_rules observer_calm)

lemma never_panics_startSpan: "calm (rs_def rs) \<Longrightarrow> never_panics (startSpan rs c n)"
  unfolding startSpan_def by (intro calm_rules) (auto simp: calm_def calm_tracer_def)

lemma calm_tracerD:
  "calm_tracer t \<Longrightarrow> StartSpan t c n w = (Ret (c', fin), w') \<Longrightarrow> never_panics fin"
  unfolding calm_tracer_def by blast

lemma startSpan_end_calm:
  assumes "calm (rs_def rs)" and "startSpan rs c n s = (Ret (c', fin), t)"
  shows "never_panics fin"
proof -
  have "wp (startSpan rs c n) (\<lambda>(c', fin) _. never_panics fin) (\<lambda>_. True) s"
    using assms(1)
    by (auto simp: startSpan_def wp_simps calm_def intro!: wp_callback calm_rules
        intro: calm_tracerD split: option.split)
  from wp_RetD [OF this assms(2)] show ?thesis by simp
qed

lemma with_span_calm:
  assumes "calm (rs_def rs)" and "\<And>c' fin. never_panics fin \<Longrightarrow> never_panics (f (c', fin))"
  shows "never_panics (bind_go (startSpan rs c n) f)"
proof (rule never_panics_bind_ret [OF never_panics_startSpan [OF assms(1)]])
  fix s a t assume "startSpan rs c n s = (Ret a, t)"
  then show "never_panics (f a)" using assms startSpan_end_calm by (cases a) blast
qed

lemma never_panics_run_action: "calm_step step \<Longrightarrow> never_panics (run_action step c data)"
  unfolding run_action_def by (auto simp: calm_step_def intro!: calm_rules)

lemma never_panics_callAction:
  "calm (rs_def rs) \<Longrightarrow> calm_step step \<Longrightarrow> never_panics (callAction rs c opID step timeout data)"
  unfolding callAction_def Let_def
  by (rule with_span_calm, assumption) (auto intro!: calm_rules never_panics_run_action)

lemma never_panics_sleepOrDone: "never_panics (sleepOrDone c delay)"
  unfolding sleepOrDone_def by (intro calm_rules)

lemma never_panics_saga_expired: "never_panics (saga_expired c e)"
  unfolding saga_expired_def by (intro calm_rules)

lemma calm_retryPolicyFor:
  "calm (rs_def rs) \<Longrightarrow> calm_step step \<Longrightarrow> calm_policy (retryPolicyFor rs step)"
  by (auto simp: retryPolicyFor_def calm_def calm_step_def split: option.split)

lemma never_panics_upd_step: "never_panics (upd_step i f)"
  by (simp add: upd_step_def upd_exec_def never_panics_modify)

lemma never_panics_run_attempts:
  "calm (rs_def rs) \<Longrightarrow> calm_step step \<Longrightarrow>
   never_panics (run_attempts rs c st opID i step data attempt)"
proof (induction rs c st opID i step data attempt rule: run_attempts.induct)
  case (1 rs c st opID i step data attempt)
  have delay: "never_panics (Delay (retryPolicyFor rs step) n)" for n
    using calm_retryPolicyFor [OF 1(2,3)] by (simp add: calm_policy_def)
  show ?case
    by (subst run_attempts.simps)
       (intro calm_rules never_panics_upd_step never_panics_callAction 1(2,3)
          never_panics_saga_expired delay never_panics_sleepOrDone;
        rule 1(1) [OF _ _ _ _ _ 1(2,3)]; assumption)
qed

lemma never_panics_invokeCompensate:
  assumes "calm (rs_def rs)" and "\<And>c x. never_panics (f c x)"
  shows "never_panics (invokeCompensate rs c i f)"
  unfolding invokeCompensate_def Let_def
  by (rule never_panics_bind [OF never_panics_gets], rule with_span_calm [OF assms(1)])
     (auto intro!: calm_rules assms(2))

lemma never_panics_release_lock: "calm_run rs \<Longrightarrow> never_panics (release_lock rs c)"
  unfolding release_lock_def
  by (intro calm_rules) (auto simp: calm_run_def calm_locker_def)

lemma never_panics_do_Acquire: "calm_locker l \<Longrightarrow> never_panics (do_Acquire l c i own ttl)"
  unfolding do_Acquire_def by (intro calm_rules) (auto simp: calm_locker_def)

lemma never_panics_store_Save: "calm d \<Longrightarrow> never_panics (store_Save d c)"
  unfolding store_Save_def by (intro calm_rules) (auto simp: calm_def)

lemma never_panics_save: "calm_run rs \<Longrightarrow> never_panics (save rs c)"
  unfolding save_def
  by (intro calm_rules never_panics_store_Save never_panics_do_Acquire)
     (auto simp: calm_run_def)

lemma never_panics_errors_New: "never_panics (errors_New m)"
  unfolding errors_New_def by (intro calm_rules)

text \<open>Combining both kinds of fact into a precondition.\<close>

lemma wp_of_frame:
  assumes "keeps R m" and "\<And>a t. R s t \<Longrightarrow> Q a t"
    and "\<And>t. R s t \<Longrightarrow> \<not> never_panics m \<Longrightarrow> E t"
  shows "wp m Q E s"
proof (cases "m s")
  case (Pair r t)
  have "R s t" using assms(1) Pair by (metis keeps_def snd_conv)
  moreover have "\<not> never_panics m" if "r = Panic p" for p
    using that Pair by (auto simp: never_panics_def) (metis Pair_inject outcome.distinct(1))
  ultimately show ?thesis using Pair assms(2,3) by (cases r) (auto simp: wp_def)
qed

end
