(* ===== verification/Engine_Invariant.thy ===== *)
theory Engine_Invariant
  imports Engine_Quiet
begin

text \<open>
  The invariant of the durable record. \<open>record_ok d e\<close> says which combinations of statuses an
  execution of the definition \<open>d\<close> may show: while it runs, a prefix of succeeded steps, at most
  one step in progress, the rest pending; while it compensates, a prefix of steps that once
  succeeded, neither empty nor all of them, compensated strictly from the last one down; when it
  is settled, nothing left to undo. The engine is proved to hand only such records to the store, from any such record on,
  and never to take a transition the tables forbid.
\<close>

section \<open>The shape of a record\<close>

definition statuses :: "'d execution \<Rightarrow> step_status list" where
  "statuses e = map sStatus (Steps e)"

definition unfinished :: "step_status \<Rightarrow> bool" where
  "unfinished st \<longleftrightarrow> st \<in> {StepStatusPending, StepStatusRunning, StepStatusFailed}"

definition touched :: "step_status \<Rightarrow> bool" where
  "touched st \<longleftrightarrow> st \<in> {StepStatusSucceeded, StepStatusCompensating, StepStatusCompensated,
     StepStatusCompensationFailed}"

definition forward_at :: "nat \<Rightarrow> step_status list \<Rightarrow> bool" where
  "forward_at k ss \<longleftrightarrow> k \<le> length ss \<and> (\<forall>j < k. ss ! j = StepStatusSucceeded)
     \<and> (k < length ss \<longrightarrow> unfinished (ss ! k))
     \<and> (\<forall>j < length ss. k < j \<longrightarrow> ss ! j = StepStatusPending)"

definition backward_at :: "nat \<Rightarrow> step_status list \<Rightarrow> bool" where
  "backward_at k ss \<longleftrightarrow> 0 < k \<and> k < length ss \<and> (\<forall>j < k. touched (ss ! j))
     \<and> unfinished (ss ! k)
     \<and> (\<forall>j < length ss. k < j \<longrightarrow> ss ! j = StepStatusPending)"

text \<open>
  Nothing (more) to undo at step \<open>i\<close>, and a step whose compensation has begun: it has one,
  and every step after it is settled.
\<close>

definition settled :: "('d, 'u) definition_ \<Rightarrow> nat \<Rightarrow> step_status \<Rightarrow> bool" where
  "settled d i st \<longleftrightarrow> st \<notin> {StepStatusSucceeded, StepStatusCompensating}
     \<or> st = StepStatusSucceeded \<and> Compensate (d_steps d ! i) = None"

definition undoing :: "step_status \<Rightarrow> bool" where
  "undoing st \<longleftrightarrow>
     st \<in> {StepStatusCompensating, StepStatusCompensated, StepStatusCompensationFailed}"

definition in_reverse :: "('d, 'u) definition_ \<Rightarrow> step_status list \<Rightarrow> bool" where
  "in_reverse d ss \<longleftrightarrow> (\<forall>i < length ss. undoing (ss ! i) \<longrightarrow>
     Compensate (d_steps d ! i) \<noteq> None \<and> (\<forall>j < length ss. i < j \<longrightarrow> settled d j (ss ! j)))"

definition settled_from :: "('d, 'u) definition_ \<Rightarrow> nat \<Rightarrow> step_status list \<Rightarrow> bool" where
  "settled_from d k ss \<longleftrightarrow> (\<forall>j < length ss. k \<le> j \<longrightarrow> settled d j (ss ! j))"

definition undo_shape :: "('d, 'u) definition_ \<Rightarrow> step_status list \<Rightarrow> bool" where
  "undo_shape d ss \<longleftrightarrow> (\<exists>k. backward_at k ss) \<and> in_reverse d ss"

fun shape_ok :: "('d, 'u) definition_ \<Rightarrow> status \<Rightarrow> step_status list \<Rightarrow> bool" where
  "shape_ok d StatusPending ss = (\<forall>j < length ss. ss ! j = StepStatusPending)"
| "shape_ok d StatusRunning ss = (\<exists>k \<le> length ss. forward_at k ss)"
| "shape_ok d StatusCompleted ss = forward_at (length ss) ss"
| "shape_ok d StatusFailed ss = (ss \<noteq> [] \<and> forward_at 0 ss)"
| "shape_ok d StatusCompensating ss = undo_shape d ss"
| "shape_ok d StatusCompensated ss = (undo_shape d ss \<and> settled_from d 0 ss
     \<and> StepStatusCompensationFailed \<notin> set ss)"
| "shape_ok d StatusCompensationFailed ss = (undo_shape d ss \<and> settled_from d 0 ss
     \<and> StepStatusCompensationFailed \<in> set ss)"
| "shape_ok d (OtherStatus x) ss = False"

definition record_ok :: "('d, 'u) definition_ \<Rightarrow> 'd execution \<Rightarrow> bool" where
  "record_ok d e \<longleftrightarrow> map sName (Steps e) = map Name (d_steps d) \<and> shape_ok d (Status e) (statuses e)"

lemma record_ok_length: "record_ok d e \<Longrightarrow> length (Steps e) = length (d_steps d)"
  by (metis record_ok_def length_map)

lemma statuses_simps [simp]:
  "length (statuses e) = length (Steps e)"
  "i < length (Steps e) \<Longrightarrow> statuses e ! i = sStatus (Steps e ! i)"
  "statuses (e\<lparr>Steps := (Steps e)[i := s]\<rparr>) = (statuses e)[i := sStatus s]"
  "statuses (e\<lparr>CurrentStep := n\<rparr>) = statuses e" "statuses (e\<lparr>Error := n\<rparr>) = statuses e"
  "statuses (e\<lparr>Output := x\<rparr>) = statuses e"
  by (simp_all add: statuses_def map_update)

lemma statuses_transition: "exec_transition e to' now = Inr e' \<Longrightarrow> statuses e' = statuses e"
  by (simp add: statuses_def exec_transition_fields)

section \<open>How the shape moves\<close>

lemma forward_at_backward: "forward_at k ss \<Longrightarrow> 0 < k \<Longrightarrow> k < length ss \<Longrightarrow> backward_at k ss"
  by (auto simp: forward_at_def backward_at_def touched_def)

lemma forward_at_nth:
  assumes "forward_at k ss" and "j < length ss"
  shows "ss ! j = StepStatusSucceeded \<or> unfinished (ss ! j)"
  using assms by (cases j k rule: linorder_cases) (simp_all add: forward_at_def unfinished_def)

lemma forward_at_reverse:
  assumes "forward_at k ss"
  shows "in_reverse d ss"
  unfolding in_reverse_def undoing_def
proof (intro allI impI)
  fix i assume "i < length ss"
    "ss ! i \<in> {StepStatusCompensating, StepStatusCompensated, StepStatusCompensationFailed}"
  then show "Compensate (d_steps d ! i) \<noteq> None \<and> (\<forall>j < length ss. i < j \<longrightarrow> settled d j (ss ! j))"
    using forward_at_nth [OF assms, of i] by (auto simp: unfinished_def)
qed

lemma forward_at_update:
  "forward_at k ss \<Longrightarrow> k < length ss \<Longrightarrow> unfinished st \<Longrightarrow> forward_at k (ss[k := st])"
  by (auto simp: forward_at_def nth_list_update)

lemma forward_at_advance:
  "forward_at k ss \<Longrightarrow> k < length ss \<Longrightarrow> forward_at (Suc k) (ss[k := StepStatusSucceeded])"
  by (auto simp: forward_at_def nth_list_update unfinished_def less_Suc_eq)

lemma backward_at_update:
  "backward_at k ss \<Longrightarrow> i < k \<Longrightarrow> touched st \<Longrightarrow> backward_at k (ss[i := st])"
  by (auto simp: backward_at_def nth_list_update)

lemma settled_unfinished: "unfinished st \<Longrightarrow> settled d i st"
  by (auto simp: unfinished_def settled_def)

lemma backward_at_settled: "backward_at k ss \<Longrightarrow> settled_from d k ss"
  unfolding settled_from_def
proof (intro allI impI)
  fix j assume *: "backward_at k ss" "j < length ss" "k \<le> j"
  then have "unfinished (ss ! j)"
    by (cases "k = j") (auto simp: backward_at_def unfinished_def)
  then show "settled d j (ss ! j)" by (rule settled_unfinished)
qed

lemma in_reverseD:
  "in_reverse d ss \<Longrightarrow> undoing (ss ! h) \<Longrightarrow> h < j \<Longrightarrow> j < length ss \<Longrightarrow> settled d j (ss ! j)"
  unfolding in_reverse_def by (meson less_trans)

text \<open>Compensating step \<open>i\<close> keeps the order when every later step is settled.\<close>

lemma undo_update:
  assumes "backward_at k ss" and "in_reverse d ss" and "settled_from d (Suc i) ss" and "i < k"
    and "undoing st" and "Compensate (d_steps d ! i) \<noteq> None"
    and "ss ! i = StepStatusSucceeded \<or> settled d i st"
  shows "backward_at k (ss[i := st]) \<and> in_reverse d (ss[i := st])"
proof
  have len: "i < length ss" using assms(1,4) by (simp add: backward_at_def)
  show "backward_at k (ss[i := st])"
    using backward_at_update [OF assms(1,4)] assms(5) by (auto simp: undoing_def touched_def)
  have "settled d j (ss[i := st] ! j)"
    if *: "h < length ss" "undoing (ss[i := st] ! h)" "j < length ss" "h < j" for h j
  proof -
    consider "j = i" | "i < j" | "j < i" by linarith
    then show ?thesis
    proof cases
      case 1
      then have "settled d i (ss ! i)" using * len by (auto intro: in_reverseD [OF assms(2)])
      then show ?thesis using 1 assms(6,7) len by (auto simp: settled_def)
    next
      case 2
      then show ?thesis using * assms(3) by (auto simp: settled_from_def)
    next
      case 3
      then show ?thesis using * by (auto intro: in_reverseD [OF assms(2)])
    qed
  qed
  then show "in_reverse d (ss[i := st])"
    using assms(2,6) len unfolding in_reverse_def
    by (metis length_list_update nth_list_update_neq)
qed

lemma settled_from_update:
  "settled_from d (Suc i) ss \<Longrightarrow> i < length ss \<Longrightarrow> settled d i st \<Longrightarrow> settled_from d i (ss[i := st])"
  by (auto simp: settled_from_def nth_list_update le_eq_less_or_eq)

lemma settled_from_extend:
  "settled_from d (Suc i) ss \<Longrightarrow> (i < length ss \<Longrightarrow> settled d i (ss ! i)) \<Longrightarrow> settled_from d i ss"
  by (auto simp: settled_from_def le_eq_less_or_eq)

lemma settled_from_mono:
  "settled_from d i ss \<Longrightarrow> i \<le> j \<Longrightarrow> settled_from d j ss"
  by (auto simp: settled_from_def)

end
