(* ===== verification/Durable_Record.thy ===== *)
theory Durable_Record
  imports Engine_Invariant
begin

text \<open>
  Crash safety. \<open>good d e\<close> is the full invariant of a record: its shape, timestamps that agree
  with the statuses, and no error message or output left on a status that has none. Started on a
  good record, every function of the engine hands only good records to the store, keeps the
  execution good at every exit, and panics only when a callback panics.
\<close>

section \<open>Good records\<close>

definition step_ok :: "'d step_execution \<Rightarrow> bool" where
  "step_ok s \<longleftrightarrow> step_stamps_ok s
     \<and> (sError s = [] \<or> sStatus s \<in> {StepStatusFailed, StepStatusCompensationFailed})"

definition header_ok :: "'d execution \<Rightarrow> bool" where
  "header_ok e \<longleftrightarrow> exec_stamps_ok e
     \<and> (Error e = [] \<or> Status e \<in> {StatusFailed, StatusCompensating, StatusCompensated,
          StatusCompensationFailed})
     \<and> (Output e = None \<or> Status e = StatusCompleted)"

definition good :: "('d, 'u) definition_ \<Rightarrow> 'd execution \<Rightarrow> bool" where
  "good d e \<longleftrightarrow> record_ok d e \<and> header_ok e \<and> (\<forall>s \<in> set (Steps e). step_ok s)"

lemma good_length [simp]: "good d e \<Longrightarrow> length (Steps e) = length (d_steps d)"
  by (simp add: good_def record_ok_length)

lemma good_CurrentStep [simp]: "good d (e\<lparr>CurrentStep := n\<rparr>) = good d e"
  by (simp add: good_def record_ok_def header_ok_def exec_stamps_ok_def)

lemma good_step: "good d e \<Longrightarrow> i < length (d_steps d) \<Longrightarrow> step_ok (Steps e ! i)"
  by (metis good_def good_length nth_mem)

lemma good_new: "good d (new_execution d i input now)"
  by (auto simp: good_def record_ok_def new_execution_def statuses_def header_ok_def
      exec_stamps_ok_def step_ok_def step_stamps_ok_def new_step_execution_def)

text \<open>Replacing one step by one that is as good.\<close>

lemma set_update_ok:
  "(\<forall>s \<in> set ss. P s) \<Longrightarrow> P y \<Longrightarrow> \<forall>s \<in> set (ss[i := y]). P s"
  using set_update_subset_insert [of ss i y] by auto

lemma good_update:
  assumes "good d e" and "i < length (d_steps d)" and "step_ok s"
    and "sName s = sName (Steps e ! i)" and "shape_ok d (Status e) ((statuses e)[i := sStatus s])"
  shows "good d (e\<lparr>Steps := (Steps e)[i := s]\<rparr>)"
proof -
  have "map sName ((Steps e)[i := s]) = map sName (Steps e)"
    using assms by (intro map_update_same) simp_all
  moreover have "\<forall>x \<in> set ((Steps e)[i := s]). step_ok x"
    using assms by (intro set_update_ok) (simp_all add: good_def)
  ultimately show ?thesis
    using assms by (simp add: good_def record_ok_def header_ok_def exec_stamps_ok_def)
qed

lemma good_attempts:
  assumes "good d e"
  shows "good d (e\<lparr>Steps := (Steps e)[i := (Steps e ! i)\<lparr>sAttempts := k\<rparr>]\<rparr>)"
proof (cases "i < length (d_steps d)")
  case True
  have "(statuses e)[i := sStatus (Steps e ! i)] = statuses e"
    using assms True by (metis list_update_id statuses_simps(2) good_length)
  then show ?thesis
    using assms True good_step [OF assms True]
    by (intro good_update)
       (simp_all add: step_ok_def step_stamps_ok_def, simp add: good_def record_ok_def)
next
  case False
  then show ?thesis using assms by (simp add: list_update_beyond)
qed

lemma step_transition_ok:
  assumes "step_stamps_ok s" and "step_transition s to' now = Inr s'"
    and "sError s = [] \<or> to' \<in> {StepStatusFailed, StepStatusCompensationFailed}"
  shows "step_ok s'"
  using step_transition_stamps [OF assms(1,2)] step_transition_fields [OF assms(2)] assms(3)
  by (simp add: step_ok_def)

lemma good_exec_transition:
  assumes "good d e0" and "exec_transition e to' now = Inr e'"
    and same: "Steps e = Steps e0" "Status e = Status e0" "StartedAt e = StartedAt e0"
      "CompletedAt e = CompletedAt e0"
    and "shape_ok d to' (statuses e0)"
    and "Error e = [] \<or> to' \<in> {StatusFailed, StatusCompensating, StatusCompensated,
      StatusCompensationFailed}"
    and "Output e = None \<or> to' = StatusCompleted"
  shows "good d e'"
proof -
  note f = exec_transition_fields [OF assms(2)]
  have "exec_stamps_ok e"
    using assms(1) same by (simp add: good_def header_ok_def exec_stamps_ok_def)
  then have "exec_stamps_ok e'" by (rule exec_transition_stamps [OF _ assms(2)])
  moreover have "statuses e' = statuses e0" using f same by (simp add: statuses_def)
  ultimately show ?thesis
    using assms f by (simp add: good_def record_ok_def header_ok_def)
qed

section \<open>What has been saved\<close>

text \<open>
  \<open>saved_ok d t0 s\<close>: since the trace was \<open>t0\<close>, only good records were handed to the store.
  \<open>crashed\<close> is what holds when the engine panics: the same, and a callback has panicked.
\<close>

definition saved_ok :: "('d, 'u) definition_ \<Rightarrow> 'd obs list \<Rightarrow> ('d, 'u) machine \<Rightarrow> bool" where
  "saved_ok d t0 s \<longleftrightarrow> (\<exists>tr. trace s = t0 @ tr \<and> (\<forall>e \<in> set (saves_of tr). good d e))"

definition crashed :: "('d, 'u) run_state \<Rightarrow> 'd obs list \<Rightarrow> ('d, 'u) machine \<Rightarrow> bool" where
  "crashed rs t0 s \<longleftrightarrow> \<not> calm_run rs \<and> saved_ok (rs_def rs) t0 s"

text \<open>The errors with which the engine reports that it could not persist or lock.\<close>

definition infra_error :: "gerr \<Rightarrow> bool" where
  "infra_error x \<longleftrightarrow> (\<exists>i y. x = persist_error i y \<or> x = renew_error i y \<or> x = acquire_error i y
     \<or> x = ExecutionLockedError i)"

lemma infra_errors [simp]:
  "infra_error (persist_error i y)" "infra_error (renew_error i y)"
  "infra_error (acquire_error i y)" "infra_error (ExecutionLockedError i)"
  by (auto simp: infra_error_def)

lemma saved_ok_world [simp]:
  "saved_ok d t0 (s\<lparr>world := w\<rparr>) = saved_ok d t0 s" "saved_ok d t0 (s\<lparr>exec := e\<rparr>) = saved_ok d t0 s"
  by (simp_all add: saved_ok_def)

lemma saved_ok_quiet: "saved_ok d t0 s \<Longrightarrow> quiet s t \<Longrightarrow> saved_ok d t0 t"
  by (fastforce simp: saved_ok_def quiet_def)

lemma saved_ok_emit:
  "saved_ok d t0 s \<Longrightarrow> (\<forall>e \<in> set (saves_of [x]). good d e) \<Longrightarrow>
   saved_ok d t0 (s\<lparr>trace := trace s @ [x]\<rparr>)"
  by (fastforce simp: saved_ok_def)

lemma wp_quiet:
  assumes "keeps quiet m" and "calm_run rs \<Longrightarrow> never_panics m" and "saved_ok (rs_def rs) t0 s"
  shows "wp m (\<lambda>_ t. exec t = exec s \<and> saved_ok (rs_def rs) t0 t) (crashed rs t0) s"
  using assms(1)
proof (rule wp_of_frame)
  fix a t assume q: "quiet s t"
  show "exec t = exec s \<and> saved_ok (rs_def rs) t0 t"
    using q saved_ok_quiet [OF assms(3) q] by (simp add: quiet_def)
  show "crashed rs t0 t" if "\<not> never_panics m"
    using saved_ok_quiet [OF assms(3) q] that assms(2) by (auto simp: crashed_def)
qed

section \<open>Persisting\<close>

lemma saved_ok_emit_iff [simp]:
  "(\<forall>e. x \<noteq> ObsSave e) \<Longrightarrow> saved_ok d t0 s \<Longrightarrow> saved_ok d t0 (s\<lparr>trace := trace s @ [x]\<rparr>)"
  by (rule saved_ok_emit) (auto split: obs.split, cases x, auto)

lemma store_Save_wp:
  assumes "good (rs_def rs) (exec s)" and "saved_ok (rs_def rs) t0 s"
  shows "wp (store_Save (rs_def rs) c) (\<lambda>err t. exec t = exec s \<and> saved_ok (rs_def rs) t0 t
     \<and> (\<forall>x. err = Some x \<longrightarrow> infra_error x)) (crashed rs t0) s"
proof -
  let ?s = "s\<lparr>trace := trace s @ [ObsSave (exec s)]\<rparr>"
  have ok: "saved_ok (rs_def rs) t0 ?s" by (rule saved_ok_emit) (use assms in simp_all)
  have "wp (in_world (Save (d_store (rs_def rs)) c (exec s)))
     (\<lambda>_ t. exec t = exec ?s \<and> saved_ok (rs_def rs) t0 t) (crashed rs t0) ?s"
    using in_world_quiet _ ok by (rule wp_quiet) (auto simp: calm_run_def calm_def intro!: calm_rules)
  then show ?thesis
    unfolding store_Save_def by (auto simp: wp_bind wp_seq wp_gets wp_emit wp_ret elim!: wp_mono)
qed

lemma do_Acquire_wp:
  assumes "saved_ok (rs_def rs) t0 s" and "calm_run rs \<Longrightarrow> calm_locker l"
  shows "wp (do_Acquire l c i own ttl) (\<lambda>_ t. exec t = exec s \<and> saved_ok (rs_def rs) t0 t)
    (crashed rs t0) s"
  using do_Acquire_quiet _ assms(1) by (rule wp_quiet) (use assms(2) never_panics_do_Acquire in auto)

lemma save_wp:
  assumes "good (rs_def rs) (exec s)" and "saved_ok (rs_def rs) t0 s"
  shows "wp (save rs c) (\<lambda>err t. exec t = exec s \<and> saved_ok (rs_def rs) t0 t
     \<and> (\<forall>x. err = Some x \<longrightarrow> infra_error x)) (crashed rs t0) s"
proof (cases "locker rs")
  case None
  then show ?thesis using store_Save_wp [OF assms] by (simp add: save_def)
next
  case (Some l)
  have "wp (do_Acquire l c (ID (exec s)) (lockOwner rs) (d_lockTTL (rs_def rs)))
      (\<lambda>_ t. exec t = exec s \<and> saved_ok (rs_def rs) t0 t) (crashed rs t0) s"
    using assms(2) by (rule do_Acquire_wp) (simp add: calm_run_def Some)
  moreover have "wp (store_Save (rs_def rs) c) (\<lambda>err t. exec t = exec s \<and> saved_ok (rs_def rs) t0 t
      \<and> (\<forall>x. err = Some x \<longrightarrow> infra_error x)) (crashed rs t0) t"
    if "exec t = exec s" "saved_ok (rs_def rs) t0 t" for t
    using store_Save_wp [of rs t t0 c] that assms(1) by simp
  ultimately show ?thesis
    by (auto simp: save_def Some wp_simps elim!: wp_mono split: option.split)
qed

text \<open>
  A transition of the execution or of step \<open>i\<close> that leads to a good record: it never panics of its
  own, the execution is the transitioned one whether or not it could be saved.
\<close>

lemma transitionExec_wp:
  assumes "canTransitionStatus (Status (exec s)) to'" and "saved_ok (rs_def rs) t0 s"
    and good: "\<And>now e. exec_transition (exec s) to' now = Inr e \<Longrightarrow> good (rs_def rs) e"
  shows "wp (transitionExec rs c to') (\<lambda>err t. saved_ok (rs_def rs) t0 t \<and> good (rs_def rs) (exec t)
     \<and> Status (exec t) = to' \<and> Error (exec t) = Error (exec s) \<and> Steps (exec t) = Steps (exec s)
     \<and> (\<forall>x. err = Some x \<longrightarrow> infra_error x)) (crashed rs t0) s"
proof -
  let ?w = "tick (world s)"
  obtain e where e: "exec_transition (exec s) to' (clock ?w) = Inr e"
    using assms(1) exec_transition_Inr_iff by blast
  let ?s = "s\<lparr>world := ?w, exec := e\<rparr>"
  have save: "wp (save rs c) (\<lambda>err t. exec t = e \<and> saved_ok (rs_def rs) t0 t
     \<and> (\<forall>x. err = Some x \<longrightarrow> infra_error x)) (crashed rs t0) ?s"
    using save_wp [of rs ?s t0 c] good [OF e] assms(2) by simp
  have notify: "wp (notifyExec rs c st) (\<lambda>_ u. exec u = exec t \<and> saved_ok (rs_def rs) t0 u)
     (crashed rs t0) t" if "saved_ok (rs_def rs) t0 t" for t st
    using notifyExec_quiet _ that
    by (rule wp_quiet) (simp add: never_panics_notifyExec calm_run_def)
  show ?thesis
    unfolding transitionExec_def
    using e good [OF e] exec_transition_fields [OF e]
    by (auto simp: wp_simps split: option.split intro!: wp_mono [OF save] wp_mono [OF notify])
qed

lemma transitionStep_wp:
  assumes "i < length (Steps (exec s))"
    and "canTransitionStepStatus (sStatus (Steps (exec s) ! i)) to'" and "saved_ok (rs_def rs) t0 s"
    and good: "\<And>now x. step_transition (Steps (exec s) ! i) to' now = Inr x \<Longrightarrow>
      good (rs_def rs) ((exec s)\<lparr>Steps := (Steps (exec s))[i := x]\<rparr>)"
  shows "wp (transitionStep rs c i to') (\<lambda>err t. saved_ok (rs_def rs) t0 t
     \<and> good (rs_def rs) (exec t)
     \<and> (\<exists>now x. step_transition (Steps (exec s) ! i) to' now = Inr x
          \<and> exec t = (exec s)\<lparr>Steps := (Steps (exec s))[i := x]\<rparr>)
     \<and> (\<forall>x. err = Some x \<longrightarrow> infra_error x)) (crashed rs t0) s"
proof -
  let ?w = "tick (world s)"
  obtain x where x: "step_transition (Steps (exec s) ! i) to' (clock ?w) = Inr x"
    using assms(2) step_transition_Inr_iff by blast
  let ?e = "(exec s)\<lparr>Steps := (Steps (exec s))[i := x]\<rparr>"
  let ?s = "s\<lparr>world := ?w, exec := ?e\<rparr>"
  have save: "wp (save rs c) (\<lambda>err t. exec t = ?e \<and> saved_ok (rs_def rs) t0 t
     \<and> (\<forall>x. err = Some x \<longrightarrow> infra_error x)) (crashed rs t0) ?s"
    using save_wp [of rs ?s t0 c] good [OF x] assms(3) by simp
  have notify: "wp (notifyStep rs c i to') (\<lambda>_ u. exec u = exec t \<and> saved_ok (rs_def rs) t0 u)
     (crashed rs t0) t" if "saved_ok (rs_def rs) t0 t" for t
    using notifyStep_quiet _ that
    by (rule wp_quiet) (simp add: never_panics_notifyStep calm_run_def)
  show ?thesis
    unfolding transitionStep_def
    using x good [OF x] assms(1)
    by (auto simp: wp_simps split: option.split intro!: wp_mono [OF save] wp_mono [OF notify]) blast+
qed

section \<open>Compensation\<close>

text \<open>
  \<open>unwinding d k i m e\<close>: the first \<open>k\<close> steps once succeeded, those from \<open>i\<close> on are settled, and
  the failure being compensated has the message \<open>m\<close>.
\<close>

definition unwinding :: "('d, 'u) definition_ \<Rightarrow> nat \<Rightarrow> nat \<Rightarrow> string \<Rightarrow> 'd execution \<Rightarrow> bool" where
  "unwinding d k i m e \<longleftrightarrow> good d e \<and> Status e = StatusCompensating \<and> Error e = m
     \<and> backward_at k (statuses e) \<and> in_reverse d (statuses e) \<and> settled_from d i (statuses e)"

lemma unwinding_CurrentStep [simp]:
  "unwinding d k i m (e\<lparr>CurrentStep := n\<rparr>) = unwinding d k i m e"
  by (simp add: unwinding_def)

lemma unwinding_length: "unwinding d k i m e \<Longrightarrow> length (Steps e) = length (d_steps d) \<and> k \<le> length (Steps e)"
  by (auto simp: unwinding_def backward_at_def)

lemma unwinding_start:
  "good d e \<Longrightarrow> Status e = StatusCompensating \<Longrightarrow> backward_at k (statuses e) \<Longrightarrow>
   unwinding d k k (Error e) e"
  by (simp add: unwinding_def backward_at_settled good_def record_ok_def undo_shape_def)

lemma unwinding_skip:
  assumes "unwinding d k (Suc i) m e" and "i < k" and "settled d i (sStatus (Steps e ! i))"
  shows "unwinding d k i m e"
  using assms unwinding_length [OF assms(1)]
  by (simp add: unwinding_def settled_from_extend)

lemma unwinding_update:
  assumes u: "unwinding d k (Suc i) m e" and "i < k" and "Compensate (d_steps d ! i) \<noteq> None"
    and "undoing (sStatus x)" and "step_ok x" and "sName x = sName (Steps e ! i)"
    and "sStatus (Steps e ! i) = StepStatusSucceeded \<or> settled d i (sStatus x)"
  shows "unwinding d k (Suc i) m (e\<lparr>Steps := (Steps e)[i := x]\<rparr>)"
proof -
  note len = unwinding_length [OF u]
  have shape: "backward_at k ((statuses e)[i := sStatus x]) \<and> in_reverse d ((statuses e)[i := sStatus x])"
    using u assms(2-4,7) len by (intro undo_update) (simp_all add: unwinding_def)
  moreover have "settled_from d (Suc i) ((statuses e)[i := sStatus x])"
    using u by (simp add: unwinding_def settled_from_def)
  moreover have "good d (e\<lparr>Steps := (Steps e)[i := x]\<rparr>)"
    using u assms(2,5,6) len shape
    by (intro good_update) (auto simp: unwinding_def undo_shape_def intro!: exI [of _ k])
  ultimately show ?thesis using u by (simp add: unwinding_def)
qed

lemma unwinding_begin:
  assumes u: "unwinding d k (Suc i) m e" and "i < k" and "Compensate (d_steps d ! i) \<noteq> None"
    and "sStatus (Steps e ! i) = StepStatusSucceeded"
    and tr: "step_transition (Steps e ! i) StepStatusCompensating now = Inr x"
  shows "unwinding d k (Suc i) m (e\<lparr>Steps := (Steps e)[i := x]\<rparr>)"
proof (rule unwinding_update [OF u assms(2,3)])
  note len = unwinding_length [OF u]
  have "step_ok (Steps e ! i)" using u len assms(2) by (intro good_step) (auto simp: unwinding_def)
  then show "step_ok x" using assms(4) by (intro step_transition_ok [OF _ tr]) (auto simp: step_ok_def)
qed (use assms(4) step_transition_fields [OF tr] in \<open>simp_all add: undoing_def\<close>)

lemma unwinding_finish:
  assumes u: "unwinding d k (Suc i) m e" and "i < k" and "Compensate (d_steps d ! i) \<noteq> None"
    and "sStatus (Steps e ! i) = StepStatusCompensating"
    and tr: "step_transition ((Steps e ! i)\<lparr>sError := msg\<rparr>) to' now = Inr x"
    and to': "to' = StepStatusCompensated \<and> msg = [] \<or> to' = StepStatusCompensationFailed"
  shows "unwinding d k i m (e\<lparr>Steps := (Steps e)[i := x]\<rparr>)"
proof (rule unwinding_skip)
  note f = step_transition_fields [OF tr]
  note len = unwinding_length [OF u]
  have st: "step_ok (Steps e ! i)" using u len assms(2) by (intro good_step) (auto simp: unwinding_def)
  show "unwinding d k (Suc i) m (e\<lparr>Steps := (Steps e)[i := x]\<rparr>)"
  proof (rule unwinding_update [OF u assms(2,3)])
    show "step_ok x"
      using st to' by (intro step_transition_ok [OF _ tr]) (auto simp: step_ok_def step_stamps_ok_def)
  qed (use f to' in \<open>auto simp: undoing_def settled_def\<close>)
  show "settled d i (sStatus (Steps (e\<lparr>Steps := (Steps e)[i := x]\<rparr>) ! i))"
    using len assms(2) f to' by (auto simp: settled_def)
qed (rule assms(2))

lemma calm_compensate:
  "calm d \<Longrightarrow> i < length (d_steps d) \<Longrightarrow> Compensate (d_steps d ! i) = Some f \<Longrightarrow> never_panics (f c x)"
  by (meson calm_def calm_step_def nth_mem)

text \<open>
  The body of the loop after the step has been marked \<open>COMPENSATING\<close>: the call and the two
  transitions that can follow it.
\<close>

lemma comp_finish_wp:
  assumes u: "unwinding (rs_def rs) k (Suc i) m (exec s)" and i: "i < k"
    and cf: "Compensate (d_steps (rs_def rs) ! i) \<noteq> None"
    and st: "sStatus (Steps (exec s) ! i) = StepStatusCompensating" and sv: "saved_ok (rs_def rs) t0 s"
    and to': "to' = StepStatusCompensated \<and> msg = [] \<or> to' = StepStatusCompensationFailed"
  shows "wp (transitionStep rs c i to') (\<lambda>err t. saved_ok (rs_def rs) t0 t \<and> good (rs_def rs) (exec t)
      \<and> (err = None \<longrightarrow> unwinding (rs_def rs) k i m (exec t))
      \<and> (\<forall>x. err = Some x \<longrightarrow> infra_error x)) (crashed rs t0)
    (s\<lparr>exec := (exec s)\<lparr>Steps := (Steps (exec s))[i := (Steps (exec s) ! i)\<lparr>sError := msg\<rparr>]\<rparr>\<rparr>)"
    (is "wp _ _ _ ?s")
proof -
  note len = unwinding_length [OF u]
  have at_i: "Steps (exec ?s) ! i = (Steps (exec s) ! i)\<lparr>sError := msg\<rparr>" using len i by simp
  have fin: "unwinding (rs_def rs) k i m ((exec ?s)\<lparr>Steps := (Steps (exec ?s))[i := x]\<rparr>)"
    if "step_transition (Steps (exec ?s) ! i) to' now = Inr x" for now x
    using unwinding_finish [OF u i cf st _ to', of now x] that at_i by simp
  show ?thesis
  proof (rule wp_mono [OF transitionStep_wp [where ?t0.0 = t0]])
    show "i < length (Steps (exec ?s))" using len i by simp
    show "canTransitionStepStatus (sStatus (Steps (exec ?s) ! i)) to'"
      using at_i st to' by auto
    show "saved_ok (rs_def rs) t0 ?s" using sv by simp
    show "good (rs_def rs) ((exec ?s)\<lparr>Steps := (Steps (exec ?s))[i := x]\<rparr>)"
      if "step_transition (Steps (exec ?s) ! i) to' now = Inr x" for now x
      using fin [OF that] by (simp add: unwinding_def)
  qed (use fin in \<open>auto simp del: canTransitionStepStatus_iff\<close>)
qed

lemma comp_begin_wp:
  assumes u: "unwinding (rs_def rs) k (Suc i) m (exec s)" and i: "i < k"
    and cf: "Compensate (d_steps (rs_def rs) ! i) \<noteq> None"
    and st: "sStatus (Steps (exec s) ! i) = StepStatusSucceeded" and sv: "saved_ok (rs_def rs) t0 s"
  shows "wp (transitionStep rs c i StepStatusCompensating) (\<lambda>err t. saved_ok (rs_def rs) t0 t
      \<and> unwinding (rs_def rs) k (Suc i) m (exec t)
      \<and> sStatus (Steps (exec t) ! i) = StepStatusCompensating
      \<and> (\<forall>x. err = Some x \<longrightarrow> infra_error x)) (crashed rs t0) s"
proof -
  note len = unwinding_length [OF u]
  have fin: "unwinding (rs_def rs) k (Suc i) m ((exec s)\<lparr>Steps := (Steps (exec s))[i := x]\<rparr>)"
    if "step_transition (Steps (exec s) ! i) StepStatusCompensating now = Inr x" for now x
    using unwinding_begin [OF u i cf st that] .
  show ?thesis
  proof (rule wp_mono [OF transitionStep_wp [OF _ _ sv]])
    show "good (rs_def rs) ((exec s)\<lparr>Steps := (Steps (exec s))[i := x]\<rparr>)"
      if "step_transition (Steps (exec s) ! i) StepStatusCompensating now = Inr x" for now x
      using fin [OF that] by (simp add: unwinding_def)
  qed (use fin len i st step_transition_fields in auto)
qed

lemma no_message: "step_ok s \<Longrightarrow> sStatus s = StepStatusCompensating \<Longrightarrow> s\<lparr>sError := []\<rparr> = s"
  by (simp add: step_ok_def)

lemma comp_finish_ok_wp:
  assumes u: "unwinding (rs_def rs) k (Suc i) m (exec s)" and i: "i < k"
    and cf: "Compensate (d_steps (rs_def rs) ! i) \<noteq> None"
    and st: "sStatus (Steps (exec s) ! i) = StepStatusCompensating" and sv: "saved_ok (rs_def rs) t0 s"
  shows "wp (transitionStep rs c i StepStatusCompensated) (\<lambda>err t. saved_ok (rs_def rs) t0 t
      \<and> good (rs_def rs) (exec t) \<and> (err = None \<longrightarrow> unwinding (rs_def rs) k i m (exec t))
      \<and> (\<forall>x. err = Some x \<longrightarrow> infra_error x)) (crashed rs t0) s"
proof -
  have "step_ok (Steps (exec s) ! i)"
    using u unwinding_length [OF u] i by (intro good_step) (auto simp: unwinding_def)
  then have "(Steps (exec s) ! i)\<lparr>sError := []\<rparr> = Steps (exec s) ! i" by (rule no_message [OF _ st])
  then show ?thesis
    using comp_finish_wp [OF assms, of StepStatusCompensated "[]" c] by simp
qed

definition unwound_to :: "('d, 'u) run_state \<Rightarrow> nat \<Rightarrow> string \<Rightarrow> 'd obs list \<Rightarrow> gerr option
    \<Rightarrow> ('d, 'u) machine \<Rightarrow> bool" where
  "unwound_to rs k m t0 err t \<longleftrightarrow> saved_ok (rs_def rs) t0 t \<and> good (rs_def rs) (exec t)
     \<and> (err = None \<longrightarrow> unwinding (rs_def rs) k 0 m (exec t)) \<and> (\<forall>x. err = Some x \<longrightarrow> infra_error x)"

lemma comp_call_wp:
  assumes u: "unwinding (rs_def rs) k (Suc i) m (exec s)" and i: "i < k"
    and cf: "Compensate (d_steps (rs_def rs) ! i) = Some f"
    and st: "sStatus (Steps (exec s) ! i) = StepStatusCompensating" and sv: "saved_ok (rs_def rs) t0 s"
    and IH: "\<And>t. unwinding (rs_def rs) k i m (exec t) \<Longrightarrow> saved_ok (rs_def rs) t0 t \<Longrightarrow>
      wp (comp_loop rs c i) (unwound_to rs k m t0) (crashed rs t0) t"
  shows "wp (bind_go (invokeCompensate rs c i f) (\<lambda>cErr. case cErr of
      Some x \<Rightarrow> seq_go (upd_step i (\<lambda>s. s\<lparr>sError := Error_msg x\<rparr>))
        (bind_go (transitionStep rs c i StepStatusCompensationFailed) (\<lambda>err.
           case err of Some y \<Rightarrow> ret (Some y) | None \<Rightarrow> comp_loop rs c i))
    | None \<Rightarrow> bind_go (transitionStep rs c i StepStatusCompensated) (\<lambda>err.
        case err of Some y \<Rightarrow> ret (Some y) | None \<Rightarrow> comp_loop rs c i)))
    (unwound_to rs k m t0) (crashed rs t0) s"
proof -
  note len = unwinding_length [OF u]
  have call: "wp (invokeCompensate rs c i f) (\<lambda>_ t. exec t = exec s \<and> saved_ok (rs_def rs) t0 t)
     (crashed rs t0) s"
  proof (rule wp_quiet [OF invokeCompensate_quiet _ sv])
    assume "calm_run rs"
    then show "never_panics (invokeCompensate rs c i f)"
      using len i by (auto intro!: never_panics_invokeCompensate calm_compensate [OF _ _ cf]
          simp: calm_run_def)
  qed
  have rest: "wp (bind_go (transitionStep rs c i to') (\<lambda>err.
      case err of Some y \<Rightarrow> ret (Some y) | None \<Rightarrow> comp_loop rs c i)) (unwound_to rs k m t0)
      (crashed rs t0) t"
    if "wp (transitionStep rs c i to') (\<lambda>err t. saved_ok (rs_def rs) t0 t
      \<and> good (rs_def rs) (exec t) \<and> (err = None \<longrightarrow> unwinding (rs_def rs) k i m (exec t))
      \<and> (\<forall>x. err = Some x \<longrightarrow> infra_error x)) (crashed rs t0) t" for to' t
    using that by (auto simp: wp_bind wp_ret wp_case_option unwound_to_def [of rs k m t0 "Some x" for x]
        intro: IH elim!: wp_mono split: option.split)
  have cf': "Compensate (d_steps (rs_def rs) ! i) \<noteq> None" using cf by simp
  have bad: "wp (seq_go (upd_step i (\<lambda>s. s\<lparr>sError := Error_msg x\<rparr>))
        (bind_go (transitionStep rs c i StepStatusCompensationFailed) (\<lambda>err.
           case err of Some y \<Rightarrow> ret (Some y) | None \<Rightarrow> comp_loop rs c i))) (unwound_to rs k m t0)
      (crashed rs t0) t" if "exec t = exec s" "saved_ok (rs_def rs) t0 t" for t x
    unfolding wp_seq wp_upd_step
    by (rule rest, rule comp_finish_wp [OF _ i cf']) (use that u st in auto)
  have ok: "wp (bind_go (transitionStep rs c i StepStatusCompensated) (\<lambda>err.
        case err of Some y \<Rightarrow> ret (Some y) | None \<Rightarrow> comp_loop rs c i)) (unwound_to rs k m t0)
      (crashed rs t0) t" if "exec t = exec s" "saved_ok (rs_def rs) t0 t" for t
    by (rule rest, rule comp_finish_ok_wp [OF _ i cf']) (use that u st in auto)
  show ?thesis
    unfolding wp_bind [of "invokeCompensate rs c i f"]
    by (rule wp_mono [OF call]) (use bad ok in \<open>auto split: option.split\<close>)
qed

lemma unwound_to_Some:
  "saved_ok (rs_def rs) t0 t \<Longrightarrow> unwinding (rs_def rs) k j m (exec t) \<Longrightarrow> infra_error x \<Longrightarrow>
   unwound_to rs k m t0 (Some x) t"
  by (simp add: unwound_to_def unwinding_def)

lemma comp_loop_wp:
  assumes "unwinding (rs_def rs) k i m (exec s)" and "i \<le> k" and "saved_ok (rs_def rs) t0 s"
  shows "wp (comp_loop rs c i) (unwound_to rs k m t0) (crashed rs t0) s"
  using assms
proof (induction i arbitrary: s)
  case 0
  then show ?case by (simp add: wp_ret unwound_to_def) (simp add: unwinding_def)
next
  case (Suc i)
  note u = Suc.prems(1) and sv = Suc.prems(3)
  have i: "i < k" using Suc.prems(2) by simp
  have IH: "wp (comp_loop rs c i) (unwound_to rs k m t0) (crashed rs t0) t"
    if "unwinding (rs_def rs) k i m (exec t)" "saved_ok (rs_def rs) t0 t" for t
    using Suc.IH [of t] that i by simp
  note len = unwinding_length [OF u]
  let ?st = "sStatus (Steps (exec s) ! i)"
  show ?case
  proof (cases "?st \<in> {StepStatusSucceeded, StepStatusCompensating} \<and> Compensate (d_steps (rs_def rs) ! i) \<noteq> None")
    case True
    then obtain f where f: "Compensate (d_steps (rs_def rs) ! i) = Some f" by auto
    let ?s = "s\<lparr>exec := (exec s)\<lparr>CurrentStep := sName (Steps (exec s) ! i)\<rparr>\<rparr>"
    have u': "unwinding (rs_def rs) k (Suc i) m (exec ?s)" "saved_ok (rs_def rs) t0 ?s"
      using u sv by simp_all
    note call = comp_call_wp [OF _ i f _ _ IH, unfolded wp_bind [of "invokeCompensate rs c i f"]]
    show ?thesis
    proof (cases "?st = StepStatusSucceeded")
      case True
      have "wp (transitionStep rs c i StepStatusCompensating) (\<lambda>err t. saved_ok (rs_def rs) t0 t
          \<and> unwinding (rs_def rs) k (Suc i) m (exec t)
          \<and> sStatus (Steps (exec t) ! i) = StepStatusCompensating
          \<and> (\<forall>x. err = Some x \<longrightarrow> infra_error x)) (crashed rs t0) ?s"
        using u' i f True by (intro comp_begin_wp) simp_all
      then show ?thesis
        using len i f True
        by (auto simp: wp_bind wp_step_at wp_seq wp_set_CurrentStep wp_ret
            intro!: call elim!: wp_mono split: option.split) (rule unwound_to_Some; assumption)
    next
      case False
      then have "?st = StepStatusCompensating" using True by simp
      then show ?thesis
        using len i f u' False call [of ?s]
        by (simp add: wp_bind wp_step_at wp_seq wp_set_CurrentStep wp_ret)
    qed
  next
    case False
    have "undoing ?st \<longrightarrow> Compensate (d_steps (rs_def rs) ! i) \<noteq> None"
      using u len i by (auto simp: unwinding_def in_reverse_def)
    then have "settled (rs_def rs) i ?st" using False by (auto simp: settled_def undoing_def)
    then have "unwinding (rs_def rs) k i m (exec s)" by (rule unwinding_skip [OF u i])
    then show ?thesis
      using False len i IH [OF _ sv] by (auto simp: wp_bind wp_step_at wp_ret)
  qed
qed

lemma all_compensated_wp:
  assumes "i + n \<le> length (Steps (exec s))"
  shows "wp (all_compensated i n) Q E s =
     Q (\<forall>j. i \<le> j \<and> j < i + n \<longrightarrow> sStatus (Steps (exec s) ! j) \<noteq> StepStatusCompensationFailed) s"
  using assms
proof (induction n arbitrary: i)
  case 0
  have "(\<forall>j. i \<le> j \<and> j < i + 0 \<longrightarrow> sStatus (Steps (exec s) ! j) \<noteq> StepStatusCompensationFailed) = True"
    by auto
  then show ?case by (simp only: wp_ret all_compensated.simps)
next
  case (Suc n)
  let ?bad = "\<lambda>j. sStatus (Steps (exec s) ! j) = StepStatusCompensationFailed"
  have split: "(\<forall>j. i \<le> j \<and> j < i + Suc n \<longrightarrow> P j) \<longleftrightarrow> P i \<and> (\<forall>j. Suc i \<le> j \<and> j < Suc i + n \<longrightarrow> P j)"
    for P :: "nat \<Rightarrow> bool"
  proof (intro iffI conjI)
    assume h: "P i \<and> (\<forall>j. Suc i \<le> j \<and> j < Suc i + n \<longrightarrow> P j)"
    show "\<forall>j. i \<le> j \<and> j < i + Suc n \<longrightarrow> P j"
    proof (intro allI impI)
      fix j assume "i \<le> j \<and> j < i + Suc n"
      then show "P j" using h by (cases "j = i") simp_all
    qed
  qed simp_all
  have i: "i < length (Steps (exec s))" using Suc.prems by simp
  show ?case
  proof (cases "?bad i")
    case True
    then show ?thesis using i unfolding split by (simp add: wp_bind wp_step_at wp_ret)
  next
    case False
    then show ?thesis
      using i Suc.IH [of "Suc i"] Suc.prems unfolding split by (simp add: wp_bind wp_step_at)
  qed
qed

section \<open>The outcome of a saga\<close>

text \<open>
  How the engine reports a failure whose cause is \<open>oe\<close>, and the agreement between the error it
  returns and the execution it leaves.
\<close>

definition failed_with :: "gerr \<Rightarrow> gerr \<Rightarrow> 'd execution \<Rightarrow> bool" where
  "failed_with oe x e \<longleftrightarrow> infra_error x
     \<or> x = oe \<and> Status e \<in> {StatusFailed, StatusCompensated} \<and> Error e = Error_msg oe
     \<or> x = compensation_error oe \<and> Status e = StatusCompensationFailed \<and> Error e = Error_msg oe"

definition outcome_ok :: "gerr option \<Rightarrow> 'd execution \<Rightarrow> bool" where
  "outcome_ok err e \<longleftrightarrow> (case err of
      None \<Rightarrow> Status e = StatusCompleted | Some x \<Rightarrow> \<exists>oe. failed_with oe x e)"

definition failed_at :: "('d, 'u) run_state \<Rightarrow> 'd obs list \<Rightarrow> gerr \<Rightarrow> gerr option
    \<Rightarrow> ('d, 'u) machine \<Rightarrow> bool" where
  "failed_at rs t0 oe err t \<longleftrightarrow> saved_ok (rs_def rs) t0 t \<and> good (rs_def rs) (exec t)
     \<and> (\<exists>x. err = Some x \<and> failed_with oe x (exec t))"

lemma failed_with_infra [simp]: "infra_error x \<Longrightarrow> failed_with oe x e"
  by (simp add: failed_with_def)

lemma undo_shapeI: "backward_at k ss \<Longrightarrow> in_reverse d ss \<Longrightarrow> undo_shape d ss"
  by (metis backward_at_def undo_shape_def)

lemma unwinding_terminal:
  assumes "unwinding d k 0 m e" and "Steps e0 = Steps e" "Status e0 = Status e" "Error e0 = Error e"
    "Output e0 = Output e" "StartedAt e0 = StartedAt e" "CompletedAt e0 = CompletedAt e"
    and "exec_transition e0 to' now = Inr e'"
    and "to' = StatusCompensated \<and> StepStatusCompensationFailed \<notin> set (statuses e)
      \<or> to' = StatusCompensationFailed \<and> StepStatusCompensationFailed \<in> set (statuses e)"
  shows "good d e'"
proof (rule good_exec_transition [of d e, OF _ assms(8)])
  show "good d e" using assms(1) by (simp add: unwinding_def)
  then show "Output e0 = None \<or> to' = StatusCompleted"
    using assms by (auto simp: good_def header_ok_def unwinding_def)
  show "shape_ok d to' (statuses e)"
    using assms(1,9) by (auto simp: unwinding_def intro: undo_shapeI)
qed (use assms in auto)

text \<open>No failed compensation among the first \<open>k\<close> steps is none at all.\<close>

lemma unwinding_none_failed:
  assumes "unwinding d k i m e"
  shows "(\<forall>j. 0 \<le> j \<and> j < 0 + k \<longrightarrow> sStatus (Steps e ! j) \<noteq> StepStatusCompensationFailed)
    \<longleftrightarrow> StepStatusCompensationFailed \<notin> set (statuses e)"
proof -
  have "unfinished (statuses e ! j)" if "k \<le> j" "j < length (Steps e)" for j
    using assms that by (cases "k = j") (auto simp: unwinding_def backward_at_def unfinished_def)
  then have late: "sStatus (Steps e ! j) \<noteq> StepStatusCompensationFailed"
    if "k \<le> j" "j < length (Steps e)" for j
    using that by (fastforce simp: unfinished_def)
  have "StepStatusCompensationFailed \<in> set (statuses e) \<longleftrightarrow>
      (\<exists>j < length (Steps e). sStatus (Steps e ! j) = StepStatusCompensationFailed)"
    unfolding statuses_def in_set_conv_nth by auto
  moreover have "k \<le> length (Steps e)" using unwinding_length [OF assms] by simp
  ultimately show ?thesis using late by (auto simp: not_le) (meson not_le)+
qed


lemma compensate_wp:
  assumes "unwinding (rs_def rs) k k m (exec s)" and "saved_ok (rs_def rs) t0 s"
  shows "wp (compensate rs c k) (\<lambda>(ok, err) t. unwound_to rs k m t0 err t
     \<and> (err = None \<longrightarrow> ok = (StepStatusCompensationFailed \<notin> set (statuses (exec t))))) (crashed rs t0) s"
proof -
  have inner: "wp (all_compensated 0 k) (\<lambda>ok t'. unwound_to rs k m t0 None t'
      \<and> ok = (StepStatusCompensationFailed \<notin> set (statuses (exec t')))) (crashed rs t0) t"
    if "unwound_to rs k m t0 None t" for t
  proof -
    have u: "unwinding (rs_def rs) k 0 m (exec t)" using that by (simp add: unwound_to_def)
    show ?thesis
      using that unwinding_length [OF u] unwinding_none_failed [OF u] by (simp add: all_compensated_wp)
  qed
  then show ?thesis
    unfolding compensate_def wp_bind
    by (intro wp_mono [OF comp_loop_wp [OF assms(1) order.refl assms(2)]])
       (auto simp: wp_bind wp_ret intro!: wp_mono [OF inner] split: option.split)
qed

lemma finishCompensating_wp:
  assumes "unwinding (rs_def rs) k k (Error_msg oe) (exec s)" and "saved_ok (rs_def rs) t0 s"
  shows "wp (finishCompensating rs c k oe) (failed_at rs t0 oe) (crashed rs t0) s"
proof -
  have finish: "wp (bind_go (transitionExec rs c to') (\<lambda>err. case err of
        Some x \<Rightarrow> ret (Some x) | None \<Rightarrow> ret (Some z))) (failed_at rs t0 oe) (crashed rs t0)
      (t\<lparr>exec := (exec t)\<lparr>CurrentStep := []\<rparr>\<rparr>)" (is "wp _ _ _ ?t")
    if u: "unwinding (rs_def rs) k 0 (Error_msg oe) (exec t)" and sv: "saved_ok (rs_def rs) t0 t"
      and to': "to' = StatusCompensated \<and> z = oe \<and> StepStatusCompensationFailed \<notin> set (statuses (exec t))
        \<or> to' = StatusCompensationFailed \<and> z = compensation_error oe
          \<and> StepStatusCompensationFailed \<in> set (statuses (exec t))" for to' z t
  proof -
    have st: "Status (exec ?t) = StatusCompensating" "Error (exec ?t) = Error_msg oe"
      using u by (simp_all add: unwinding_def)
    have "wp (transitionExec rs c to') (\<lambda>err t. saved_ok (rs_def rs) t0 t \<and> good (rs_def rs) (exec t)
      \<and> Status (exec t) = to' \<and> Error (exec t) = Error (exec ?t) \<and> Steps (exec t) = Steps (exec ?t)
      \<and> (\<forall>x. err = Some x \<longrightarrow> infra_error x)) (crashed rs t0) ?t"
    proof (rule transitionExec_wp)
      show "good (rs_def rs) e" if "exec_transition (exec ?t) to' now = Inr e" for now e
        using u _ _ _ _ _ _ that by (rule unwinding_terminal) (use to' in auto)
    qed (use st to' sv in auto)
    then show ?thesis
      unfolding wp_bind
      by (rule wp_mono)
         (use to' st in \<open>fastforce simp: failed_at_def failed_with_def wp_ret split: option.split\<close>)+
  qed
  have rest: "wp (seq_go (set_CurrentStep []) (case err of Some x \<Rightarrow> ret (Some x)
        | None \<Rightarrow>
            if \<not> ok then bind_go (transitionExec rs c StatusCompensationFailed) (\<lambda>err. case err of
                Some x \<Rightarrow> ret (Some x) | None \<Rightarrow> ret (Some (compensation_error oe)))
            else bind_go (transitionExec rs c StatusCompensated) (\<lambda>err. case err of
                Some x \<Rightarrow> ret (Some x) | None \<Rightarrow> ret (Some oe)))) (failed_at rs t0 oe) (crashed rs t0) t"
    if "unwound_to rs k (Error_msg oe) t0 err t"
      "err = None \<longrightarrow> ok = (StepStatusCompensationFailed \<notin> set (statuses (exec t)))" for ok err t
  proof (cases err)
    case None
    then show ?thesis
      using that by (auto simp: wp_seq wp_set_CurrentStep unwound_to_def intro: finish)
  next
    case (Some x)
    then show ?thesis
      using that by (simp add: wp_seq wp_set_CurrentStep wp_ret failed_at_def unwound_to_def)
  qed
  then show ?thesis
    unfolding finishCompensating_def wp_bind
    by (intro wp_mono [OF compensate_wp [OF assms]])
       (auto simp only: split_paired_all prod.case intro: rest)
qed

lemma anySucceeded_iff: "anySucceeded ss \<longleftrightarrow> (\<exists>s \<in> set ss. sStatus s = StepStatusSucceeded)"
  by (induction ss) auto

lemma forward_at_anySucceeded:
  assumes "forward_at i (statuses e)"
  shows "anySucceeded (take i (Steps e)) \<longleftrightarrow> 0 < i"
proof -
  have "sStatus (Steps e ! j) = StepStatusSucceeded" if "j < i" for j
    using assms that by (auto simp: forward_at_def)
  moreover have "i \<le> length (Steps e)" using assms by (simp add: forward_at_def)
  ultimately show ?thesis
    by (cases i) (auto simp: anySucceeded_iff in_set_conv_nth intro!: bexI [of _ "Steps e ! 0"] exI [of _ 0])
qed

text \<open>Everything the forward loop knows when it stands at step \<open>i\<close>.\<close>

definition running_at :: "('d, 'u) definition_ \<Rightarrow> nat \<Rightarrow> 'd execution \<Rightarrow> bool" where
  "running_at d i e \<longleftrightarrow> good d e \<and> Status e = StatusRunning \<and> forward_at i (statuses e)"

lemma running_at_CurrentStep [simp]: "running_at d i (e\<lparr>CurrentStep := n\<rparr>) = running_at d i e"
  by (simp add: running_at_def)

lemma running_at_length:
  "running_at d i e \<Longrightarrow> length (Steps e) = length (d_steps d) \<and> i \<le> length (Steps e)"
  by (auto simp: running_at_def forward_at_def)

lemma good_leave_running:
  assumes "running_at d i e" and tr: "exec_transition (e\<lparr>Error := m\<rparr>) to' now = Inr e'"
    and "to' = StatusFailed \<and> i = 0 \<or> to' = StatusCompensating \<and> 0 < i" and "i < length (d_steps d)"
  shows "good d e'"
proof (rule good_exec_transition [OF _ tr])
  show "good d e" using assms(1) by (simp add: running_at_def)
  then show "Output (e\<lparr>Error := m\<rparr>) = None \<or> to' = StatusCompleted"
    using assms(1) by (auto simp: good_def header_ok_def running_at_def)
  have f: "forward_at i (statuses e)" using assms(1) by (simp add: running_at_def)
  have len: "i < length (Steps e)" using assms(4) running_at_length [OF assms(1)] by simp
  have "undo_shape d (statuses e)" if "0 < i"
    using f that len by (intro undo_shapeI [OF forward_at_backward] forward_at_reverse) simp_all
  moreover have "statuses e \<noteq> []" using len by (auto simp: statuses_def)
  ultimately show "shape_ok d to' (statuses e)" using assms(3) f by auto
qed (use assms(3) in auto)

lemma abort_wp:
  assumes run: "running_at (rs_def rs) i (exec s)" and sv: "saved_ok (rs_def rs) t0 s"
    and here: "i < length (d_steps (rs_def rs))"
  shows "wp (abort rs c i (Some oe)) (failed_at rs t0 oe) (crashed rs t0) s"
proof -
  let ?s = "s\<lparr>exec := (exec s)\<lparr>Error := Error_msg oe\<rparr>\<rparr>"
  have fw: "forward_at i (statuses (exec s))" and st: "Status (exec ?s) = StatusRunning"
    using run by (simp_all add: running_at_def)
  have tr: "wp (transitionExec rs c to') (\<lambda>err t. saved_ok (rs_def rs) t0 t \<and> good (rs_def rs) (exec t)
      \<and> Status (exec t) = to' \<and> Error (exec t) = Error (exec ?s) \<and> Steps (exec t) = Steps (exec ?s)
      \<and> (\<forall>x. err = Some x \<longrightarrow> infra_error x)) (crashed rs t0) ?s"
    if "to' = StatusFailed \<and> i = 0 \<or> to' = StatusCompensating \<and> 0 < i" for to'
  proof (rule transitionExec_wp)
    show "good (rs_def rs) e" if "exec_transition (exec ?s) to' now = Inr e" for now e
      using good_leave_running [OF run] that \<open>to' = _ \<and> _ \<or> _\<close> here by simp
  qed (use st that sv in auto)
  show ?thesis
  proof (cases "i = 0")
    case True
    then show ?thesis
      by (auto simp: abort_def wp_seq wp_upd_exec wp_bind wp_gets wp_ret failed_at_def failed_with_def
          intro!: wp_mono [OF tr] split: option.split)
  next
    case False
    have fin: "wp (finishCompensating rs c i oe) (failed_at rs t0 oe) (crashed rs t0) t"
      if "saved_ok (rs_def rs) t0 t" "good (rs_def rs) (exec t)"
        "Status (exec t) = StatusCompensating" "Error (exec t) = Error_msg oe"
        "Steps (exec t) = Steps (exec s)" for t
    proof -
      have "backward_at i (statuses (exec t))"
        using fw that(5) False here running_at_length [OF run]
        by (intro forward_at_backward) (simp_all add: statuses_def)
      then have "unwinding (rs_def rs) i i (Error_msg oe) (exec t)"
        using unwinding_start [OF that(2,3)] that(4) by simp
      then show ?thesis using finishCompensating_wp that(1) by blast
    qed
    have "anySucceeded (take i (Steps (exec s)))"
      using forward_at_anySucceeded [OF fw] False by simp
    then show ?thesis
      by (auto simp: abort_def wp_seq wp_upd_exec wp_bind wp_gets wp_ret failed_at_def [of _ _ _ "Some x" for x]
          intro!: wp_mono [OF tr] fin split: option.split)
  qed
qed

section \<open>Going forward\<close>

definition returned :: "('d, 'u) run_state \<Rightarrow> 'd obs list \<Rightarrow> gerr option \<Rightarrow> ('d, 'u) machine \<Rightarrow> bool"
  where
  "returned rs t0 err t \<longleftrightarrow> saved_ok (rs_def rs) t0 t \<and> good (rs_def rs) (exec t)
     \<and> outcome_ok err (exec t)"

lemma failed_at_returned: "failed_at rs t0 oe err t \<Longrightarrow> returned rs t0 err t"
  by (auto simp: failed_at_def returned_def outcome_ok_def)

lemma returned_infra:
  "saved_ok (rs_def rs) t0 t \<Longrightarrow> good (rs_def rs) (exec t) \<Longrightarrow> infra_error x \<Longrightarrow>
   returned rs t0 (Some x) t"
  by (auto simp: returned_def outcome_ok_def)

lemma abort_returned_wp:
  "running_at (rs_def rs) i (exec s) \<Longrightarrow> saved_ok (rs_def rs) t0 s \<Longrightarrow>
   i < length (d_steps (rs_def rs)) \<Longrightarrow>
   wp (abort rs c i (Some oe)) (returned rs t0) (crashed rs t0) s"
  by (rule wp_mono [OF abort_wp]) (auto intro: failed_at_returned)

text \<open>Replacing the step the loop stands at by one that has taken a forward transition.\<close>

lemma running_step:
  assumes run: "running_at d i e" and i: "i < length (d_steps d)"
    and y: "step_stamps_ok y" "sName y = sName (Steps e ! i)"
    and tr: "step_transition y to' now = Inr x"
    and to': "to' \<in> {StepStatusRunning, StepStatusFailed, StepStatusSucceeded}"
    and err: "sError y = [] \<or> to' = StepStatusFailed"
  shows "running_at d (if to' = StepStatusSucceeded then Suc i else i)
     (e\<lparr>Steps := (Steps e)[i := x]\<rparr>)"
proof -
  note f = step_transition_fields [OF tr]
  note len = running_at_length [OF run]
  let ?k = "if to' = StepStatusSucceeded then Suc i else i"
  have fw: "forward_at ?k ((statuses e)[i := to'])"
    using run to' i len
    by (auto simp: running_at_def unfinished_def intro!: forward_at_advance forward_at_update)
  then have "?k \<le> length ((statuses e)[i := to'])" by (simp add: forward_at_def)
  then have "shape_ok d (Status e) ((statuses e)[i := to'])"
    using fw run by (auto simp: running_at_def)
  moreover have "step_ok x" using err by (intro step_transition_ok [OF y(1) tr]) auto
  ultimately have "good d (e\<lparr>Steps := (Steps e)[i := x]\<rparr>)"
    using run i y f by (intro good_update) (simp_all add: running_at_def)
  then show ?thesis using fw f run by (simp add: running_at_def)
qed

lemma running_step_wp:
  assumes run: "running_at (rs_def rs) i e" and i: "i < length (d_steps (rs_def rs))"
    and e: "exec s = e\<lparr>Steps := (Steps e)[i := y]\<rparr>"
    and y: "step_stamps_ok y" "sName y = sName (Steps e ! i)"
    and to': "to' \<in> {StepStatusRunning, StepStatusFailed, StepStatusSucceeded}"
    and can: "canTransitionStepStatus (sStatus y) to'"
    and err: "sError y = [] \<or> to' = StepStatusFailed" and sv: "saved_ok (rs_def rs) t0 s"
  shows "wp (transitionStep rs c i to') (\<lambda>err t. saved_ok (rs_def rs) t0 t
      \<and> running_at (rs_def rs) (if to' = StepStatusSucceeded then Suc i else i) (exec t)
      \<and> sStatus (Steps (exec t) ! i) = to' \<and> (\<forall>j. j \<noteq> i \<longrightarrow> Steps (exec t) ! j = Steps e ! j)
      \<and> (\<forall>x. err = Some x \<longrightarrow> infra_error x)) (crashed rs t0) s"
proof -
  note len = running_at_length [OF run]
  have at_i: "Steps (exec s) ! i = y" using e i len by simp
  have fin: "running_at (rs_def rs) (if to' = StepStatusSucceeded then Suc i else i)
      ((exec s)\<lparr>Steps := (Steps (exec s))[i := x]\<rparr>)"
    if "step_transition (Steps (exec s) ! i) to' now = Inr x" for now x
    using running_step [OF run i y _ to' err, of now x] that at_i e by simp
  show ?thesis
  proof (rule wp_mono [OF transitionStep_wp [OF _ _ sv]])
    show "good (rs_def rs) ((exec s)\<lparr>Steps := (Steps (exec s))[i := x]\<rparr>)"
      if "step_transition (Steps (exec s) ! i) to' now = Inr x" for now x
      using fin [OF that] by (simp add: running_at_def)
    show "i < length (Steps (exec s))" using e i len by simp
    show "canTransitionStepStatus (sStatus (Steps (exec s) ! i)) to'" using can at_i by simp
  qed (use fin e i len step_transition_fields(1) in auto)
qed

lemma runStep_wp:
  assumes "calm_run rs \<Longrightarrow> calm_step step" and "saved_ok (rs_def rs) t0 s"
  shows "wp (runStep rs c st eid i step data) (\<lambda>_ t. saved_ok (rs_def rs) t0 t \<and> (\<exists>k. exec t =
      (exec s)\<lparr>Steps := (Steps (exec s))[i := (Steps (exec s) ! i)\<lparr>sAttempts := k\<rparr>]\<rparr>)) (crashed rs t0) s"
  using runStep_quiet
proof (rule wp_of_frame)
  fix a t assume q: "quiet_step i s t"
  have sv: "saved_ok (rs_def rs) t0 t" using assms(2) q by (fastforce simp: saved_ok_def quiet_step_def)
  then show "saved_ok (rs_def rs) t0 t \<and> (\<exists>k. exec t =
      (exec s)\<lparr>Steps := (Steps (exec s))[i := (Steps (exec s) ! i)\<lparr>sAttempts := k\<rparr>]\<rparr>)"
    using q by (simp add: quiet_step_def)
  show "crashed rs t0 t" if "\<not> never_panics (runStep rs c st eid i step data)"
  proof -
    have "\<not> calm_run rs"
      using that assms(1) never_panics_run_attempts [of rs step]
      unfolding runStep_def calm_run_def by blast
    then show ?thesis using sv by (simp add: crashed_def)
  qed
qed

text \<open>The step the loop stands at, once marked \<open>RUNNING\<close>: its attempts and what follows them.\<close>

definition at_step :: "('d, 'u) run_state \<Rightarrow> 'd obs list \<Rightarrow> nat \<Rightarrow> ('d, 'u) machine \<Rightarrow> bool" where
  "at_step rs t0 i t \<longleftrightarrow> saved_ok (rs_def rs) t0 t \<and> running_at (rs_def rs) i (exec t)
     \<and> (i < length (Steps (exec t)) \<longrightarrow>
          sStatus (Steps (exec t) ! i) \<in> {StepStatusPending, StepStatusRunning})"

lemma at_step_simps [simp]:
  "at_step rs t0 i (s\<lparr>world := w\<rparr>) = at_step rs t0 i s"
  "at_step rs t0 i (s\<lparr>exec := (exec s)\<lparr>CurrentStep := n\<rparr>\<rparr>) = at_step rs t0 i s"
  "at_step rs t0 i (s\<lparr>world := w, exec := (exec s)\<lparr>CurrentStep := n\<rparr>\<rparr>) = at_step rs t0 i s"
  by (simp_all add: at_step_def)

lemma forward_step_wp:
  assumes at: "at_step rs t0 i s" and st: "sStatus (Steps (exec s) ! i) = StepStatusRunning"
    and i: "i < length (d_steps (rs_def rs))" and step: "calm_run rs \<Longrightarrow> calm_step step"
    and IH: "\<And>out t. at_step rs t0 (Suc i) t \<Longrightarrow> wp (k out) (returned rs t0) (crashed rs t0) t"
  shows "wp (bind_go (runStep rs c ste eid i step data) (\<lambda>(out, stepErr). case stepErr of
      Some x \<Rightarrow> seq_go (upd_step i (\<lambda>s. s\<lparr>sError := Error_msg x\<rparr>))
        (bind_go (transitionStep rs c i StepStatusFailed) (\<lambda>err. case err of
           Some y \<Rightarrow> ret (Some y) | None \<Rightarrow> seq_go (set_CurrentStep []) (abort rs c i (Some x))))
    | None \<Rightarrow> seq_go (upd_step i (\<lambda>s. s\<lparr>sOutput := out\<rparr>))
        (bind_go (transitionStep rs c i StepStatusSucceeded) (\<lambda>err. case err of
           Some y \<Rightarrow> ret (Some y) | None \<Rightarrow> k out)))) (returned rs t0) (crashed rs t0) s"
proof -
  have run: "running_at (rs_def rs) i (exec s)" and sv: "saved_ok (rs_def rs) t0 s"
    using at by (simp_all add: at_step_def)
  note len = running_at_length [OF run]
  let ?s = "Steps (exec s) ! i"
  have ok: "step_ok ?s" using run i by (intro good_step) (simp_all add: running_at_def)
  have tr: "wp (transitionStep rs c i to') (\<lambda>err t. saved_ok (rs_def rs) t0 t
      \<and> running_at (rs_def rs) (if to' = StepStatusSucceeded then Suc i else i) (exec t)
      \<and> sStatus (Steps (exec t) ! i) = to' \<and> (\<forall>j. j \<noteq> i \<longrightarrow> Steps (exec t) ! j = Steps (exec s) ! j)
      \<and> (\<forall>x. err = Some x \<longrightarrow> infra_error x)) (crashed rs t0)
      (t\<lparr>exec := (exec s)\<lparr>Steps := (Steps (exec s))[i := ?s\<lparr>sAttempts := n, sOutput := out, sError := m\<rparr>]\<rparr>\<rparr>)"
    if "saved_ok (rs_def rs) t0 t" "to' = StepStatusFailed \<or> to' = StepStatusSucceeded \<and> m = []"
    for t n m out to'
    using run i _ _ _ _ _ _ _
    by (rule running_step_wp [where y = "?s\<lparr>sAttempts := n, sOutput := out, sError := m\<rparr>"])
       (use ok st that in \<open>auto simp: step_ok_def step_stamps_ok_def\<close>)
  have bad: "wp (bind_go (transitionStep rs c i StepStatusFailed) (\<lambda>err. case err of
      Some y \<Rightarrow> ret (Some y) | None \<Rightarrow> seq_go (set_CurrentStep []) (abort rs c i (Some x))))
      (returned rs t0) (crashed rs t0)
      (t\<lparr>exec := (exec s)\<lparr>Steps := (Steps (exec s))[i := ?s\<lparr>sAttempts := n, sError := Error_msg x\<rparr>]\<rparr>\<rparr>)"
    if "saved_ok (rs_def rs) t0 t" for t n x
  proof -
    have "?s\<lparr>sAttempts := n, sError := Error_msg x\<rparr>
        = ?s\<lparr>sAttempts := n, sOutput := sOutput ?s, sError := Error_msg x\<rparr>" by simp
    then show ?thesis
      unfolding wp_bind using tr [OF that, where to' = StepStatusFailed and m = "Error_msg x" and n = n
          and out = "sOutput ?s"]
      by (auto simp: wp_ret wp_seq wp_set_CurrentStep intro: returned_infra intro!: abort_returned_wp
          elim!: wp_mono split: option.split) (auto simp: running_at_def i intro: returned_infra)
  qed
  have good: "wp (bind_go (transitionStep rs c i StepStatusSucceeded) (\<lambda>err. case err of
      Some y \<Rightarrow> ret (Some y) | None \<Rightarrow> k out)) (returned rs t0) (crashed rs t0)
      (t\<lparr>exec := (exec s)\<lparr>Steps := (Steps (exec s))[i := ?s\<lparr>sAttempts := n, sOutput := out\<rparr>]\<rparr>\<rparr>)"
    if "saved_ok (rs_def rs) t0 t" for t n out
  proof -
    have m: "sError ?s = []" using ok st by (simp add: step_ok_def)
    then have "?s\<lparr>sAttempts := n, sOutput := out\<rparr> = ?s\<lparr>sAttempts := n, sOutput := out, sError := []\<rparr>"
      by simp
    moreover have "at_step rs t0 (Suc i) u"
      if "saved_ok (rs_def rs) t0 u" "running_at (rs_def rs) (Suc i) (exec u)"
        "\<forall>j. j \<noteq> i \<longrightarrow> Steps (exec u) ! j = Steps (exec s) ! j" for u
    proof -
      have "Suc i < length (Steps (exec s)) \<longrightarrow> statuses (exec s) ! Suc i = StepStatusPending"
        using run by (auto simp: running_at_def forward_at_def)
      then have "Suc i < length (Steps (exec u)) \<longrightarrow> sStatus (Steps (exec u) ! Suc i) = StepStatusPending"
        using that(3) running_at_length [OF that(2)] len by simp
      then show ?thesis using that by (simp add: at_step_def)
    qed
    ultimately show ?thesis
      unfolding wp_bind using tr [OF that, where to' = StepStatusSucceeded and m = "[]" and n = n and out = out]
      by (auto simp: wp_ret intro!: IH elim!: wp_mono split: option.split)
         (auto simp: running_at_def intro: returned_infra)
  qed
  show ?thesis
    unfolding wp_bind [of "runStep rs c ste eid i step data"]
    by (rule wp_mono [OF runStep_wp [OF step sv]])
       (use bad good i len in \<open>auto simp: wp_seq wp_upd_step split: option.split\<close>)
qed

lemma forward_wp:
  assumes "at_step rs t0 i s" and "steps = drop i (d_steps (rs_def rs))"
  shows "wp (forward rs c ste steps i data) (returned rs t0) (crashed rs t0) s"
  using assms
proof (induction steps arbitrary: i data s)
  case Nil
  have run: "running_at (rs_def rs) i (exec s)" and sv: "saved_ok (rs_def rs) t0 s"
    using Nil.prems by (simp_all add: at_step_def)
  have i: "i = length (Steps (exec s))" using running_at_length [OF run] Nil.prems by simp
  let ?s = "s\<lparr>exec := (exec s)\<lparr>CurrentStep := [], Output := data\<rparr>\<rparr>"
  have "wp (transitionExec rs c StatusCompleted) (\<lambda>err t. saved_ok (rs_def rs) t0 t
      \<and> good (rs_def rs) (exec t) \<and> Status (exec t) = StatusCompleted
      \<and> Error (exec t) = Error (exec ?s) \<and> Steps (exec t) = Steps (exec ?s)
      \<and> (\<forall>x. err = Some x \<longrightarrow> infra_error x)) (crashed rs t0) ?s"
  proof (rule transitionExec_wp)
    show "good (rs_def rs) e" if "exec_transition (exec ?s) StatusCompleted now = Inr e" for now e
      by (rule good_exec_transition [OF _ that, of _ "exec s"])
         (use run i in \<open>auto simp: running_at_def good_def header_ok_def\<close>)
  qed (use run sv in \<open>auto simp: running_at_def\<close>)
  then show ?case
    by (auto simp: wp_seq wp_upd_exec returned_def outcome_ok_def elim!: wp_mono split: option.split)
next
  case (Cons step rest)
  have run: "running_at (rs_def rs) i (exec s)" and sv: "saved_ok (rs_def rs) t0 s"
    using Cons.prems by (simp_all add: at_step_def)
  have i: "i < length (d_steps (rs_def rs))" and rest: "rest = drop (Suc i) (d_steps (rs_def rs))"
    and mem: "step \<in> set (d_steps (rs_def rs))"
    using Cons.prems(2) by (metis drop_all not_le list.distinct(1),
      metis drop_Suc tl_drop list.sel(3), metis in_set_dropD list.set_intros(1))
  have calm: "calm_step step" if "calm_run rs" using that mem by (auto simp: calm_run_def calm_def)
  note len = running_at_length [OF run]
  note ste = forward_step_wp [where k = "\<lambda>out. forward rs c ste rest (Suc i) out"
      and c = c and ste = ste and data = data, OF _ _ i calm
      Cons.IH [OF _ rest], unfolded wp_bind [of "runStep rs c ste eid i step data" for eid]]
  let ?s = "s\<lparr>world := tick (world s), exec := (exec s)\<lparr>CurrentStep := Name step\<rparr>\<rparr>"
  have start: "wp (transitionStep rs c i StepStatusRunning) (\<lambda>err t. at_step rs t0 i t
      \<and> sStatus (Steps (exec t) ! i) = StepStatusRunning \<and> (\<forall>x. err = Some x \<longrightarrow> infra_error x))
      (crashed rs t0) ?s" if pend: "sStatus (Steps (exec s) ! i) = StepStatusPending"
  proof -
    have ok: "step_ok (Steps (exec s) ! i)" using run i by (intro good_step) (simp_all add: running_at_def)
    have "wp (transitionStep rs c i StepStatusRunning) (\<lambda>err t. saved_ok (rs_def rs) t0 t
      \<and> running_at (rs_def rs) (if StepStatusRunning = StepStatusSucceeded then Suc i else i) (exec t)
      \<and> sStatus (Steps (exec t) ! i) = StepStatusRunning
      \<and> (\<forall>j. j \<noteq> i \<longrightarrow> Steps (exec t) ! j = Steps (exec ?s) ! j)
      \<and> (\<forall>x. err = Some x \<longrightarrow> infra_error x)) (crashed rs t0) ?s"
      by (rule running_step_wp [where y = "Steps (exec s) ! i"])
         (use run i sv ok pend in \<open>auto simp: step_ok_def\<close>)
    then show ?thesis by (rule wp_mono) (auto simp: at_step_def)
  qed
  have infra: "returned rs t0 (Some x) t" if "at_step rs t0 i t" "infra_error x" for x t
    using that by (auto simp: at_step_def running_at_def intro: returned_infra)
  have at: "at_step rs t0 i ?s" using Cons.prems(1) by simp
  show ?case
  proof (cases "ended (tick (world s)) c")
    case (Some e)
    then have "ended (tick (tick (world s))) c = Some e" by simp
    then show ?thesis
      using Some run sv i by (simp add: wp_simps abort_returned_wp)
  next
    case None
    have "sStatus (Steps (exec s) ! i) \<in> {StepStatusPending, StepStatusRunning}"
      using Cons.prems(1) i len by (simp add: at_step_def)
    then show ?thesis
      using None at i len
      by (auto simp: wp_bind wp_seq wp_in_world wp_ctx_Done wp_set_CurrentStep wp_step_at wp_gets wp_ret
          intro!: ste wp_mono [OF start] infra split: option.split)
  qed
qed

end
