(* ===== verification/Order_Saga.thy ===== *)
theory Order_Saga
  imports Engine_Quiet
begin

text \<open>
  A concrete saga in a concrete world, at which the hypotheses of the general properties are
  discharged: two steps, \<open>reserve\<close> and \<open>charge\<close>, each with a compensation, over the in-memory
  store; the second step and the first compensation succeed or fail as told.
\<close>

definition order_action :: "gerr option \<Rightarrow> (unit, unit) action_func" where
  "order_action err = (\<lambda>c x. ret (x, err))"

definition order_undo :: "gerr option \<Rightarrow> (unit, unit) compensate_func" where
  "order_undo err = (\<lambda>c x. ret err)"

definition order_saga :: "gerr option \<Rightarrow> gerr option \<Rightarrow> (unit, unit) definition_" where
  "order_saga charge_err undo_err =
     \<lparr>d_name = ''order'',
      d_steps =
        [Step ''reserve'' (Some (order_action None)) (Some (order_undo undo_err)) [],
         Step ''charge'' (Some (order_action charge_err)) (Some (order_undo None)) []],
      stepSet = [''reserve'' \<mapsto> True, ''charge'' \<mapsto> True], d_frozen = True,
      d_store = mem_store_ops, d_retryPolicy = NoRetry, d_timeout = 0, d_lockTTL = DefaultLockTTL,
      d_publisher = None, d_logger = None, d_metrics = None, d_tracer = None\<rparr>"

definition order_world :: "(unit, unit) world" where
  "order_world = \<lparr>clock = 0, ticks = (\<lambda>n. 1), cancel_at = (\<lambda>n. None), entropy = (\<lambda>i. Some 0),
     next_ref = 0, mem = mem_New, user = ()\<rparr>"

definition order_start :: "(unit, unit) definition_ \<Rightarrow> (unit, unit) machine" where
  "order_start d = \<lparr>exec = new_execution d ''e1'' None 0, trace = [], world = order_world\<rparr>"

lemma order_steps:
  "d_steps (order_saga f g) =
     [\<lparr>Name = ''reserve'', Action = Some (order_action None), Compensate = Some (order_undo g),
        step_retryPolicy = None, step_timeout = 0\<rparr>,
      \<lparr>Name = ''charge'', Action = Some (order_action f), Compensate = Some (order_undo None),
        step_retryPolicy = None, step_timeout = 0\<rparr>]"
  by (simp add: order_saga_def Step_def)

lemma mem_store_calm: "never_panics (Save mem_store_ops c e)" "calm_locker mem_locker"
proof -
  show "never_panics (Save mem_store_ops c e)"
    by (auto simp: never_panics_def mem_store_ops_def split: prod.split)
  have "never_panics (\<lambda>w. case mem_Acquire i own ttl now (mem w) of (ok, m) \<Rightarrow> (Ret (ok, None), w\<lparr>mem := m\<rparr>))"
    for i own ttl now by (auto simp: never_panics_def split: prod.split)
  then show "calm_locker mem_locker"
    unfolding calm_locker_def mem_locker_def
    by (auto intro!: calm_rules) (simp add: never_panics_def)
qed

lemma order_saga_calm: "calm (order_saga f g)"
proof -
  have "as_Locker mem_store_ops = Some l \<longrightarrow> calm_locker l" for l :: "(unit, unit) locker_ops"
    by (auto simp: mem_store_ops_def intro: mem_store_calm(2))
  then show ?thesis
    unfolding calm_def order_steps
    by (auto simp: order_saga_def calm_step_def calm_policy_def order_action_def order_undo_def
        NoRetry_def noRetryPolicy_def never_panics_ret mem_store_calm(1))
qed

section \<open>Evaluation of a run\<close>

text \<open>The defining equations that let the simplifier run the engine on a concrete saga.\<close>

lemmas control_eval = bind_go_def seq_go_def gets_def modify_def ret_def panic_def deferred_def on_panic_def
  recovered_def zoom_def

lemmas world_eval = in_world_def time_Now_def tick_def idgen_New_def rand_Read_def list_all_iff
  context_Cause_def ctx_Done_def ended_def withOperationID_def OperationID_def new_ref_def
  context_WithTimeoutCause_def timer_or_done_def

lemmas step_eval = step_at_def upd_step_def set_CurrentStep_def upd_exec_def emit_def
  transitionStep_def step_transition_def canTransitionStepStatus_def notifyStep_def publishAndLog_def
  runStep_def run_attempts.simps callAction_def run_action_def saga_expired_def retryPolicyFor_def
  sleepOrDone_def invokeCompensate_def

lemmas saga_eval = Execute_def Freeze_def new_execution_def new_step_execution_def store_Save_def resume_def
  resume_held_def startSpan_def start_timeout_def release_lock_def dispatch_def transitionExec_def
  exec_transition_def canTransitionStatus_def save_def notifyExec_def publish_def logEvent_def
  incEventCounter_def observeDuration_def resumeRunning_def abort_def finishCompensating_def compensate_def

lemmas engine_eval = control_eval world_eval step_eval saga_eval Let_def Step_def NoRetry_def noRetryPolicy_def
  order_start_def order_world_def order_action_def order_undo_def noopStore_def

text \<open>A saga without a store, whose only action is refused.\<close>

definition refused_saga :: "(unit, unit) definition_" where
  "refused_saga = \<lparr>d_name = ''refused'',
     d_steps = [Step ''charge'' (Some (order_action (Some Canceled))) None []],
     stepSet = [''charge'' \<mapsto> True], d_frozen = True, d_store = noopStore, d_retryPolicy = NoRetry,
     d_timeout = 0, d_lockTTL = DefaultLockTTL, d_publisher = None, d_logger = None, d_metrics = None,
     d_tracer = None\<rparr>"

lemma refused_saga_run:
  "\<exists>d' t. Execute refused_saga (Root 0) None (order_start refused_saga)
     = (Ret (Some (StepError ''charge'' (Some Canceled)), d'), t)"
  by (simp add: engine_eval refused_saga_def)

text \<open>The same with a policy of three attempts, with waits of five nanoseconds.\<close>

definition retried_saga :: "(unit, unit) definition_" where
  "retried_saga = refused_saga\<lparr>d_retryPolicy := FixedDelay 5 3\<rparr>"

end
