(* ===== verification/Crash_Safety.thy ===== *)
theory Crash_Safety
  imports Durable_Record Order_Saga
begin

text \<open>
  The invariant carried to the entry points: \<open>resumeRunning\<close>, \<open>resumeCompensating\<close>, \<open>dispatch\<close>,
  \<open>resume\<close> and \<open>Execute\<close>. From a good record (whatever crash left it) every record handed to the
  store is good, the error returned agrees with the execution, and nothing panics but a callback
  or the source of random bytes.
\<close>

section \<open>Where a record is taken up again\<close>

lemma find_failed_None: "find_failed n ss = None \<longleftrightarrow> (\<forall>s \<in> set ss. sStatus s \<noteq> StepStatusFailed)"
  by (induction ss arbitrary: n) auto

lemma find_failed_Some:
  "find_failed n ss = Some (j, s) \<Longrightarrow>
   n \<le> j \<and> j - n < length ss \<and> s = ss ! (j - n) \<and> sStatus s = StepStatusFailed"
proof (induction ss arbitrary: n)
  case Nil
  then show ?case by simp
next
  case (Cons x ss)
  show ?case
  proof (cases "sStatus x = StepStatusFailed")
    case True
    then show ?thesis using Cons.prems by auto
  next
    case False
    then have IH: "Suc n \<le> j \<and> j - Suc n < length ss \<and> s = ss ! (j - Suc n) \<and> sStatus s = StepStatusFailed"
      by (intro Cons.IH) (use Cons.prems in simp)
    then have "Suc n \<le> j" by blast
    then have "j - n = Suc (j - Suc n)" by arith
    then show ?thesis using IH by (metis Suc_leD Suc_less_eq length_Cons nth_Cons_Suc)
  qed
qed

lemma skip_succeeded_fst:
  "fst (skip_succeeded n data ss) = n + length (takeWhile (\<lambda>s. sStatus s = StepStatusSucceeded) ss)"
  by (induction ss arbitrary: n data) auto

lemma skip_succeeded_snd:
  "snd (skip_succeeded n data ss) =
     (case takeWhile (\<lambda>s. sStatus s = StepStatusSucceeded) ss of [] \<Rightarrow> data | xs \<Rightarrow> sOutput (last xs))"
  by (induction ss arbitrary: n data) (auto split: list.split)

lemma length_takeWhile_at:
  assumes "k \<le> length xs" and "\<And>j. j < k \<Longrightarrow> P (xs ! j)" and "k < length xs \<Longrightarrow> \<not> P (xs ! k)"
  shows "length (takeWhile P xs) = k"
proof -
  have "takeWhile P xs = take k xs"
    by (rule takeWhile_eq_take_P_nth) (use assms in auto)
  then show ?thesis using assms(1) by simp
qed

lemma forward_at_start:
  assumes "forward_at k (statuses e)"
  shows "fst (skip_succeeded 0 data (Steps e)) = k"
proof -
  have "length (takeWhile (\<lambda>s. sStatus s = StepStatusSucceeded) (Steps e)) = k"
    using assms by (intro length_takeWhile_at) (auto simp: forward_at_def unfinished_def)
  then show ?thesis by (simp add: skip_succeeded_fst)
qed

lemma boundary_none:
  "(\<forall>s \<in> set ss. \<not> touched (sStatus s)) \<Longrightarrow> compensation_boundary i f ss = f"
  by (induction ss arbitrary: i) (auto simp: touched_def)

lemma boundary_prefix:
  "(\<forall>s \<in> set as. touched (sStatus s)) \<Longrightarrow> (\<forall>s \<in> set bs. \<not> touched (sStatus s)) \<Longrightarrow>
   compensation_boundary i f (as @ bs) = (if as = [] then f else i + length as)"
proof (induction as arbitrary: i f)
  case Nil
  then show ?case by (simp add: boundary_none)
next
  case (Cons a as)
  then show ?case by (auto simp: touched_def)
qed

lemma backward_at_boundary:
  assumes "backward_at k (statuses e)"
  shows "compensation_boundary 0 0 (Steps e) = k"
proof -
  have k: "k \<le> length (Steps e)" using assms by (simp add: backward_at_def)
  have "\<forall>s \<in> set (take k (Steps e)). touched (sStatus s)"
    using assms k by (auto simp: backward_at_def in_set_conv_nth)
  moreover have late: "\<not> touched (sStatus (Steps e ! j))" if "k \<le> j" "j < length (Steps e)" for j
    using assms that by (cases "j = k") (auto simp: backward_at_def unfinished_def touched_def)
  have "\<forall>s \<in> set (drop k (Steps e)). \<not> touched (sStatus s)"
  proof
    fix s assume "s \<in> set (drop k (Steps e))"
    then obtain j where "j < length (Steps e) - k" "s = Steps e ! (k + j)"
      by (auto simp: in_set_conv_nth)
    then show "\<not> touched (sStatus s)" using late [of "k + j"] by simp
  qed
  ultimately show ?thesis
    using boundary_prefix [of "take k (Steps e)" "drop k (Steps e)" 0 0] k by auto
qed

section \<open>Driving a record on\<close>

lemma resumeRunning_wp:
  assumes good: "good (rs_def rs) (exec s)" and st: "Status (exec s) = StatusRunning"
    and sv: "saved_ok (rs_def rs) t0 s"
  shows "wp (resumeRunning rs c ste) (returned rs t0) (crashed rs t0) s"
proof -
  obtain k where fw: "forward_at k (statuses (exec s))"
    using good st by (auto simp: good_def record_ok_def)
  have run: "running_at (rs_def rs) k (exec s)" using good st fw by (simp add: running_at_def)
  have kind: "unfinished (sStatus (Steps (exec s) ! k))" if "k < length (Steps (exec s))"
    using fw that by (simp add: forward_at_def)
  show ?thesis
  proof (cases "find_failed 0 (Steps (exec s))")
    case (Some p)
    obtain i x where p: "p = (i, x)" by (cases p)
    have i: "i < length (Steps (exec s))" "sStatus (Steps (exec s) ! i) = StepStatusFailed"
      using find_failed_Some [of 0 _ i x] Some p by auto
    have "i = k"
      using fw i by (cases i k rule: linorder_cases) (auto simp: forward_at_def)
    then show ?thesis
      using Some p run sv i(1) running_at_length [OF run] by (auto simp: resumeRunning_def wp_bind wp_gets wp_errors_New
          intro!: abort_returned_wp)
  next
    case None
    obtain data where sk: "skip_succeeded 0 (Input (exec s)) (Steps (exec s)) = (k, data)"
      using forward_at_start [OF fw] by (metis surjective_pairing)
    have "sStatus (Steps (exec s) ! k) \<in> {StepStatusPending, StepStatusRunning}"
      if "k < length (Steps (exec s))"
    proof -
      have "Steps (exec s) ! k \<in> set (Steps (exec s))" using that by simp
      then show ?thesis using None kind [OF that] by (auto simp: find_failed_None unfinished_def)
    qed
    then have "at_step rs t0 k s" using run sv by (simp add: at_step_def)
    then show ?thesis
      using None sk by (simp add: resumeRunning_def wp_bind wp_gets forward_wp)
  qed
qed

lemma resumeCompensating_wp:
  assumes good: "good (rs_def rs) (exec s)" and st: "Status (exec s) = StatusCompensating"
    and sv: "saved_ok (rs_def rs) t0 s"
  shows "wp (resumeCompensating rs c) (returned rs t0) (crashed rs t0) s"
proof -
  obtain k where bw: "backward_at k (statuses (exec s))"
    using good st by (auto simp: good_def record_ok_def undo_shape_def)
  let ?s = "s\<lparr>world := (world s)\<lparr>next_ref := Suc (next_ref (world s))\<rparr>\<rparr>"
  let ?oe = "ErrorString (next_ref (world s)) (Error (exec s))"
  have "unwinding (rs_def rs) k k (Error_msg ?oe) (exec ?s)"
    using unwinding_start [OF good st bw] by simp
  then have "wp (finishCompensating rs c k ?oe) (returned rs t0) (crashed rs t0) ?s"
    by (rule wp_mono [OF finishCompensating_wp]) (use sv in \<open>auto intro: failed_at_returned\<close>)
  then show ?thesis
    using backward_at_boundary [OF bw]
    by (simp add: resumeCompensating_def wp_bind wp_gets wp_errors_New)
qed

section \<open>Around the run: spans, deadlines, leases\<close>

text \<open>
  The result of taking up a record \<open>e0\<close>: a settled one is left as it is, any other is driven
  to an outcome.
\<close>

definition resumed :: "('d, 'u) definition_ \<Rightarrow> 'd execution \<Rightarrow> 'd obs list \<Rightarrow> gerr option
    \<Rightarrow> ('d, 'u) machine \<Rightarrow> bool" where
  "resumed d e0 t0 err t \<longleftrightarrow> saved_ok d t0 t \<and> good d (exec t)
     \<and> (if IsTerminal (Status e0) then exec t = e0 \<and> (\<forall>x. err = Some x \<longrightarrow> infra_error x)
        else outcome_ok err (exec t))"

lemma resumed_quiet: "resumed d e0 t0 err t \<Longrightarrow> quiet t u \<Longrightarrow> resumed d e0 t0 err u"
  using saved_ok_quiet [of d t0 t u] by (simp add: resumed_def quiet_def split: if_splits)

lemma resumed_returned:
  "\<not> IsTerminal (Status e0) \<Longrightarrow> returned rs t0 err t \<Longrightarrow> resumed (rs_def rs) e0 t0 err t"
  by (simp add: resumed_def returned_def)

lemma dispatch_wp:
  assumes good: "good (rs_def rs) (exec s)" and sv: "saved_ok (rs_def rs) t0 s"
  shows "wp (dispatch rs c ste) (resumed (rs_def rs) (exec s) t0) (crashed rs t0) s"
proof (cases "IsTerminal (Status (exec s))")
  case True
  then show ?thesis
    using assms by (simp add: dispatch_def wp_bind wp_gets wp_ret resumed_def insert_commute)
next
  case False
  note drv = resumed_returned [OF False]
  have "\<forall>x. Status (exec s) \<noteq> OtherStatus x"
    using good by (auto simp: good_def record_ok_def)
  then consider "Status (exec s) = StatusCompensating" | "Status (exec s) = StatusRunning"
    | "Status (exec s) = StatusPending"
    using False by (cases "Status (exec s)") auto
  then show ?thesis
  proof cases
    case 1
    then show ?thesis
      by (auto simp: dispatch_def wp_bind wp_gets intro!: drv
          wp_mono [OF resumeCompensating_wp [OF good _ sv]])
  next
    case 2
    then show ?thesis
      by (auto simp: dispatch_def wp_bind wp_gets intro!: drv
          wp_mono [OF resumeRunning_wp [OF good _ sv]])
  next
    case 3
    have start: "wp (transitionExec rs c StatusRunning) (\<lambda>err t. saved_ok (rs_def rs) t0 t
        \<and> good (rs_def rs) (exec t) \<and> Status (exec t) = StatusRunning
        \<and> Error (exec t) = Error (exec s) \<and> Steps (exec t) = Steps (exec s)
        \<and> (\<forall>x. err = Some x \<longrightarrow> infra_error x)) (crashed rs t0) s"
    proof (rule transitionExec_wp [OF _ sv])
      show "good (rs_def rs) e" if "exec_transition (exec s) StatusRunning now = Inr e" for now e
      proof (rule good_exec_transition [OF good that])
        have "shape_ok (rs_def rs) StatusPending (statuses (exec s))"
          using good 3 by (metis good_def record_ok_def)
        then have "forward_at 0 (statuses (exec s))" by (simp add: forward_at_def unfinished_def)
        then show "shape_ok (rs_def rs) StatusRunning (statuses (exec s))" by auto
        have "header_ok (exec s)" using good by (simp add: good_def)
        then show "Error (exec s) = [] \<or> StatusRunning \<in> {StatusFailed, StatusCompensating,
            StatusCompensated, StatusCompensationFailed}" "Output (exec s) = None \<or> StatusRunning = StatusCompleted"
          using 3 by (simp_all add: header_ok_def)
      qed simp_all
    qed (use 3 in simp)
    have "wp (case err of Some x \<Rightarrow> ret (Some x) | None \<Rightarrow> resumeRunning rs c ste)
        (resumed (rs_def rs) (exec s) t0) (crashed rs t0) t"
      if "saved_ok (rs_def rs) t0 t" "good (rs_def rs) (exec t)" "Status (exec t) = StatusRunning"
        "\<forall>x. err = Some x \<longrightarrow> infra_error x" for err t
      using that wp_mono [OF resumeRunning_wp [OF that(2,3,1)] drv]
      by (auto simp: wp_ret intro!: drv returned_infra split: option.split)
    then show ?thesis
      using 3 by (auto simp: dispatch_def wp_bind wp_gets intro!: wp_mono [OF start])
  qed
qed

lemma startSpan_wp:
  assumes "saved_ok (rs_def rs) t0 s"
  shows "wp (startSpan rs c n) (\<lambda>(c', fin) t. exec t = exec s \<and> saved_ok (rs_def rs) t0 t
     \<and> keeps quiet fin \<and> (calm_run rs \<longrightarrow> never_panics fin)) (crashed rs t0) s"
proof -
  have 1: "wp (startSpan rs c n) (\<lambda>_ t. exec t = exec s \<and> saved_ok (rs_def rs) t0 t) (crashed rs t0) s"
    using startSpan_quiet _ assms by (rule wp_quiet) (simp add: calm_run_def never_panics_startSpan)
  have 2: "wp (startSpan rs c n) (\<lambda>(c', fin) _. keeps quiet fin \<and> (calm_run rs \<longrightarrow> never_panics fin))
     (\<lambda>_. True) s"
  proof (cases "startSpan rs c n s")
    case (Pair r t)
    show ?thesis
    proof (cases r)
      case (Ret p)
      then show ?thesis
        using Pair startSpan_end_quiet startSpan_end_calm
        by (cases p) (auto simp: wp_def calm_run_def)
    qed (use Pair in \<open>simp add: wp_def\<close>)
  qed
  show ?thesis by (rule wp_mono [OF wp_conj [OF 1 2]]) auto
qed

lemma crashed_quiet: "crashed rs t0 s \<Longrightarrow> quiet s t \<Longrightarrow> crashed rs t0 t"
  using saved_ok_quiet by (auto simp: crashed_def)

lemma resumed_crashed:
  "resumed (rs_def rs) e0 t0 err t \<Longrightarrow> quiet t u \<Longrightarrow> \<not> calm_run rs \<Longrightarrow> crashed rs t0 u"
  using saved_ok_quiet [of "rs_def rs" t0 t u] by (simp add: resumed_def crashed_def)

text \<open>A deferred call that is quiet and panics only if a callback does changes nothing.\<close>

lemma deferred_quiet_wp:
  assumes "wp m (resumed (rs_def rs) e0 t0) (crashed rs t0) s"
    and d: "keeps quiet d" "calm_run rs \<Longrightarrow> never_panics d"
  shows "wp (deferred d m) (resumed (rs_def rs) e0 t0) (crashed rs t0) s"
proof -
  have "wp d (\<lambda>_. resumed (rs_def rs) e0 t0 err) (crashed rs t0) t"
    if "resumed (rs_def rs) e0 t0 err t" for err t
    using d(1) by (rule wp_of_frame) (use that d(2) resumed_quiet resumed_crashed in blast)+
  moreover have "wp d (\<lambda>_. crashed rs t0) (crashed rs t0) t" if "crashed rs t0 t" for t
    using d(1) by (rule wp_of_frame) (use that crashed_quiet in auto)
  ultimately show ?thesis
    unfolding wp_deferred by (intro wp_mono [OF assms(1)])
qed

lemma start_timeout_wp:
  assumes "\<And>p w. Q p (s\<lparr>world := w\<rparr>)"
  shows "wp (start_timeout d c) Q E s"
  using assms assms [of "(c, None)" "world s"] by (simp add: start_timeout_def Let_def wp_simps)

lemma release_crashed_wp:
  "crashed rs t0 s \<Longrightarrow> wp (release_lock rs c) (\<lambda>_. crashed rs t0) (crashed rs t0) s"
  by (rule wp_of_frame [OF release_lock_quiet]) (auto intro: crashed_quiet)

lemma resume_held_wp:
  assumes good: "good (rs_def rs) (exec s)" and sv: "saved_ok (rs_def rs) t0 s"
  shows "wp (resume_held rs c) (resumed (rs_def rs) (exec s) t0) (crashed rs t0) s"
proof -
  have run: "wp (deferred (release_lock rs c2) (deferred fin (dispatch rs c2 ste)))
      (resumed (rs_def rs) (exec s) t0) (crashed rs t0) t"
    if "exec t = exec s" "saved_ok (rs_def rs) t0 t" "keeps quiet fin" "calm_run rs \<longrightarrow> never_panics fin"
    for c2 fin ste t
    using dispatch_wp [of rs t t0 c2 ste] that good
    by (intro deferred_quiet_wp release_lock_quiet never_panics_release_lock) simp_all
  have "wp (bind_go (start_timeout (rs_def rs) c1) (\<lambda>(c2, ste).
        deferred (release_lock rs c2) (deferred fin (dispatch rs c2 ste))))
      (resumed (rs_def rs) (exec s) t0) (crashed rs t0) t"
    if "exec t = exec s" "saved_ok (rs_def rs) t0 t" "keeps quiet fin" "calm_run rs \<longrightarrow> never_panics fin"
    for c1 fin t
    unfolding wp_bind
    by (rule start_timeout_wp) (use that in \<open>auto intro!: run split: prod.split\<close>)
  then show ?thesis
    unfolding resume_held_def wp_bind [of "on_panic _ _"] wp_on_panic
    by (intro wp_mono [OF startSpan_wp [OF sv]]) (auto intro: release_crashed_wp split: prod.split)
qed

text \<open>The bytes of \<open>crypto/rand\<close> are there to be read.\<close>

definition entropy_ok :: "('d, 'u) world \<Rightarrow> bool" where
  "entropy_ok w \<longleftrightarrow> (\<forall>i. entropy w i \<noteq> None)"

lemma idgen_wp:
  "wp idgen_New (\<lambda>_ w'. \<exists>n. w' = w\<lparr>entropy := (\<lambda>i. entropy w (i + n))\<rparr>) (\<lambda>w'. w' = w \<and> \<not> entropy_ok w) w"
  by (auto simp: idgen_New_def rand_Read_def wp_simps list_all_iff entropy_ok_def)

definition stopped :: "('d, 'u) definition_ \<Rightarrow> bool \<Rightarrow> 'd obs list \<Rightarrow> ('d, 'u) machine \<Rightarrow> bool" where
  "stopped d random t0 t \<longleftrightarrow> (\<not> calm d \<or> \<not> random) \<and> saved_ok d t0 t"

lemma calm_resume_run:
  "calm d \<Longrightarrow> calm_run \<lparr>rs_def = d, locker = as_Locker (d_store d), lockOwner = own\<rparr>"
  by (auto simp: calm_run_def calm_def)

lemma resume_wp:
  assumes good: "good d (exec s)" and sv: "saved_ok d t0 s"
  shows "wp (resume d c) (resumed d (exec s) t0) (stopped d (entropy_ok (world s)) t0) s"
proof -
  let ?rs = "\<lambda>own. \<lparr>rs_def = d, locker = as_Locker (d_store d), lockOwner = own\<rparr>"
  have held: "wp (resume_held (?rs own) c) (resumed d (exec s) t0) (stopped d r t0) t"
    if "exec t = exec s" "saved_ok d t0 t" for own t r
    using resume_held_wp [of "?rs own" t t0 c] that good calm_resume_run [of d own]
    by (auto simp: stopped_def crashed_def elim!: wp_mono)
  show ?thesis
  proof (cases "as_Locker (d_store d)")
    case None
    then show ?thesis using held [of s "[]"] sv by (simp add: resume_def)
  next
    case (Some l)
    have acq: "wp (do_Acquire l c i own (d_lockTTL d)) (\<lambda>_ t. exec t = exec s \<and> saved_ok d t0 t)
        (stopped d r t0) t" if "exec t = exec s" "saved_ok d t0 t" for i own t r
      using do_Acquire_wp [of "?rs own" t0 t l c i own "d_lockTTL d"] that Some
        calm_resume_run [of d own]
      by (auto simp: stopped_def crashed_def calm_run_def elim!: wp_mono)
    have infra: "resumed d (exec s) t0 (Some x) t"
      if "infra_error x" "exec t = exec s" "saved_ok d t0 t" for x t
      using that good by (auto simp: resumed_def outcome_ok_def)
    have rest: "wp (bind_go (gets (\<lambda>s. ID (exec s))) (\<lambda>i. bind_go (do_Acquire l c i own (d_lockTTL d))
        (\<lambda>(acquired, err). case err of
            Some x \<Rightarrow> ret (Some (acquire_error i x))
          | None \<Rightarrow> if \<not> acquired then ret (Some (ExecutionLockedError i))
              else resume_held \<lparr>rs_def = d, locker = Some l, lockOwner = own\<rparr> c)))
        (resumed d (exec s) t0) (stopped d r t0) t"
      if "exec t = exec s" "saved_ok d t0 t" for own t r
      using that held [of _ own] Some
      by (auto simp: wp_bind wp_gets wp_ret intro!: wp_mono [OF acq] infra split: option.split prod.split)
    show ?thesis
      using sv by (auto simp: resume_def Some wp_bind [of "in_world idgen_New"] wp_in_world
          intro!: wp_mono [OF idgen_wp] rest) (auto simp: stopped_def)
  qed
qed

section \<open>Execute\<close>

text \<open>What \<open>Execute\<close> needs of the store for its second identifier: \<open>Save\<close> leaves \<open>crypto/rand\<close> usable.\<close>

definition Save_keeps_entropy :: "('d, 'u) definition_ \<Rightarrow> bool" where
  "Save_keeps_entropy d \<longleftrightarrow>
     (\<forall>c e w r w'. Save (d_store d) c e w = (r, w') \<longrightarrow> entropy_ok w \<longrightarrow> entropy_ok w')"

text \<open>Nothing panics and the random source works: the conditions under which \<open>Execute\<close> returns.\<close>

definition undisturbed :: "('d, 'u) definition_ \<Rightarrow> ('d, 'u) world \<Rightarrow> bool" where
  "undisturbed d w \<longleftrightarrow> calm d \<and> entropy_ok w \<and> Save_keeps_entropy d"

lemma store_Save_entropy_wp:
  "Save_keeps_entropy d \<Longrightarrow> entropy_ok (world s) \<Longrightarrow>
   wp (store_Save d c) (\<lambda>_ t. entropy_ok (world t)) (\<lambda>_. True) s"
  by (auto simp: store_Save_def wp_simps Save_keeps_entropy_def intro!: wp_callback)

definition executed :: "('d, 'u) definition_ \<Rightarrow> 'd obs list \<Rightarrow> gerr option \<times> ('d, 'u) definition_
    \<Rightarrow> ('d, 'u) machine \<Rightarrow> bool" where
  "executed d t0 p t \<longleftrightarrow> snd p = d \<and> saved_ok d t0 t \<and> good d (exec t) \<and> outcome_ok (fst p) (exec t)"

lemma Execute_wp:
  fixes d0 :: "('d, 'u) definition_"
  assumes sv: "saved_ok d t0 s" and d: "d = d0\<lparr>d_frozen := True\<rparr>"
  shows "wp (Execute d0 c input) (executed d t0)
    (\<lambda>t. saved_ok d t0 t \<and> \<not> undisturbed d (world s)) s"
    (is "wp _ _ ?E s")
proof -
  let ?ok = "undisturbed d (world s)"
  let ?rs = "\<lparr>rs_def = d, locker = None, lockOwner = []\<rparr>"
  have fz: "snd (Freeze d0) = d" by (simp add: Freeze_def modify_def d)
  have run: "wp (bind_go (resume d c) (\<lambda>err. ret (err, d))) (executed d t0) ?E t"
    if "exec t = new_execution d i input now" "saved_ok d t0 t" "?ok \<longrightarrow> entropy_ok (world t)" for t i now
  proof -
    have good: "good d (exec t)" using that by (simp add: good_new)
    have st: "\<not> IsTerminal (Status (exec t))" using that by (simp add: new_execution_def)
    show ?thesis
      unfolding wp_bind
      by (rule wp_mono [OF resume_wp [OF good that(2)]])
         (use st that(3) in \<open>auto simp: wp_ret executed_def resumed_def stopped_def undisturbed_def simp del: IsTerminal_iff\<close>)
  qed
  have save: "wp (store_Save d c) (\<lambda>err t. exec t = new_execution d i input now \<and> saved_ok d t0 t
      \<and> (\<forall>x. err = Some x \<longrightarrow> infra_error x) \<and> (?ok \<longrightarrow> entropy_ok (world t))) ?E t"
    if "exec t = new_execution d i input now" "saved_ok d t0 t" "?ok \<longrightarrow> entropy_ok (world t)" for t i now
  proof -
    have a: "wp (store_Save d c) (\<lambda>err u. exec u = exec t \<and> saved_ok d t0 u
        \<and> (\<forall>x. err = Some x \<longrightarrow> infra_error x)) (crashed ?rs t0) t"
      using store_Save_wp [of ?rs t t0 c] that by (simp add: good_new)
    have b: "wp (store_Save d c) (\<lambda>_ u. ?ok \<longrightarrow> entropy_ok (world u)) (\<lambda>_. True) t"
    proof (cases ?ok)
      case True
      then show ?thesis
        using store_Save_entropy_wp [of d t c] that by (auto simp: undisturbed_def elim: wp_mono)
    next
      case False
      then show ?thesis by (auto simp: wp_def split: prod.split outcome.split)
    qed
    show ?thesis
      by (rule wp_mono [OF wp_conj [OF a b]]) (use that in \<open>auto simp: crashed_def calm_run_def undisturbed_def\<close>)
  qed
  have infra: "executed d t0 (Some x, d) t"
    if "exec t = new_execution d i input now" "saved_ok d t0 t" "infra_error x" for x t i now
    using that by (auto simp: executed_def outcome_ok_def good_new)
  have "wp (bind_go (store_Save d c) (\<lambda>err. case err of Some x \<Rightarrow> ret (Some x, d)
        | None \<Rightarrow> bind_go (resume d c) (\<lambda>err. ret (err, d)))) (executed d t0) ?E t"
    if "exec t = new_execution d i input now" "saved_ok d t0 t" "?ok \<longrightarrow> entropy_ok (world t)" for t i now
    unfolding wp_bind [of "store_Save d c"]
    by (rule wp_mono [OF save [OF that]]) (auto simp: wp_ret intro: infra run split: option.split)
  then show ?thesis
    using sv unfolding Execute_def Let_def fz
    by (auto simp: wp_bind [of "in_world _"] wp_in_world wp_time_Now wp_seq wp_upd_exec entropy_ok_def undisturbed_def
        intro!: wp_mono [OF idgen_wp])
qed

lemma Freeze_def': "snd (Freeze d) = d\<lparr>d_frozen := True\<rparr>"
  by (simp add: Freeze_def modify_def)

lemma saved_ok_start: "saved_ok d (trace s) s"
  by (simp add: saved_ok_def)

lemma wp_final_both: "wp m (\<lambda>_. P) P s \<Longrightarrow> P (snd (m s))"
  by (simp add: wp_final)

text \<open>The first thing \<open>Execute\<close> hands to the store is the new execution.\<close>

lemma keeps_extends:
  assumes "keeps evolves m" and "\<exists>x \<in> set (saves_of (trace s)). P x"
  shows "wp m (\<lambda>_ t. \<exists>x \<in> set (saves_of (trace t)). P x) (\<lambda>t. \<exists>x \<in> set (saves_of (trace t)). P x) s"
  using assms(1) by (rule wp_of_frame) (use assms(2) in \<open>auto simp: evolves_def\<close>)

lemma Execute_first_save:
  assumes "entropy_ok (world s)"
  shows "\<exists>e \<in> set (saves_of (trace (snd (Execute d c input s)))).
     \<exists>i now. e = new_execution (snd (Freeze d)) i input now"
proof -
  let ?d = "snd (Freeze d)"
  let ?P = "\<lambda>t. \<exists>e \<in> set (saves_of (trace t)). \<exists>i now. e = new_execution ?d i input now"
  have rest: "wp (bind_go (resume ?d c) (\<lambda>err. ret (err, ?d))) (\<lambda>_. ?P) ?P t" if "?P t" for t
    unfolding wp_bind by (rule wp_mono [OF keeps_extends [OF resume_evolves that]]) (simp_all add: wp_ret)
  have save: "wp (store_Save ?d c) (\<lambda>_. ?P) ?P t" if "exec t = new_execution ?d i input now" for t i now
    using that by (auto simp: store_Save_def wp_simps intro!: wp_callback)
  have "wp (bind_go (store_Save ?d c) (\<lambda>err. case err of Some x \<Rightarrow> ret (Some x, ?d)
      | None \<Rightarrow> bind_go (resume ?d c) (\<lambda>err. ret (err, ?d)))) (\<lambda>_. ?P) ?P t"
    if "exec t = new_execution ?d i input now" for t i now
    unfolding wp_bind [of "store_Save ?d c"]
    by (rule wp_mono [OF save [OF that]]) (auto simp: wp_ret intro: rest split: option.split)
  then have "wp (Execute d c input) (\<lambda>_. ?P) ?P s"
    using assms unfolding Execute_def Let_def
    by (auto simp: wp_bind [of "in_world _"] wp_in_world wp_time_Now wp_seq wp_upd_exec entropy_ok_def
        intro!: wp_mono [OF idgen_wp])
  then show ?thesis by (rule wp_final_both)
qed

lemma order_undisturbed: "undisturbed (order_saga f g) order_world"
proof -
  have "Save_keeps_entropy (order_saga f g)"
    by (auto simp: Save_keeps_entropy_def order_saga_def mem_store_ops_def entropy_ok_def split: prod.splits)
  then show ?thesis
    by (simp add: undisturbed_def order_saga_calm entropy_ok_def order_world_def)
qed

lemma order_frozen: "snd (Freeze (order_saga f g)) = order_saga f g"
  by (simp add: Freeze_def' order_saga_def)

lemma Execute_ret:
  assumes "undisturbed (snd (Freeze d)) (world s)"
  shows "\<exists>err t. Execute d c input s = (Ret (err, snd (Freeze d)), t)"
proof -
  have "wp (Execute d c input) (executed (snd (Freeze d)) (trace s)) (\<lambda>_. False) s"
    by (rule wp_mono [OF Execute_wp [OF saved_ok_start Freeze_def']]) (use assms in simp_all)
  from wp_no_panic [OF this] show ?thesis by (metis executed_def prod.collapse)
qed

lemma resume_ret:
  assumes "good d (exec s)" and "calm d" and "entropy_ok (world s)"
  shows "\<exists>err t. resume d c s = (Ret err, t) \<and> resumed d (exec s) (trace s) err t"
proof -
  have "wp (resume d c) (resumed d (exec s) (trace s)) (\<lambda>_. False) s"
    by (rule wp_mono [OF resume_wp [OF assms(1) saved_ok_start]]) (use assms in \<open>simp_all add: stopped_def\<close>)
  from wp_no_panic [OF this] show ?thesis by metis
qed

section \<open>The properties\<close>

text \<open>
  C1: whatever the definition, the callbacks, the store and the way the call ends, every record
  that \<open>Execute\<close> hands to the store is good: the statuses form one of the shapes the state machine
  allows, the timestamps agree with them, and no failure message stands on a step that has not
  failed. So whatever moment the process dies at, the record found afterwards is good.
\<close>

theorem execute_saves_good_records:
  "\<exists>tr. trace (snd (Execute d c input s)) = trace s @ tr
     \<and> list_all (good (snd (Freeze d))) (saves_of tr)"
proof -
  have "saved_ok (snd (Freeze d)) (trace s) (snd (Execute d c input s))"
    by (rule wp_final_both, rule wp_mono [OF Execute_wp [OF saved_ok_start Freeze_def']])
       (simp_all add: executed_def)
  then show ?thesis by (auto simp: saved_ok_def list_all_iff)
qed

text \<open>
  C3: when \<open>Execute\<close> returns, its error and the execution agree: no error means \<open>COMPLETED\<close>; an
  error is either one of persisting or locking, or the saga has ended \<open>FAILED\<close> or \<open>COMPENSATED\<close> and
  the error is the original failure whose text the record holds, or it has ended
  \<open>COMPENSATION_FAILED\<close> and the error wraps that failure together with \<open>ErrCompensationFailed\<close>. The
  definition is frozen and the record left is good.
\<close>

theorem execute_outcome:
  assumes "Execute d c input s = (Ret (err, d'), t)"
  shows "d' = snd (Freeze d) \<and> good d' (exec t)
    \<and> (case err of
        None \<Rightarrow> Status (exec t) = StatusCompleted
      | Some x \<Rightarrow> infra_error x
          \<or> Status (exec t) \<in> {StatusFailed, StatusCompensated} \<and> Error (exec t) = Error_msg x
          \<or> (\<exists>oe. Status (exec t) = StatusCompensationFailed \<and> Error (exec t) = Error_msg oe
               \<and> x = compensation_error oe))"
proof -
  have "executed (snd (Freeze d)) (trace s) (err, d') t"
    by (rule wp_RetD [OF Execute_wp [OF saved_ok_start Freeze_def'] assms])
  then show ?thesis
    by (auto simp: executed_def outcome_ok_def failed_with_def split: option.splits)
qed

theorem execute_outcome_witness:
  "\<exists>err t. Execute (order_saga None None) (Root 0) None (order_start (order_saga None None))
       = (Ret (err, order_saga None None), t) \<and> good (order_saga None None) (exec t)
     \<and> (err = None \<longrightarrow> Status (exec t) = StatusCompleted)"
proof -
  let ?d = "order_saga None None" and ?s = "order_start (order_saga None None)"
  have "undisturbed (snd (Freeze ?d)) (world ?s)"
    by (simp add: order_frozen order_start_def order_undisturbed)
  then obtain err t where r: "Execute ?d (Root 0) None ?s = (Ret (err, ?d), t)"
    using Execute_ret [of ?d ?s "Root 0" None] by (auto simp: order_frozen)
  show ?thesis using execute_outcome [OF r] r by (auto split: option.splits)
qed

text \<open>
  C12: \<open>Execute\<close> returns (the engine neither panics nor runs for ever) when no callback panics,
  whatever errors the callbacks return and whenever contexts end. In particular no transition it
  asks for is one the tables refuse, and no index is out of range.
\<close>

theorem execute_returns:
  assumes "undisturbed (snd (Freeze d)) (world s)"
  shows "\<exists>err t. Execute d c input s = (Ret (err, snd (Freeze d)), t)"
  using assms by (rule Execute_ret)

theorem execute_returns_witness:
  "\<exists>err t. Execute (order_saga None None) (Root 0) None (order_start (order_saga None None))
     = (Ret (err, order_saga None None), t)"
proof -
  have "undisturbed (snd (Freeze (order_saga None None))) (world (order_start (order_saga None None)))"
    by (simp add: order_frozen order_start_def order_undisturbed)
  from execute_returns [OF this, of "Root 0" None] show ?thesis by (simp add: order_frozen)
qed



text \<open>
  C7: crash recovery. Take any record that a run of \<open>Execute\<close> had handed to the store, the last
  one before the process died for instance. Resuming it, at any later time and under any context,
  returns when no callback panics, and leaves the execution settled, unless persisting or locking
  failed again; and what it leaves is good, so this can be repeated.
\<close>

theorem crash_recovery:
  assumes "e \<in> set (saves_of (trace (snd (Execute d c input s))))" and "trace s = []"
    and "exec s2 = e" and "calm (snd (Freeze d))" and "entropy_ok (world s2)"
  shows "\<exists>err t. resume (snd (Freeze d)) c2 s2 = (Ret err, t) \<and> good (snd (Freeze d)) (exec t)
    \<and> (IsTerminal (Status (exec t)) \<or> (\<exists>x. err = Some x \<and> infra_error x))"
proof -
  let ?d = "snd (Freeze d)"
  have "saved_ok ?d (trace s) (snd (Execute d c input s))"
    by (rule wp_final_both, rule wp_mono [OF Execute_wp [OF saved_ok_start Freeze_def']])
       (simp_all add: executed_def)
  then have "good ?d (exec s2)" using assms(1-3) by (auto simp: saved_ok_def)
  from resume_ret [OF this assms(4,5)] show ?thesis
    by (fastforce simp: resumed_def outcome_ok_def failed_with_def split: option.splits if_splits)
qed

theorem crash_recovery_witness:
  "\<exists>e err t. e \<in> set (saves_of (trace (snd (Execute (order_saga None None) (Root 0) None
       (order_start (order_saga None None))))))
     \<and> resume (order_saga None None) (Root 0) ((order_start (order_saga None None))\<lparr>exec := e\<rparr>) = (Ret err, t)
     \<and> good (order_saga None None) (exec t)"
proof -
  let ?d = "order_saga None None" and ?s = "order_start (order_saga None None)"
  have ent: "entropy_ok (world ?s)" by (simp add: order_start_def order_world_def entropy_ok_def)
  obtain e where e: "e \<in> set (saves_of (trace (snd (Execute ?d (Root 0) None ?s))))"
    using Execute_first_save [OF ent] by blast
  have tr: "trace ?s = []" by (simp add: order_start_def)
  have x: "exec (?s\<lparr>exec := e\<rparr>) = e" "calm (snd (Freeze ?d))" "entropy_ok (world (?s\<lparr>exec := e\<rparr>))"
    using ent by (simp_all add: order_frozen order_saga_calm)
  show ?thesis
    using crash_recovery [OF e tr x, of "Root 0"] e unfolding order_frozen by blast
qed

end
