(* ===== verification/Recovery_Properties.thy ===== *)
theory Recovery_Properties
  imports Recovery Crash_Safety "HOL-Library.Multiset"
begin

text \<open>
  What \<open>Recover\<close> promises: the order of its work does not depend on the order of the listing,
  every listed execution gets one result, and each execution whose saga is known is settled
  unless it is skipped or cannot be locked or persisted.
\<close>

section \<open>The order\<close>

lemma recovery_order_set [simp]: "set (recovery_order es) = set es"
  by (simp add: recovery_order_def)

lemma recovery_order_mset: "mset (recovery_order es) = mset es"
  by (simp add: recovery_order_def)

text \<open>
  C28: recovery works oldest first, and its order is a function of the set of incomplete
  executions: two listings of the same executions, in whatever order the store enumerates its
  map, are recovery_ok in the same order, because the identifier breaks ties of the creation time.
\<close>

theorem recovery_order_deterministic:
  assumes "mset es = mset es'" and "distinct (map ID es)"
  shows "recovery_order es = recovery_order es' \<and> sorted (map CreatedAt (recovery_order es))
    \<and> mset (recovery_order es) = mset es"
proof -
  have inj: "inj_on recovery_key (set es)"
    using assms(2) by (auto simp: inj_on_def recovery_key_def distinct_map)
  have sorted: "sorted (map recovery_key (recovery_order es'))"
    by (simp add: recovery_order_def)
  have "sort_key recovery_key es = recovery_order es'"
    by (rule sort_key_inj_key_eq [OF _ inj sorted]) (simp add: recovery_order_mset assms(1))
  then have eq: "recovery_order es = recovery_order es'" by (simp add: recovery_order_def)
  have "sorted (map recovery_key (recovery_order es))" by (simp add: recovery_order_def)
  then have "sorted_wrt (\<lambda>x y. recovery_key x \<le> recovery_key y) (recovery_order es)"
    by (simp add: sorted_wrt_map)
  then have "sorted_wrt (\<lambda>x y. CreatedAt x \<le> CreatedAt y) (recovery_order es)"
    by (rule sorted_wrt_mono_rel [rotated]) (auto simp: recovery_key_def less_eq_prod_def)
  then have "sorted (map CreatedAt (recovery_order es))" by (simp add: sorted_wrt_map)
  then show ?thesis using eq recovery_order_mset [of es] by simp
qed

theorem recovery_order_deterministic_witness:
  "recovery_order [sample_execution ''b'' StatusRunning, sample_execution ''a'' StatusRunning]
   = recovery_order [sample_execution ''a'' StatusRunning, sample_execution ''b'' StatusRunning]"
  using recovery_order_deterministic
    [where es = "[sample_execution ''b'' StatusRunning, sample_execution ''a'' StatusRunning]"
      and es' = "[sample_execution ''a'' StatusRunning, sample_execution ''b'' StatusRunning]"]
  by (simp add: sample_execution_def)

section \<open>The results\<close>

definition recovery_ok :: "('d, 'u) recovery_manager \<Rightarrow> 'd execution \<Rightarrow> 'd recovery_result \<Rightarrow> bool" where
  "recovery_ok r e x \<longleftrightarrow> (case sagas r (SagaName e) of
      None \<Rightarrow> x = \<lparr>Execution = e, Err = Some (no_definition_error e)\<rparr>
    | Some d \<Rightarrow> if policy r = RecoverSkipInFlight \<and> hasInFlightStep e
        then x = \<lparr>Execution = e, Err = Some ErrRecoverySkipped\<rparr>
        else good d (Execution x) \<and> ID (Execution x) = ID e
          \<and> (IsTerminal (Status (Execution x)) \<or> (\<exists>y. Err x = Some y \<and> infra_error y)))"

definition recoverable :: "('d, 'u) recovery_manager \<Rightarrow> 'd execution \<Rightarrow> bool" where
  "recoverable r e \<longleftrightarrow> (case sagas r (SagaName e) of None \<Rightarrow> True | Some d \<Rightarrow> good d e)"

lemma resume_result_wp:
  assumes "good d e" and "exec s = e"
  shows "wp (resume d c) (\<lambda>err t. good d (exec t) \<and> ID (exec t) = ID e
      \<and> (IsTerminal (Status (exec t)) \<or> (\<exists>y. err = Some y \<and> infra_error y))) (\<lambda>_. True) s"
proof -
  have a: "wp (resume d c) (resumed d e (trace s)) (\<lambda>_. True) s"
    by (rule wp_mono [OF resume_wp [of d s "trace s"]]) (use assms in \<open>auto simp: saved_ok_start\<close>)
  have b: "wp (resume d c) (\<lambda>_ t. ID (exec t) = ID e) (\<lambda>_. True) s"
    by (rule wp_of_frame [OF resume_evolves])
       (use assms(2) in \<open>auto simp: evolves_def exec_evolves_def\<close>)
  show ?thesis
    by (rule wp_mono [OF wp_conj [OF a b]])
       (fastforce simp: resumed_def outcome_ok_def failed_with_def split: if_splits option.splits)+
qed

lemma recover_one_wp:
  assumes "recoverable r e"
  shows "wp (recover_one r c e) (\<lambda>x _. recovery_ok r e x) (\<lambda>_. True) s"
proof (cases "sagas r (SagaName e)")
  case None
  then show ?thesis by (simp add: recover_one_def wp_ret recovery_ok_def)
next
  case (Some d)
  have "good d e" using assms Some by (simp add: recoverable_def)
  then have "wp (resume d c) (\<lambda>err t. good d (exec t) \<and> ID (exec t) = ID e
      \<and> (IsTerminal (Status (exec t)) \<or> (\<exists>y. err = Some y \<and> infra_error y))) (\<lambda>_. True)
      (s\<lparr>exec := e\<rparr>)" by (rule resume_result_wp) simp
  then show ?thesis
    by (auto simp: recover_one_def Some recovery_ok_def wp_ret wp_seq wp_upd_exec wp_bind wp_gets
        simp del: IsTerminal_iff elim!: wp_mono)
qed

lemma recover_all_wp:
  "list_all (recoverable r) es \<Longrightarrow>
   wp (recover_all r c es) (\<lambda>xs _. list_all2 (recovery_ok r) es xs) (\<lambda>_. True) s"
proof (induction es arbitrary: s)
  case Nil
  then show ?case by (simp add: wp_ret)
next
  case (Cons e es)
  have one: "wp (recover_one r c e) (\<lambda>x _. recovery_ok r e x) (\<lambda>_. True) t" for t
    using Cons.prems by (intro recover_one_wp) simp
  have rest: "wp (recover_all r c es) (\<lambda>xs _. list_all2 (recovery_ok r) es xs) (\<lambda>_. True) t" for t
    using Cons.prems by (intro Cons.IH) simp
  show ?case
    by (auto simp: wp_bind wp_ret intro!: wp_mono [OF one] wp_mono [OF rest])
qed

text \<open>
  C20: recovery settles what it lists. If \<open>Recover\<close> returns results, there is one for each listed
  execution, in the recovery order. An execution of an unknown saga is reported as such and one
  with a step in flight is left untouched under \<open>RecoverSkipInFlight\<close>; any other ends in a
  terminal status with a good record, unless it could not be locked or persisted.
\<close>

theorem recover_settles:
  assumes "ListIncomplete (lister r) c (world s) = (Ret (Inr es), w)"
    and "list_all (recoverable r) es"
    and "Recover r c s = (Ret (Inr xs), t)"
  shows "list_all2 (recovery_ok r) (recovery_order es) xs"
proof -
  have all: "list_all (recoverable r) (recovery_order es)" using assms(2) by (simp add: list_all_iff)
  have "wp (Recover r c) (\<lambda>res _. \<forall>xs. res = Inr xs \<longrightarrow> list_all2 (recovery_ok r) (recovery_order es) xs)
      (\<lambda>_. True) s"
    using assms(1)
    by (auto simp: Recover_def wp_bind wp_in_world wp_def [of "ListIncomplete (lister r) c"] wp_ret
        intro!: wp_mono [OF recover_all_wp [OF all]])
  from wp_RetD [OF this assms(3)] show ?thesis by simp
qed

definition order_recovery :: "(unit, unit) recovery_manager" where
  "order_recovery = \<lparr>lister = mem_lister, sagas = [''order'' \<mapsto> order_saga None None],
     policy = RecoverAutomatically\<rparr>"

theorem recover_settles_witness:
  "\<exists>s t x. Recover order_recovery (Root 0) s = (Ret (Inr [x]), t)
     \<and> recovery_ok order_recovery (new_execution (order_saga None None) ''e1'' None 0) x"
proof -
  let ?d = "order_saga None None" and ?r = order_recovery
  let ?e = "new_execution ?d ''e1'' None 0 :: unit execution"
  let ?w = "order_world\<lparr>mem := snd (mem_Save (Some ?e) mem_New)\<rparr>"
  let ?s = "(order_start ?d)\<lparr>world := ?w\<rparr>"
  have list: "ListIncomplete (lister ?r) (Root 0) (world ?s) = (Ret (Inr [?e]), ?w)"
    by (simp add: order_recovery_def mem_lister_def gets_def mem_ListIncomplete_def mem_Save_def
        mem_New_def new_execution_def order_start_def)
  have name: "SagaName ?e = ''order''" by (simp add: new_execution_def order_saga_def)
  have saga: "sagas ?r (SagaName ?e) = Some ?d" "policy ?r = RecoverAutomatically"
    by (simp_all add: name order_recovery_def)
  have ok: "list_all (recoverable ?r) [?e]"
    using good_new [of ?d "''e1''" None 0] by (simp add: recoverable_def saga)
  have ent: "entropy_ok (world (?s\<lparr>exec := ?e\<rparr>))" by (simp add: order_world_def entropy_ok_def)
  have g: "good ?d (exec (?s\<lparr>exec := ?e\<rparr>))" by (simp add: good_new)
  obtain err t where res: "resume ?d (Root 0) (?s\<lparr>exec := ?e\<rparr>) = (Ret err, t)"
    using resume_ret [OF g order_saga_calm ent] by blast
  have one: "recover_one ?r (Root 0) ?e ?s = (Ret \<lparr>Execution = exec t, Err = err\<rparr>, t)"
    using res saga by (simp add: recover_one_def seq_go_def bind_go_def upd_exec_def modify_def gets_def ret_def)
  have w: "?s\<lparr>world := ?w\<rparr> = ?s" by simp
  have run: "Recover ?r (Root 0) ?s = (Ret (Inr [\<lparr>Execution = exec t, Err = err\<rparr>]), t)"
    using list one
    by (simp add: Recover_def bind_go_def in_world_def zoom_def ret_def recovery_order_def)
  have "list_all2 (recovery_ok ?r) (recovery_order [?e]) [\<lparr>Execution = exec t, Err = err\<rparr>]"
    by (rule recover_settles [OF list ok run])
  then have "recovery_ok ?r ?e \<lparr>Execution = exec t, Err = err\<rparr>" by (simp add: recovery_order_def)
  with run show ?thesis by blast
qed

end
