(* ===== verification/Engine_Calls.thy ===== *)
theory Engine_Calls
  imports Crash_Safety
begin

text \<open>
  The calls the engine makes to actions and compensations, read off the trace: which part of the
  engine makes none (\<open>without\<close>, a frame for every kind of observation), how often and in which
  order the rest makes them.
\<close>

section \<open>Parts of the engine without an observation\<close>

definition without :: "('d obs \<Rightarrow> bool) \<Rightarrow> ('d, 'u) machine \<Rightarrow> ('d, 'u) machine \<Rightarrow> bool" where
  "without P s t \<longleftrightarrow> (\<exists>tr. trace t = trace s @ tr \<and> list_all (\<lambda>x. \<not> P x) tr)"

interpretation wof: frame "without P" for P
  by unfold_locales (auto simp: without_def)

lemma in_world_without: "keeps (without P) (in_world m)"
  unfolding in_world_def by (rule wof.zoom_frame) (simp add: without_def)

lemma emit_without: "\<not> P x \<Longrightarrow> keeps (without P) (emit x)"
  unfolding emit_def by (rule wof.modify_frame) (simp add: without_def)

lemma upd_exec_without: "keeps (without P) (upd_exec f)"
  unfolding upd_exec_def by (rule wof.modify_frame) (simp add: without_def)

lemma upd_step_without: "keeps (without P) (upd_step i f)"
  unfolding upd_step_def by (rule upd_exec_without)

lemma set_CurrentStep_without: "keeps (without P) (set_CurrentStep n)"
  unfolding set_CurrentStep_def by (rule upd_exec_without)

lemma step_at_without: "keeps (without P) (step_at i)"
  unfolding step_at_def by (intro wof.frame_rules)

lemmas without_rules = wof.ret_frame wof.panic_frame wof.gets_frame wof.bind_frame wof.seq_frame
  wof.deferred_frame wof.on_panic_frame wof.recovered_frame wof.if_frame wof.option_frame
  wof.prod_frame in_world_without emit_without upd_exec_without upd_step_without
  set_CurrentStep_without step_at_without

text \<open>An observation of an observer, of the store, or of a lease.\<close>

fun is_observer :: "'d obs \<Rightarrow> bool" where
  "is_observer (ObsPublish ev) = True"
| "is_observer (ObsLog l m a) = True"
| "is_observer (ObsCounter n l) = True"
| "is_observer (ObsDuration n t l) = True"
| "is_observer (ObsSpanStart n) = True"
| "is_observer (ObsSpanEnd n) = True"
| "is_observer _ = False"

fun is_span :: "'d obs \<Rightarrow> bool" where
  "is_span (ObsSpanStart n) = True"
| "is_span (ObsSpanEnd n) = True"
| "is_span _ = False"

lemma span_observer [dest]: "is_span x \<Longrightarrow> is_observer x"
  by (cases x) auto

fun is_persist :: "'d obs \<Rightarrow> bool" where
  "is_persist (ObsSave e) = True"
| "is_persist (ObsSaved r) = True"
| "is_persist (ObsAcquire i own) = True"
| "is_persist (ObsAcquired b) = True"
| "is_persist _ = False"

lemma publish_without: "(\<And>x. is_observer x \<Longrightarrow> \<not> P x) \<Longrightarrow> keeps (without P) (publish rs c ev)"
  unfolding publish_def by (intro without_rules) simp_all

lemma logEvent_without: "(\<And>x. is_observer x \<Longrightarrow> \<not> P x) \<Longrightarrow> keeps (without P) (logEvent rs c ev)"
  unfolding logEvent_def Let_def by (intro without_rules) simp_all

lemma incEventCounter_without:
  "(\<And>x. is_observer x \<Longrightarrow> \<not> P x) \<Longrightarrow> keeps (without P) (incEventCounter rs ev)"
  unfolding incEventCounter_def Let_def by (intro without_rules) simp_all

lemma observeDuration_without:
  "(\<And>x. is_observer x \<Longrightarrow> \<not> P x) \<Longrightarrow> keeps (without P) (observeDuration rs n d ls)"
  unfolding observeDuration_def by (intro without_rules) simp_all

lemmas observer_without = publish_without logEvent_without incEventCounter_without
  observeDuration_without

lemma notifyExec_without:
  assumes "\<And>x. is_observer x \<Longrightarrow> \<not> P x"
  shows "keeps (without P) (notifyExec rs c to')"
  unfolding notifyExec_def Let_def
  by (intro without_rules observer_without assms)
     (auto split: option.split bool.split intro!: without_rules observer_without assms)

lemma notifyStep_without:
  assumes "\<And>x. is_observer x \<Longrightarrow> \<not> P x"
  shows "keeps (without P) (notifyStep rs c i to')"
  unfolding notifyStep_def publishAndLog_def Let_def
  by (intro without_rules observer_without assms)

lemma do_Acquire_without:
  "(\<And>x. is_persist x \<Longrightarrow> \<not> P x) \<Longrightarrow> keeps (without P) (do_Acquire l c i own ttl)"
  unfolding do_Acquire_def by (intro without_rules) simp_all

lemma store_Save_without:
  "(\<And>x. is_persist x \<Longrightarrow> \<not> P x) \<Longrightarrow> keeps (without P) (store_Save d c)"
  unfolding store_Save_def by (intro without_rules) simp_all

lemma save_without:
  "(\<And>x. is_persist x \<Longrightarrow> \<not> P x) \<Longrightarrow> keeps (without P) (save rs c)"
  unfolding save_def by (intro without_rules do_Acquire_without store_Save_without)

lemma transition_without:
  assumes "\<And>x. is_observer x \<or> is_persist x \<Longrightarrow> \<not> P x"
  shows "keeps (without P) (transitionExec rs c to')" "keeps (without P) (transitionStep rs c i ts)"
  unfolding transitionExec_def transitionStep_def
  by (intro without_rules; auto split: sum.split simp: assms
      intro!: without_rules save_without notifyExec_without notifyStep_without)+

lemma startSpan_without: "(\<And>x. is_span x \<Longrightarrow> \<not> P x) \<Longrightarrow> keeps (without P) (startSpan rs c n)"
  unfolding startSpan_def by (intro without_rules) simp_all

lemma startSpan_end_without:
  assumes "startSpan rs c n s = (Ret (c', fin), t)" and "\<And>x. is_span x \<Longrightarrow> \<not> P x"
  shows "keeps (without P) fin"
proof -
  have "wp (startSpan rs c n) (\<lambda>(c', fin) _. keeps (without P) fin) (\<lambda>_. True) s"
    by (auto simp: startSpan_def wp_simps assms(2) intro!: wp_callback without_rules split: option.split)
  from wp_RetD [OF this assms(1)] show ?thesis by simp
qed

lemma sleepOrDone_without: "(\<And>d. \<not> P (ObsSleep d)) \<Longrightarrow> keeps (without P) (sleepOrDone c delay)"
  unfolding sleepOrDone_def by (intro without_rules) simp_all

lemma saga_expired_without: "keeps (without P) (saga_expired c e)"
  unfolding saga_expired_def by (intro without_rules)

lemma all_compensated_without: "keeps (without P) (all_compensated i n)"
  by (induction n arbitrary: i) (auto intro!: without_rules)

lemma errors_New_without: "keeps (without P) (errors_New m)"
  unfolding errors_New_def by (intro without_rules)

lemma release_lock_without:
  "(\<And>i own. \<not> P (ObsRelease i own)) \<Longrightarrow> keeps (without P) (release_lock rs c)"
  unfolding release_lock_def by (intro without_rules) simp_all

text \<open>The calls of actions and compensations themselves.\<close>

fun is_callback :: "'d obs \<Rightarrow> bool" where
  "is_callback (ObsAction n op x) = True"
| "is_callback (ObsActionReturned n out err) = True"
| "is_callback (ObsCompensate n op x) = True"
| "is_callback (ObsCompensateReturned n err) = True"
| "is_callback (ObsSleep d) = True"
| "is_callback _ = False"

lemma with_span_without:
  assumes "\<And>x. is_span x \<Longrightarrow> \<not> P x" and "\<And>c'. keeps (without P) (f c')"
  shows "keeps (without P) (bind_go (startSpan rs c n) (\<lambda>(c', endSpan). deferred endSpan (f c')))"
proof (rule wof.bind_frame_ret [OF startSpan_without])
  show "\<not> P x" if "is_span x" for x using that by (rule assms(1))
  fix s p t assume r: "startSpan rs c n s = (Ret p, t)"
  obtain c' fin where p: "p = (c', fin)" by (cases p)
  have "keeps (without P) fin"
    using r assms(1) unfolding p by (rule startSpan_end_without)
  then show "keeps (without P) (case p of (c', endSpan) \<Rightarrow> deferred endSpan (f c'))"
    using p assms(2) by (simp add: wof.deferred_frame)
qed

lemma callAction_without:
  assumes "\<And>x. is_span x \<or> is_callback x \<Longrightarrow> \<not> P x"
  shows "keeps (without P) (callAction rs c opID step timeout data)"
  unfolding callAction_def Let_def run_action_def
  by (rule with_span_without) (auto intro!: without_rules simp: assms)

lemma run_attempts_without:
  assumes "\<And>x. is_span x \<or> is_callback x \<Longrightarrow> \<not> P x"
  shows "keeps (without P) (run_attempts rs c ste opID i step data attempt)"
proof (induction "nat (MaxAttempts (retryPolicyFor rs step) - attempt)" arbitrary: attempt
    rule: less_induct)
  case less
  have again: "keeps (without P) (run_attempts rs c ste opID i step data (attempt + 1))"
    if "\<not> (isNonRetryable x \<or> MaxAttempts (retryPolicyFor rs step) \<le> attempt)" for x
    using that by (intro less.hyps) simp
  have "keeps (without P) (sleepOrDone c delay)" for delay
    by (rule sleepOrDone_without) (simp add: assms)
  moreover have "keeps (without P) (callAction rs c opID step (step_timeout step) data)"
    by (rule callAction_without) (rule assms)
  ultimately show ?case
    by (subst run_attempts.simps)
       (intro without_rules saga_expired_without; (assumption | rule again; assumption))
qed

lemma invokeCompensate_without:
  assumes "\<And>x. is_span x \<or> is_callback x \<Longrightarrow> \<not> P x"
  shows "keeps (without P) (invokeCompensate rs c i f)"
  unfolding invokeCompensate_def Let_def
  by (rule wof.bind_frame [OF wof.gets_frame], rule with_span_without)
     (auto intro!: without_rules simp: assms)

section \<open>Calls\<close>

datatype call = CallAction string | CallCompensate string

fun calls_of :: "'d obs list \<Rightarrow> call list" where
  "calls_of [] = []"
| "calls_of (ObsAction n op x # tr) = CallAction n # calls_of tr"
| "calls_of (ObsCompensate n op x # tr) = CallCompensate n # calls_of tr"
| "calls_of (_ # tr) = calls_of tr"

fun is_call :: "'d obs \<Rightarrow> bool" where
  "is_call (ObsAction n op x) = True"
| "is_call (ObsCompensate n op x) = True"
| "is_call _ = False"

lemma calls_of_append [simp]: "calls_of (xs @ ys) = calls_of xs @ calls_of ys"
  by (induction xs rule: calls_of.induct) auto

lemma calls_of_none: "list_all (\<lambda>x. \<not> is_call x) tr \<Longrightarrow> calls_of tr = []"
  by (induction tr rule: calls_of.induct) auto

lemma not_call: "is_observer x \<or> is_persist x \<Longrightarrow> \<not> is_call x"
  by (cases x) auto

text \<open>Since \<open>s0\<close>, exactly the calls \<open>cs\<close> have been made.\<close>

definition made :: "('d, 'u) machine \<Rightarrow> call list \<Rightarrow> ('d, 'u) machine \<Rightarrow> bool" where
  "made s0 cs t \<longleftrightarrow> evolves s0 t \<and> (\<exists>tr. trace t = trace s0 @ tr \<and> calls_of tr = cs)"

lemma made_start: "made s [] s"
  by (simp add: made_def evo.refl)

lemma made_silent:
  assumes "made s0 cs s" and "evolves s t" and "without is_call s t"
  shows "made s0 cs t"
  using assms evo.trans [of s0 s t] by (auto simp: made_def without_def calls_of_none)

lemma silent_wp:
  assumes "keeps evolves m" and "keeps (without is_call) m" and "made s0 cs s"
  shows "wp m (\<lambda>_. made s0 cs) (made s0 cs) s"
proof -
  have "evolves s (snd (m s))" "without is_call s (snd (m s))"
    using assms(1,2) by (simp_all add: keeps_def)
  then show ?thesis using made_silent [OF assms(3)] by (simp add: wp_final)
qed

lemma silent_wp_mono:
  assumes "keeps evolves m" and "keeps (without is_call) m" and "made s0 cs s"
    and "\<And>a t. made s0 cs t \<Longrightarrow> Q a t" and "\<And>t. made s0 cs t \<Longrightarrow> E t"
  shows "wp m Q E s"
  by (rule wp_mono [OF silent_wp [OF assms(1-3)]]) (rule assms(4,5), assumption)+

text \<open>The same for a computation that makes at most the call \<open>c\<close>, and makes it if it returns.\<close>

lemma made_emit:
  "made s0 cs s \<Longrightarrow> made s0 (cs @ calls_of [x]) (s\<lparr>trace := trace s @ [x]\<rparr>)"
  using evo.trans [OF _ evolves_trace [of s "[x]"], of s0] by (auto simp: made_def)

lemma run_action_calls:
  assumes "made s0 cs s"
  shows "wp (run_action step c data) (\<lambda>_. made s0 (cs @ [CallAction (Name step)]))
    (\<lambda>t. made s0 cs t \<or> made s0 (cs @ [CallAction (Name step)]) t) s"
proof (cases "Action step")
  case None
  then show ?thesis using assms by (simp add: run_action_def wp_panic)
next
  case (Some f)
  let ?s = "s\<lparr>trace := trace s @ [ObsAction (Name step) (OperationID c) data]\<rparr>"
  have m: "made s0 (cs @ [CallAction (Name step)]) ?s"
    using made_emit [OF assms, of "ObsAction (Name step) (OperationID c) data"] by simp
  have "wp (bind_go (in_world (f c data)) (\<lambda>(out, err).
      seq_go (emit (ObsActionReturned (Name step) out err)) (ret (out, err))))
      (\<lambda>_. made s0 (cs @ [CallAction (Name step)])) (made s0 (cs @ [CallAction (Name step)])) ?s"
    by (rule silent_wp [OF _ _ m]) (intro evolve_rules without_rules; simp)+
  then show ?thesis by (auto simp: run_action_def Some wp_seq wp_emit elim: wp_mono)
qed

lemma with_span_calls:
  assumes "made s0 cs s"
    and "\<And>c' t. made s0 cs t \<Longrightarrow> wp (f c') (\<lambda>_. made s0 cs') (\<lambda>t. made s0 cs t \<or> made s0 cs' t) t"
  shows "wp (bind_go (startSpan rs c n) (\<lambda>(c', endSpan). deferred endSpan (f c')))
    (\<lambda>_. made s0 cs') (\<lambda>t. made s0 cs t \<or> made s0 cs' t) s"
proof -
  have fin: "keeps evolves fin \<and> keeps (without is_call) fin" if "startSpan rs c n s = (Ret (c', fin), t)" for c' fin t
    using startSpan_end_evolves [OF that] startSpan_end_without [OF that] not_call by blast
  have span: "wp (startSpan rs c n) (\<lambda>(c', fin) t. made s0 cs t \<and> keeps evolves fin \<and> keeps (without is_call) fin)
      (made s0 cs) s"
  proof -
    have "wp (startSpan rs c n) (\<lambda>_. made s0 cs) (made s0 cs) s"
      by (rule silent_wp [OF startSpan_evolves startSpan_without assms(1)]) (use not_call in blast)
    then show ?thesis
      using fin by (auto simp: wp_def split: prod.splits outcome.splits)
  qed
  have "wp (deferred fin (f c')) (\<lambda>_. made s0 cs') (\<lambda>t. made s0 cs t \<or> made s0 cs' t) t"
    if "made s0 cs t" "keeps evolves fin" "keeps (without is_call) fin" for c' fin t
    unfolding wp_deferred
    by (rule wp_mono [OF assms(2) [OF that(1)]])
       (auto intro: silent_wp_mono [OF that(2,3)])
  then show ?thesis
    unfolding wp_bind by (intro wp_mono [OF span]) (auto split: prod.split)
qed

lemma callAction_calls:
  assumes "made s0 cs s"
  shows "wp (callAction rs c opID step timeout data) (\<lambda>_. made s0 (cs @ [CallAction (Name step)]))
    (\<lambda>t. made s0 cs t \<or> made s0 (cs @ [CallAction (Name step)]) t) s"
  unfolding callAction_def
proof (rule with_span_calls [OF assms])
  fix c' and t :: "('a, 'b) machine"
  assume m: "made s0 cs t"
  have world: "made s0 cs' (u\<lparr>world := w\<rparr>)" if "made s0 cs' u" for cs' u w
    by (rule made_silent [OF that]) (simp_all add: without_def)
  show "wp (if sint timeout \<le> 0 then run_action step c' data
      else bind_go (in_world new_ref) (\<lambda>r. let stepTimeoutErr = StepTimeoutError r (Name step) timeout in
        bind_go (in_world (context_WithTimeoutCause c' timeout stepTimeoutErr)) (\<lambda>actionCtx.
        bind_go (run_action step actionCtx data) (\<lambda>(out, err).
        bind_go (in_world (context_Cause actionCtx)) (\<lambda>cause.
          if errors_Is_opt cause stepTimeoutErr then ret (None, Some stepTimeoutErr)
          else ret (out, err))))))
      (\<lambda>_. made s0 (cs @ [CallAction (Name step)]))
      (\<lambda>t. made s0 cs t \<or> made s0 (cs @ [CallAction (Name step)]) t) t"
    using run_action_calls [OF m] m
    by (auto simp: wp_bind wp_in_world wp_new_ref wp_WithTimeoutCause wp_context_Cause wp_ret Let_def
        intro!: wp_mono [OF run_action_calls] world)
qed

section \<open>How often an action is called\<close>

text \<open>\<open>tries rs step a\<close>: the attempts left when attempt \<open>a\<close> is about to be made.\<close>

definition tries :: "('d, 'u) run_state \<Rightarrow> ('d, 'u) step_definition \<Rightarrow> int \<Rightarrow> nat" where
  "tries rs step attempt = Suc (nat (MaxAttempts (retryPolicyFor rs step) - attempt))"

definition tried :: "('d, 'u) machine \<Rightarrow> call list \<Rightarrow> string \<Rightarrow> nat \<Rightarrow> nat \<Rightarrow> ('d, 'u) machine \<Rightarrow> bool"
  where
  "tried s0 cs n lo hi t \<longleftrightarrow> (\<exists>k. lo \<le> k \<and> k \<le> hi \<and> made s0 (cs @ replicate k (CallAction n)) t)"

lemma triedI: "made s0 (cs @ replicate k (CallAction n)) t \<Longrightarrow> lo \<le> k \<Longrightarrow> k \<le> hi \<Longrightarrow> tried s0 cs n lo hi t"
  by (auto simp: tried_def)

lemma tried_more:
  assumes "tried s0 (cs @ [CallAction n]) n lo hi t" and "lo' \<le> Suc lo" and "Suc hi \<le> hi'"
  shows "tried s0 cs n lo' hi' t"
proof -
  obtain k where "lo \<le> k" "k \<le> hi" "made s0 ((cs @ [CallAction n]) @ replicate k (CallAction n)) t"
    using assms(1) by (auto simp: tried_def)
  then show ?thesis using assms(2,3) by (intro triedI [of _ _ "Suc k"]) auto
qed

lemma run_attempts_calls:
  assumes "made s0 cs s"
  shows "wp (run_attempts rs c ste opID i step data attempt)
    (\<lambda>(out, err). tried s0 cs (Name step) (if err = None then 1 else 0) (tries rs step attempt))
    (tried s0 cs (Name step) 0 (tries rs step attempt)) s"
  using assms
proof (induction "nat (MaxAttempts (retryPolicyFor rs step) - attempt)" arbitrary: attempt cs s
    rule: less_induct)
  case less
  let ?A = "CallAction (Name step)" and ?E = "tried s0 cs (Name step) 0 (tries rs step attempt)"
  let ?Q = "\<lambda>(out, err). tried s0 cs (Name step) (if err = None then 1 else 0) (tries rs step attempt)"
  have one: "1 \<le> tries rs step attempt" by (simp add: tries_def)
  have zero: "?E t" if "made s0 cs t" for t using that by (intro triedI [of _ _ 0]) simp_all
  have once: "tried s0 cs (Name step) 0 (tries rs step attempt) t"
    "tried s0 cs (Name step) (Suc 0) (tries rs step attempt) t" if "made s0 (cs @ [?A]) t" for t
    using that one by (auto intro!: triedI [of _ _ 1])
  have world: "made s0 cs' (u\<lparr>world := w\<rparr>)" if "made s0 cs' u" for cs' u w
    by (rule made_silent [OF that]) (simp_all add: without_def)
  have again: "wp (run_attempts rs c ste opID i step data (attempt + 1)) ?Q ?E t"
    if "made s0 (cs @ [?A]) t" "\<not> MaxAttempts (retryPolicyFor rs step) \<le> attempt" for t
  proof (rule wp_mono [OF less.hyps [OF _ that(1)]])
    show "nat (MaxAttempts (retryPolicyFor rs step) - (attempt + 1))
        < nat (MaxAttempts (retryPolicyFor rs step) - attempt)"
      using that(2) by simp
    have more: "Suc (tries rs step (attempt + 1)) \<le> tries rs step attempt"
      using that(2) by (simp add: tries_def)
    show "?Q a t" if "(\<lambda>(out, err). tried s0 (cs @ [?A]) (Name step) (if err = None then 1 else 0)
        (tries rs step (attempt + 1))) a t" for a t
      using that by (auto intro: tried_more [OF _ _ more] split: prod.splits)
    show "?E t" if "tried s0 (cs @ [?A]) (Name step) 0 (tries rs step (attempt + 1)) t" for t
      using that by (rule tried_more [OF _ _ more]) simp
  qed
  have wait: "wp (sleepOrDone c delay) (\<lambda>_. made s0 (cs @ [?A])) ?E t" if "made s0 (cs @ [?A]) t" for delay t
    by (rule silent_wp_mono [OF sleepOrDone_evolves sleepOrDone_without that]) (auto intro: once)
  have delay: "wp (in_world (Delay (retryPolicyFor rs step) n)) (\<lambda>_. made s0 (cs @ [?A])) ?E t"
    if "made s0 (cs @ [?A]) t" for n t
    by (rule silent_wp_mono [OF in_world_evolves in_world_without that]) (auto intro: once)
  have expired: "wp (saga_expired c ste) (\<lambda>a t. made s0 (cs @ [?A]) t \<and> (a \<longrightarrow> ste \<noteq> None)) ?E t"
    if "made s0 (cs @ [?A]) t" for t
    using that world by (auto simp: saga_expired_def wp_simps split: option.split)
  have bump: "wp (upd_step i (\<lambda>s. s\<lparr>sAttempts := sAttempts s + 1\<rparr>)) (\<lambda>_. made s0 cs) ?E t"
    if "made s0 cs t" for t
    by (rule silent_wp_mono [OF bump_attempts_evolves upd_step_without that]) (auto intro: zero)
  have call: "wp (callAction rs c opID step (step_timeout step) data) (\<lambda>_. made s0 (cs @ [?A])) ?E t"
    if "made s0 cs t" for t
    by (rule wp_mono [OF callAction_calls [OF that]]) (auto intro: zero once)
  have failed: "wp (bind_go (in_world (ctx_Done c)) (\<lambda>done.
      if done then bind_go (in_world (context_Cause c)) (\<lambda>cause. ret (None, cause))
      else if isNonRetryable x \<or> MaxAttempts (retryPolicyFor rs step) \<le> attempt
      then ret (None, Some (StepError (Name step) (Some x)))
      else bind_go (in_world (Delay (retryPolicyFor rs step) (attempt + 1))) (\<lambda>delay.
        bind_go (sleepOrDone c delay) (\<lambda>waitErr. case waitErr of
            Some e \<Rightarrow> ret (None, Some e)
          | None \<Rightarrow> run_attempts rs c ste opID i step data (attempt + 1))))) ?Q ?E t"
    if m: "made s0 (cs @ [?A]) t" for x t
  proof -
    have go_on: "wp (case waitErr of Some e \<Rightarrow> ret (None, Some e)
        | None \<Rightarrow> run_attempts rs c ste opID i step data (attempt + 1)) ?Q ?E u"
      if "made s0 (cs @ [?A]) u" "\<not> MaxAttempts (retryPolicyFor rs step) \<le> attempt" for waitErr u
      using that again by (auto simp: wp_ret intro: once split: option.split)
    have "made s0 (cs @ [?A]) (t\<lparr>world := w\<rparr>)" for w using m by (rule world)
    then show ?thesis
      using go_on by (auto simp: wp_bind wp_in_world [of "ctx_Done c"] wp_in_world [of "context_Cause c"]
          wp_ctx_Done wp_context_Cause wp_ret intro!: wp_mono [OF delay] wp_mono [OF wait] intro: once)
  qed
  have after: "wp (bind_go (saga_expired c ste) (\<lambda>expired.
      if expired then ret (None, ste)
      else (case err of
          None \<Rightarrow> ret (out, None)
        | Some x \<Rightarrow> bind_go (in_world (ctx_Done c)) (\<lambda>done.
            if done then bind_go (in_world (context_Cause c)) (\<lambda>cause. ret (None, cause))
            else if isNonRetryable x \<or> MaxAttempts (retryPolicyFor rs step) \<le> attempt
            then ret (None, Some (StepError (Name step) (Some x)))
            else bind_go (in_world (Delay (retryPolicyFor rs step) (attempt + 1))) (\<lambda>delay.
              bind_go (sleepOrDone c delay) (\<lambda>waitErr. case waitErr of
                  Some e \<Rightarrow> ret (None, Some e)
                | None \<Rightarrow> run_attempts rs c ste opID i step data (attempt + 1))))))) ?Q ?E t"
    if m: "made s0 (cs @ [?A]) t" for out err t
    unfolding wp_bind [of "saga_expired c ste"]
  proof (rule wp_mono [OF expired [OF m]], elim conjE)
    fix e u
    assume u: "made s0 (cs @ [?A]) u" and e: "e \<longrightarrow> ste \<noteq> None"
    show "wp (if e then ret (None, ste)
      else (case err of
          None \<Rightarrow> ret (out, None)
        | Some x \<Rightarrow> bind_go (in_world (ctx_Done c)) (\<lambda>done.
            if done then bind_go (in_world (context_Cause c)) (\<lambda>cause. ret (None, cause))
            else if isNonRetryable x \<or> MaxAttempts (retryPolicyFor rs step) \<le> attempt
            then ret (None, Some (StepError (Name step) (Some x)))
            else bind_go (in_world (Delay (retryPolicyFor rs step) (attempt + 1))) (\<lambda>delay.
              bind_go (sleepOrDone c delay) (\<lambda>waitErr. case waitErr of
                  Some e \<Rightarrow> ret (None, Some e)
                | None \<Rightarrow> run_attempts rs c ste opID i step data (attempt + 1)))))) ?Q ?E u"
      using failed [OF u] e once [OF u] by (cases e; cases err) (auto simp: wp_ret)
  qed
  have "made s0 cs (s\<lparr>world := w\<rparr>)" for w using less.prems by (rule world)
  then show ?case
    by (subst run_attempts.simps)
       (auto simp: wp_bind [of "in_world _"] wp_bind [of "callAction rs c opID step (step_timeout step) data"]
          wp_seq wp_in_world wp_ctx_Done wp_context_Cause wp_ret
          intro!: wp_mono [OF bump] wp_mono [OF call] after intro: zero)
qed

section \<open>Which compensations are called, and in which order\<close>

lemma evolves_step:
  assumes "evolves s t" and "j < length (Steps (exec s))"
  shows "step_evolves (Steps (exec s) ! j) (Steps (exec t) ! j) \<and> length (Steps (exec t)) = length (Steps (exec s))"
  using assms by (auto simp: evolves_def exec_evolves_def list_all2_conv_all_nth)

lemma undoing_stays:
  "canTransitionStepStatus\<^sup>*\<^sup>* a b \<Longrightarrow> undoing a \<Longrightarrow> undoing b"
  by (induction rule: rtranclp_induct) (auto simp: undoing_def)

lemma evolves_undoing:
  assumes "evolves s t" and "undoing (sStatus (Steps (exec s) ! j))" and "j < length (Steps (exec s))"
  shows "undoing (sStatus (Steps (exec t) ! j))"
  using evolves_step [OF assms(1,3)] assms(2) undoing_stays by (auto simp: step_evolves_def)

definition same_exec :: "('d, 'u) machine \<Rightarrow> ('d, 'u) machine \<Rightarrow> bool" where
  "same_exec s t \<longleftrightarrow> exec t = exec s"

interpretation sef: frame same_exec
  by unfold_locales (auto simp: same_exec_def)

lemma quiet_same_exec: "keeps quiet m \<Longrightarrow> keeps same_exec m"
  by (simp add: keeps_def quiet_def same_exec_def)

lemma store_Save_same_exec: "keeps same_exec (store_Save d c)"
  unfolding store_Save_def in_world_def emit_def
  by (intro sef.frame_rules) (simp_all add: same_exec_def)

lemma save_same_exec: "keeps same_exec (save rs c)"
  unfolding save_def
  by (intro sef.frame_rules store_Save_same_exec quiet_same_exec [OF do_Acquire_quiet])

lemma transitionStep_status:
  "wp (transitionStep rs c i to') (\<lambda>_ t. sStatus (Steps (exec t) ! i) = to') (\<lambda>_. True) s"
proof -
  have rest: "wp (bind_go (save rs c) (\<lambda>err. case err of
      Some x \<Rightarrow> ret (Some x) | None \<Rightarrow> seq_go (notifyStep rs c i to') (ret None)))
      (\<lambda>_ t. sStatus (Steps (exec t) ! i) = to') (\<lambda>_. True) t"
    if "sStatus (Steps (exec t) ! i) = to'" for t
    by (rule wp_of_frame [where R = same_exec])
       (use that in \<open>auto simp: same_exec_def
          intro!: sef.frame_rules save_same_exec quiet_same_exec [OF notifyStep_quiet]\<close>)
  show ?thesis
    by (auto simp: transitionStep_def wp_in_world wp_time_Now
        wp_bind [of "in_world time_Now"] wp_bind [of "step_at i"] wp_step_at wp_seq wp_upd_step wp_panic
        intro!: rest dest: step_transition_fields(1) split: sum.split)
qed

lemma invokeCompensate_calls:
  assumes "made s0 cs s"
  shows "wp (invokeCompensate rs c i f)
    (\<lambda>_. made s0 (cs @ [CallCompensate (sName (Steps (exec s) ! i))]))
    (\<lambda>t. made s0 cs t \<or> made s0 (cs @ [CallCompensate (sName (Steps (exec s) ! i))]) t) s"
proof -
  let ?s = "Steps (exec s) ! i"
  have body: "wp (seq_go (emit (ObsCompensate (sName ?s) (OperationID c') (sOutput ?s)))
         (bind_go (in_world (f c' (sOutput ?s))) (\<lambda>err.
            seq_go (emit (ObsCompensateReturned (sName ?s) err)) (ret err))))
      (\<lambda>_. made s0 (cs @ [CallCompensate (sName ?s)]))
      (\<lambda>t. made s0 cs t \<or> made s0 (cs @ [CallCompensate (sName ?s)]) t) t"
    if "made s0 cs t" for c' t
  proof -
    let ?t = "t\<lparr>trace := trace t @ [ObsCompensate (sName ?s) (OperationID c') (sOutput ?s)]\<rparr>"
    have m: "made s0 (cs @ [CallCompensate (sName ?s)]) ?t"
      using made_emit [OF that, of "ObsCompensate (sName ?s) (OperationID c') (sOutput ?s)"] by simp
    show ?thesis
      unfolding wp_seq [of "emit (ObsCompensate (sName ?s) (OperationID c') (sOutput ?s))"] wp_emit
      by (rule silent_wp_mono [OF _ _ m]) (auto intro!: evolve_rules without_rules)
  qed
  show ?thesis
    unfolding invokeCompensate_def Let_def wp_bind [of "gets exec"] wp_gets
    by (rule with_span_calls [OF assms body])
qed

text \<open>
  Since \<open>s0\<close>, after the calls \<open>cs\<close>, compensations of steps below \<open>i\<close> were called, each once and
  from the last step down, and each of these steps is being or has been undone.
\<close>

definition undone :: "('d, 'u) machine \<Rightarrow> call list \<Rightarrow> nat \<Rightarrow> ('d, 'u) machine \<Rightarrow> bool" where
  "undone s0 cs i t \<longleftrightarrow> (\<exists>js. made s0 (cs @ map (\<lambda>j. CallCompensate (sName (Steps (exec s0) ! j))) js) t
     \<and> sorted_wrt (>) js
     \<and> (\<forall>j \<in> set js. j < i \<and> j < length (Steps (exec s0)) \<and> undoing (sStatus (Steps (exec t) ! j))))"

lemma undone_none: "made s0 cs t \<Longrightarrow> undone s0 cs i t"
  by (auto simp: undone_def intro!: exI [of _ "[]"])

lemma undone_mono: "undone s0 cs i t \<Longrightarrow> i \<le> k \<Longrightarrow> undone s0 cs k t"
  unfolding undone_def by (meson less_le_trans)

lemma undone_silent:
  assumes "undone s0 cs i s" and "evolves s t" and "without is_call s t"
  shows "undone s0 cs i t"
proof -
  obtain js where js: "made s0 (cs @ map (\<lambda>j. CallCompensate (sName (Steps (exec s0) ! j))) js) s"
      "sorted_wrt (>) js"
      "\<forall>j \<in> set js. j < i \<and> j < length (Steps (exec s0)) \<and> undoing (sStatus (Steps (exec s) ! j))"
    using assms(1) by (auto simp: undone_def)
  have "evolves s0 s" using js(1) by (simp add: made_def)
  then have len: "length (Steps (exec s)) = length (Steps (exec s0))"
    by (auto simp: evolves_def exec_evolves_def dest: list_all2_lengthD)
  show ?thesis
    unfolding undone_def
    by (rule exI [of _ js])
       (use js made_silent [OF js(1) assms(2,3)] evolves_undoing [OF assms(2)] len in auto)
qed

lemma undone_silent_wp:
  assumes "keeps evolves m" and "keeps (without is_call) m" and "undone s0 cs i s"
  shows "wp m (\<lambda>_. undone s0 cs i) (undone s0 cs i) s"
proof -
  have "evolves s (snd (m s))" "without is_call s (snd (m s))"
    using assms(1,2) by (simp_all add: keeps_def)
  then show ?thesis using undone_silent [OF assms(3)] by (simp add: wp_final)
qed

text \<open>One compensation, then the steps below it.\<close>

lemma undone_cons:
  assumes "undone s0 (cs @ [CallCompensate (sName (Steps (exec s0) ! i))]) i t"
    and "i < length (Steps (exec s0))" and "undoing (sStatus (Steps (exec t) ! i))"
  shows "undone s0 cs (Suc i) t"
proof -
  obtain js where js: "made s0 ((cs @ [CallCompensate (sName (Steps (exec s0) ! i))])
        @ map (\<lambda>j. CallCompensate (sName (Steps (exec s0) ! j))) js) t" "sorted_wrt (>) js"
      "\<forall>j \<in> set js. j < i \<and> j < length (Steps (exec s0)) \<and> undoing (sStatus (Steps (exec t) ! j))"
    using assms(1) by (auto simp: undone_def)
  then show ?thesis
    unfolding undone_def using assms(2,3) by (intro exI [of _ "i # js"]) auto
qed

lemma comp_call_undone:
  assumes i: "i < length (Steps (exec s0))" and m: "made s0 cs s"
    and st: "sStatus (Steps (exec s) ! i) = StepStatusCompensating"
    and IH: "\<And>cs t. made s0 cs t \<Longrightarrow> wp (comp_loop rs c i) (\<lambda>_. undone s0 cs i) (undone s0 cs i) t"
  shows "wp (bind_go (invokeCompensate rs c i f) (\<lambda>cErr. case cErr of
      Some x \<Rightarrow> seq_go (upd_step i (\<lambda>s. s\<lparr>sError := Error_msg x\<rparr>))
        (bind_go (transitionStep rs c i StepStatusCompensationFailed) (\<lambda>err.
           case err of Some y \<Rightarrow> ret (Some y) | None \<Rightarrow> comp_loop rs c i))
    | None \<Rightarrow> bind_go (transitionStep rs c i StepStatusCompensated) (\<lambda>err.
        case err of Some y \<Rightarrow> ret (Some y) | None \<Rightarrow> comp_loop rs c i)))
    (\<lambda>_. undone s0 cs (Suc i)) (undone s0 cs (Suc i)) s"
proof -
  have ev: "evolves s0 s" using m by (simp add: made_def)
  have nm: "sName (Steps (exec s) ! i) = sName (Steps (exec s0) ! i)"
    using evolves_step [OF ev i] by (simp add: step_evolves_def)
  let ?cs = "cs @ [CallCompensate (sName (Steps (exec s0) ! i))]"
  let ?P = "\<lambda>t. made s0 ?cs t \<and> undoing (sStatus (Steps (exec t) ! i))"
  have fin: "undone s0 cs (Suc i) t" if "?P t" for t
    using that i by (intro undone_cons undone_none) auto
  have call: "wp (invokeCompensate rs c i f) (\<lambda>_. ?P) (\<lambda>t. made s0 cs t \<or> ?P t) s"
  proof -
    have "wp (invokeCompensate rs c i f) (\<lambda>_ t. exec t = exec s) (\<lambda>t. exec t = exec s) s"
      by (rule wp_of_frame [OF invokeCompensate_quiet]) (simp_all add: quiet_def)
    from wp_conj [OF invokeCompensate_calls [OF m] this] show ?thesis
      by (rule wp_mono) (auto simp: nm st undoing_def)
  qed
  have silent: "wp m (\<lambda>_. ?P) ?P t"
    if "keeps evolves m" "keeps (without is_call) m" "?P t" for m :: "('a, 'b, 'c) engine" and t
  proof -
    have ev: "evolves t (snd (m t))" "without is_call t (snd (m t))"
      using that(1,2) by (simp_all add: keeps_def)
    have "evolves s0 t" using that(3) by (simp add: made_def)
    then have "i < length (Steps (exec t))" using evolves_step i by metis
    then show ?thesis
      using that(3) made_silent [OF _ ev] evolves_undoing [OF ev(1)] by (simp add: wp_final)
  qed
  have below: "wp (comp_loop rs c i) (\<lambda>_. undone s0 cs (Suc i)) (undone s0 cs (Suc i)) t" if "?P t" for t
  proof -
    have "evolves s0 t" using that by (simp add: made_def)
    then have "i < length (Steps (exec t))" using evolves_step i by metis
    then have "wp (comp_loop rs c i) (\<lambda>_ u. undoing (sStatus (Steps (exec u) ! i)))
        (\<lambda>u. undoing (sStatus (Steps (exec u) ! i))) t"
      by (intro wp_of_frame [OF comp_loop_evolves]) (use that in \<open>auto dest: evolves_undoing\<close>)
    with IH [of ?cs t] that
    have "wp (comp_loop rs c i) (\<lambda>_ u. undone s0 ?cs i u \<and> undoing (sStatus (Steps (exec u) ! i)))
        (\<lambda>u. undone s0 ?cs i u \<and> undoing (sStatus (Steps (exec u) ! i))) t"
      by (intro wp_conj) simp_all
    then show ?thesis by (rule wp_mono) (use i in \<open>auto intro: undone_cons\<close>)
  qed
  have tr: "wp (bind_go (transitionStep rs c i to') (\<lambda>err.
      case err of Some y \<Rightarrow> ret (Some y) | None \<Rightarrow> comp_loop rs c i))
      (\<lambda>_. undone s0 cs (Suc i)) (undone s0 cs (Suc i)) t" if "?P t" for to' t
  proof -
    have "wp (transitionStep rs c i to') (\<lambda>_. ?P) ?P t"
      using that not_call by (intro silent transitionStep_evolves transition_without) blast+
    then show ?thesis
      unfolding wp_bind by (rule wp_mono) (use below fin in \<open>auto simp: wp_ret split: option.split\<close>)
  qed
  have err: "wp (upd_step i (\<lambda>s. s\<lparr>sError := x\<rparr>)) (\<lambda>_. ?P) ?P t" if "?P t" for x t
    using that by (intro silent set_sError_evolves upd_step_without)
  have bad: "wp (seq_go (upd_step i (\<lambda>s. s\<lparr>sError := x\<rparr>))
        (bind_go (transitionStep rs c i StepStatusCompensationFailed) (\<lambda>err.
           case err of Some y \<Rightarrow> ret (Some y) | None \<Rightarrow> comp_loop rs c i)))
      (\<lambda>_. undone s0 cs (Suc i)) (undone s0 cs (Suc i)) t" if "?P t" for x t
    unfolding wp_seq by (rule wp_mono [OF err [OF that]]) (use tr fin in auto)
  show ?thesis
    unfolding wp_bind [of "invokeCompensate rs c i f"]
    by (rule wp_mono [OF call]) (use bad tr fin undone_none in \<open>auto split: option.split\<close>)
qed

lemma comp_loop_undone:
  assumes "made s0 cs s"
  shows "wp (comp_loop rs c i) (\<lambda>_. undone s0 cs i) (undone s0 cs i) s"
  using assms
proof (induction i arbitrary: cs s)
  case 0
  then show ?case by (simp add: wp_ret undone_none)
next
  case (Suc i)
  note m = Suc.prems
  show ?case
  proof (cases "i < length (Steps (exec s))")
    case False
    then show ?thesis using m by (simp add: wp_bind wp_step_at undone_none)
  next
    case True
    have ev: "evolves s0 s" using m by (simp add: made_def)
    then have i: "i < length (Steps (exec s0))"
      using True by (auto simp: evolves_def exec_evolves_def dest: list_all2_lengthD)
    have skip: "wp (comp_loop rs c i) (\<lambda>_. undone s0 cs (Suc i)) (undone s0 cs (Suc i)) s"
      by (rule wp_mono [OF Suc.IH [OF m]]) (auto intro: undone_mono)
    let ?s = "s\<lparr>exec := (exec s)\<lparr>CurrentStep := sName (Steps (exec s) ! i)\<rparr>\<rparr>"
    have m': "made s0 cs ?s"
      by (rule made_silent [OF m]) (simp_all add: evolves_exec exec_evolves_def list_all2_refl without_def)
    note call = comp_call_undone [OF i _ _ Suc.IH, unfolded wp_bind [of "invokeCompensate rs c i f" for f]]
    have start: "wp (transitionStep rs c i StepStatusCompensating) (\<lambda>_ t. made s0 cs t
        \<and> sStatus (Steps (exec t) ! i) = StepStatusCompensating) (made s0 cs) ?s"
    proof -
      have "wp (transitionStep rs c i StepStatusCompensating) (\<lambda>_. made s0 cs) (made s0 cs) ?s"
        using m' not_call by (intro silent_wp transitionStep_evolves transition_without) blast+
      from wp_conj [OF this transitionStep_status] show ?thesis by (rule wp_mono) auto
    qed
    show ?thesis
      using True m m' skip
      by (auto simp: wp_bind wp_step_at wp_seq wp_set_CurrentStep wp_ret wp_panic
          intro: undone_none intro!: wp_mono [OF start] call split: option.split)
  qed
qed

lemma call_free: "is_observer x \<or> is_persist x \<Longrightarrow> \<not> is_call x" "is_observer x \<Longrightarrow> \<not> is_call x"
  "is_persist x \<Longrightarrow> \<not> is_call x"
  using not_call by blast+

lemma finishCompensating_undone:
  assumes "made s0 cs s"
  shows "wp (finishCompensating rs c k oe) (\<lambda>_. undone s0 cs k) (undone s0 cs k) s"
proof -
  let ?rest = "\<lambda>err. bind_go (case err of
      Some x \<Rightarrow> ret (False, Some x)
    | None \<Rightarrow> bind_go (all_compensated 0 k) (\<lambda>ok. ret (ok, None))) (\<lambda>(ok, err).
     seq_go (set_CurrentStep [])
       (case err of Some x \<Rightarrow> ret (Some x)
        | None \<Rightarrow>
            if \<not> ok then bind_go (transitionExec rs c StatusCompensationFailed) (\<lambda>err. case err of
                Some x \<Rightarrow> ret (Some x) | None \<Rightarrow> ret (Some (compensation_error oe)))
            else bind_go (transitionExec rs c StatusCompensated) (\<lambda>err. case err of
                Some x \<Rightarrow> ret (Some x) | None \<Rightarrow> ret (Some oe))))"
  have "wp (?rest err) (\<lambda>_. undone s0 cs k) (undone s0 cs k) t" if "undone s0 cs k t" for err t
    by (rule undone_silent_wp [OF _ _ that])
       (intro evolve_rules all_compensated_evolves transitionExec_evolves,
        intro without_rules all_compensated_without transition_without call_free, assumption+)
  then show ?thesis
    unfolding finishCompensating_def compensate_def wp_bind [of "bind_go m g" for m g]
      wp_bind [of "comp_loop rs c' k" for c']
    by (intro wp_mono [OF comp_loop_undone [OF assms]]) (simp_all add: wp_bind)
qed

lemma abort_undone:
  assumes "made s0 cs s"
  shows "wp (abort rs c k oe) (\<lambda>_. undone s0 cs k) (undone s0 cs k) s"
proof (cases oe)
  case None
  then show ?thesis using assms by (simp add: abort_def wp_panic undone_none)
next
  case (Some x)
  let ?s = "s\<lparr>exec := (exec s)\<lparr>Error := Error_msg x\<rparr>\<rparr>"
  have m: "made s0 cs ?s"
    by (rule made_silent [OF assms]) (simp_all add: evolves_exec exec_evolves_def list_all2_refl without_def)
  have tr: "wp (transitionExec rs c to') (\<lambda>_. made s0 cs) (undone s0 cs k) ?s" for to'
    by (rule silent_wp_mono [OF transitionExec_evolves transition_without(1) m])
       (auto intro: undone_none dest: call_free)
  show ?thesis
    by (auto simp: abort_def Some wp_seq wp_upd_exec wp_bind wp_gets wp_ret
        intro!: wp_mono [OF tr] finishCompensating_undone intro: undone_none split: option.split)
qed

section \<open>The calls of a whole run\<close>

text \<open>
  \<open>action_calls steps ns\<close>: the first step called \<open>ns ! 0\<close> times, then the second \<open>ns ! 1\<close> times,
  and so on. \<open>counts_ok d steps ns\<close>: no step is called more often than its policy allows, and only
  the last step reached may not have been called at all.
\<close>

definition max_tries :: "('d, 'u) definition_ \<Rightarrow> ('d, 'u) step_definition \<Rightarrow> nat" where
  "max_tries d step = max 1 (nat (MaxAttempts (case step_retryPolicy step of
      Some p \<Rightarrow> p | None \<Rightarrow> d_retryPolicy d)))"

fun action_calls :: "('d, 'u) step_definition list \<Rightarrow> nat list \<Rightarrow> call list" where
  "action_calls (st # sts) (n # ns) = replicate n (CallAction (Name st)) @ action_calls sts ns"
| "action_calls _ _ = []"

fun counts_ok :: "('d, 'u) definition_ \<Rightarrow> ('d, 'u) step_definition list \<Rightarrow> nat list \<Rightarrow> bool" where
  "counts_ok d (st # sts) (n # ns) = (n \<le> max_tries d st \<and> (ns = [] \<or> 0 < n) \<and> counts_ok d sts ns)"
| "counts_ok d [] (n # ns) = False"
| "counts_ok d _ [] = True"

lemma tries_max: "tries rs step 1 = max_tries (rs_def rs) step"
  by (auto simp: tries_def max_tries_def retryPolicyFor_def split: option.split)

definition ran_calls :: "('d, 'u) run_state \<Rightarrow> ('d, 'u) machine \<Rightarrow> call list \<Rightarrow> nat
    \<Rightarrow> ('d, 'u) step_definition list \<Rightarrow> ('d, 'u) machine \<Rightarrow> bool" where
  "ran_calls rs s0 cs i steps t \<longleftrightarrow> (\<exists>ns. counts_ok (rs_def rs) steps ns
     \<and> undone s0 (cs @ action_calls steps ns) (i + length ns) t)"

lemma ran_none: "undone s0 cs i t \<Longrightarrow> ran_calls rs s0 cs i steps t"
  unfolding ran_calls_def by (intro exI [of _ "[]"]) (cases steps; simp)

lemma ran_tried:
  assumes "undone s0 (cs @ replicate k (CallAction (Name st))) i t" and "k \<le> max_tries (rs_def rs) st"
  shows "ran_calls rs s0 cs i (st # sts) t"
  unfolding ran_calls_def using assms by (intro exI [of _ "[k]"]) (cases sts; auto intro: undone_mono)

lemma ran_step:
  assumes "ran_calls rs s0 (cs @ replicate k (CallAction (Name st))) (Suc i) sts t"
    and "0 < k" and "k \<le> max_tries (rs_def rs) st"
  shows "ran_calls rs s0 cs i (st # sts) t"
proof -
  obtain ns where "counts_ok (rs_def rs) sts ns"
      "undone s0 ((cs @ replicate k (CallAction (Name st))) @ action_calls sts ns) (Suc i + length ns) t"
    using assms(1) by (auto simp: ran_calls_def)
  then show ?thesis unfolding ran_calls_def using assms(2,3) by (intro exI [of _ "k # ns"]) simp
qed

lemma forward_ran:
  assumes "made s0 cs s"
  shows "wp (forward rs c ste steps i data) (\<lambda>_. ran_calls rs s0 cs i steps) (ran_calls rs s0 cs i steps) s"
  using assms
proof (induction steps arbitrary: cs i data s)
  case Nil
  have "wp (forward rs c ste [] i data) (\<lambda>_. made s0 cs) (made s0 cs) s"
    by (rule silent_wp [OF forward_evolves _ Nil.prems])
       (simp, intro without_rules transition_without call_free, assumption)
  then show ?case by (rule wp_mono) (auto intro: ran_none undone_none)
next
  case (Cons step rest)
  let ?Q = "ran_calls rs s0 cs i (step # rest)"
  have none: "?Q t" if "made s0 cs t" for t using that by (intro ran_none undone_none)
  have some: "?Q t" if "tried s0 cs (Name step) lo (tries rs step 1) t" for lo t
    using that by (auto simp: tried_def tries_max intro: ran_tried undone_none)
  have abort0: "wp (abort rs c i x) (\<lambda>_. ?Q) ?Q t" if "made s0 cs t" for x t
    by (rule wp_mono [OF abort_undone [OF that]]) (auto intro: ran_none)
  have silent: "wp m (\<lambda>_. made s0 cs') Q t"
    if "keeps evolves m" "keeps (without is_call) m" "made s0 cs' t" "\<And>t. made s0 cs' t \<Longrightarrow> Q t"
    for m :: "('a, 'b, 'c) engine" and cs' Q t
    by (rule silent_wp_mono [OF that(1-3)]) (use that(4) in auto)
  have after: "wp (case stepErr of
        Some x \<Rightarrow> seq_go (upd_step i (\<lambda>s. s\<lparr>sError := Error_msg x\<rparr>))
          (bind_go (transitionStep rs c i StepStatusFailed) (\<lambda>err. case err of
             Some y \<Rightarrow> ret (Some y)
           | None \<Rightarrow> seq_go (set_CurrentStep []) (abort rs c i (Some x))))
      | None \<Rightarrow> seq_go (upd_step i (\<lambda>s. s\<lparr>sOutput := out\<rparr>))
          (bind_go (transitionStep rs c i StepStatusSucceeded) (\<lambda>err. case err of
             Some y \<Rightarrow> ret (Some y)
           | None \<Rightarrow> forward rs c ste rest (Suc i) out))) (\<lambda>_. ?Q) ?Q t"
    if "tried s0 cs (Name step) (if stepErr = None then 1 else 0) (tries rs step 1) t" for out stepErr t
  proof -
    obtain k where k: "(if stepErr = None then 1 else 0) \<le> k" "k \<le> max_tries (rs_def rs) step"
        "made s0 (cs @ replicate k (CallAction (Name step))) t"
      using \<open>tried _ _ _ _ _ _\<close> by (auto simp: tried_def tries_max)
    let ?cs = "cs @ replicate k (CallAction (Name step))"
    have end_here: "?Q u" if "made s0 ?cs u" for u
      using that k(2) by (intro ran_tried undone_none)
    have tr: "wp (transitionStep rs c i to') (\<lambda>_. made s0 ?cs) ?Q u" if "made s0 ?cs u" for to' u
      by (rule silent [OF transitionStep_evolves transition_without(2) that])
         (auto dest: call_free intro: end_here)
    have upd: "wp (upd_step i (\<lambda>s. s\<lparr>sError := m\<rparr>)) (\<lambda>_. made s0 ?cs) ?Q u"
      "wp (upd_step i (\<lambda>s. s\<lparr>sOutput := out\<rparr>)) (\<lambda>_. made s0 ?cs) ?Q u"
      if "made s0 ?cs u" for m u
      by (rule silent [OF set_sError_evolves upd_step_without that] silent [OF set_sOutput_evolves
          upd_step_without that]; rule end_here; assumption)+
    have ab: "wp (seq_go (set_CurrentStep []) (abort rs c i x)) (\<lambda>_. ?Q) ?Q u" if "made s0 ?cs u" for x u
      unfolding wp_seq
      by (rule wp_mono [OF silent [OF set_CurrentStep_evolves set_CurrentStep_without that end_here]])
         (auto intro!: wp_mono [OF abort_undone] intro: ran_tried [OF _ k(2)])
    show ?thesis
    proof (cases stepErr)
      case None
      then have pos: "0 < k" using k(1) by simp
      have "wp (forward rs c ste rest (Suc i) out) (\<lambda>_. ?Q) ?Q u" if "made s0 ?cs u" for u
        by (rule wp_mono [OF Cons.IH [OF that]]) (auto intro: ran_step [OF _ pos k(2)])
      then show ?thesis
        using None by (auto simp: wp_seq [of "upd_step i f" for f] wp_bind [of "transitionStep rs c i x" for x]
            wp_ret intro!: wp_mono [OF upd(2) [OF k(3)]] wp_mono [OF tr] end_here split: option.split)
    next
      case (Some x)
      then show ?thesis
        by (auto simp: wp_seq [of "upd_step i f" for f] wp_bind [of "transitionStep rs c i x" for x] wp_ret
            intro!: wp_mono [OF upd(1) [OF k(3)]] wp_mono [OF tr] ab end_here split: option.split)
    qed
  qed
  have run: "wp (bind_go (runStep rs c ste eid i step data) (\<lambda>(out, stepErr). case stepErr of
        Some x \<Rightarrow> seq_go (upd_step i (\<lambda>s. s\<lparr>sError := Error_msg x\<rparr>))
          (bind_go (transitionStep rs c i StepStatusFailed) (\<lambda>err. case err of
             Some y \<Rightarrow> ret (Some y)
           | None \<Rightarrow> seq_go (set_CurrentStep []) (abort rs c i (Some x))))
      | None \<Rightarrow> seq_go (upd_step i (\<lambda>s. s\<lparr>sOutput := out\<rparr>))
          (bind_go (transitionStep rs c i StepStatusSucceeded) (\<lambda>err. case err of
             Some y \<Rightarrow> ret (Some y)
           | None \<Rightarrow> forward rs c ste rest (Suc i) out)))) (\<lambda>_. ?Q) ?Q t"
    if "made s0 cs t" for eid t
    unfolding runStep_def wp_bind [of "run_attempts rs c ste (operationID eid (Name step)) i step data 1"]
    by (rule wp_mono [OF run_attempts_calls [OF that]])
       (auto simp only: split_paired_all prod.case intro: after some)
  have start: "wp (if sStatus x = StepStatusPending then transitionStep rs c i StepStatusRunning
      else ret None) (\<lambda>_. made s0 cs) ?Q t" if "made s0 cs t" for x t
    by (rule silent [OF _ _ that]; intro evolve_rules without_rules transitionStep_evolves
        transition_without call_free none; assumption)
  have cur: "wp (set_CurrentStep n) (\<lambda>_. made s0 cs) ?Q t" if "made s0 cs t" for n t
    by (rule silent [OF set_CurrentStep_evolves set_CurrentStep_without that none])
  have at: "wp (step_at i) (\<lambda>_. made s0 cs) ?Q t" if "made s0 cs t" for t
    by (rule silent [OF step_at_evolves step_at_without that none])
  have world: "made s0 cs (t\<lparr>world := w\<rparr>)" if "made s0 cs t" for t w
    by (rule made_silent [OF that]) (simp_all add: without_def)
  have stop: "wp (seq_go (set_CurrentStep []) (bind_go (in_world (context_Cause c)) (\<lambda>cause. abort rs c i cause)))
      (\<lambda>_. ?Q) ?Q t" if "made s0 cs t" for t
    unfolding wp_seq
    by (rule wp_mono [OF cur [OF that]])
       (auto simp: wp_bind wp_in_world wp_context_Cause intro!: abort0 world)
  have go_on: "wp (bind_go (step_at i) (\<lambda>s.
       bind_go (if sStatus s = StepStatusPending
                then transitionStep rs c i StepStatusRunning else ret None) (\<lambda>err.
       case err of Some x \<Rightarrow> ret (Some x)
       | None \<Rightarrow> bind_go (gets (\<lambda>m. ID (exec m))) (\<lambda>executionID.
         bind_go (runStep rs c ste executionID i step data) (\<lambda>(out, stepErr). case stepErr of
          Some x \<Rightarrow> seq_go (upd_step i (\<lambda>s. s\<lparr>sError := Error_msg x\<rparr>))
            (bind_go (transitionStep rs c i StepStatusFailed) (\<lambda>err. case err of
               Some y \<Rightarrow> ret (Some y)
             | None \<Rightarrow> seq_go (set_CurrentStep []) (abort rs c i (Some x))))
        | None \<Rightarrow> seq_go (upd_step i (\<lambda>s. s\<lparr>sOutput := out\<rparr>))
            (bind_go (transitionStep rs c i StepStatusSucceeded) (\<lambda>err. case err of
               Some y \<Rightarrow> ret (Some y)
             | None \<Rightarrow> forward rs c ste rest (Suc i) out))))))) (\<lambda>_. ?Q) ?Q t"
    if "made s0 cs t" for t
    unfolding wp_bind [of "step_at i"] wp_bind [of "if b then m else k" for b m k]
    by (rule wp_mono [OF at [OF that]], rule wp_mono [OF start], assumption)
       (auto simp: wp_ret wp_bind [of "gets f" for f] wp_gets intro: none run split: option.split)
  show ?case
    using Cons.prems
    by (auto simp: wp_bind [of "in_world (ctx_Done c)"] wp_in_world wp_ctx_Done
        wp_seq [of "set_CurrentStep (Name step)"] intro!: stop world wp_mono [OF cur] go_on)
qed

text \<open>The calls of one \<open>resume\<close>: actions from some step on, then compensations.\<close>

definition all_calls :: "('d, 'u) definition_ \<Rightarrow> ('d, 'u) machine \<Rightarrow> ('d, 'u) machine \<Rightarrow> bool" where
  "all_calls d s0 t \<longleftrightarrow> (\<exists>i ns. counts_ok d (drop i (d_steps d)) ns
     \<and> undone s0 (action_calls (drop i (d_steps d)) ns) (i + length ns) t)"

lemma all_calls_ran: "ran_calls rs s0 [] i (drop i (d_steps (rs_def rs))) t \<Longrightarrow> all_calls (rs_def rs) s0 t"
  by (auto simp: ran_calls_def all_calls_def)

lemma all_calls_undone: "undone s0 [] i t \<Longrightarrow> all_calls d s0 t"
  unfolding all_calls_def
  by (intro exI [of _ i] exI [of _ "[]"]) (cases "drop i (d_steps d)"; simp)

lemma all_calls_none: "made s0 [] t \<Longrightarrow> all_calls d s0 t"
  by (rule all_calls_undone, rule undone_none)

lemma all_calls_silent_wp:
  assumes "keeps evolves m" and "keeps (without is_call) m" and "all_calls d s0 s"
  shows "wp m (\<lambda>_. all_calls d s0) (all_calls d s0) s"
proof -
  have "evolves s (snd (m s))" "without is_call s (snd (m s))"
    using assms(1,2) by (simp_all add: keeps_def)
  then have "all_calls d s0 (snd (m s))"
    using assms(3) undone_silent unfolding all_calls_def by blast
  then show ?thesis by (simp add: wp_final)
qed

lemma resumeRunning_calls:
  assumes "made s0 [] s"
  shows "wp (resumeRunning rs c ste) (\<lambda>_. all_calls (rs_def rs) s0) (all_calls (rs_def rs) s0) s"
proof -
  have ab: "wp (abort rs c i x) (\<lambda>_. all_calls (rs_def rs) s0) (all_calls (rs_def rs) s0) t"
    if "made s0 [] t" for i x t
    by (rule wp_mono [OF abort_undone [OF that]]) (auto intro: all_calls_undone)
  have fw: "wp (forward rs c ste (drop i (d_steps (rs_def rs))) i data)
      (\<lambda>_. all_calls (rs_def rs) s0) (all_calls (rs_def rs) s0) s" for i data
    by (rule wp_mono [OF forward_ran [OF assms]]) (auto intro: all_calls_ran)
  have world: "made s0 [] (s\<lparr>world := w\<rparr>)" for w
    by (rule made_silent [OF assms]) (simp_all add: without_def)
  show ?thesis
    by (auto simp: resumeRunning_def wp_bind wp_gets wp_errors_New intro!: ab fw world
        split: option.split prod.split)
qed

lemma dispatch_calls:
  assumes "made s0 [] s"
  shows "wp (dispatch rs c ste) (\<lambda>_. all_calls (rs_def rs) s0) (all_calls (rs_def rs) s0) s"
proof -
  have world: "made s0 [] (s\<lparr>world := w\<rparr>)" for w
    by (rule made_silent [OF assms]) (simp_all add: without_def)
  have fin: "wp (finishCompensating rs c k oe) (\<lambda>_. all_calls (rs_def rs) s0) (all_calls (rs_def rs) s0) t"
    if "made s0 [] t" for k oe t
    by (rule wp_mono [OF finishCompensating_undone [OF that]]) (auto intro: all_calls_undone)
  have tr: "wp (transitionExec rs c StatusRunning) (\<lambda>_. made s0 []) (all_calls (rs_def rs) s0) s"
    by (rule silent_wp_mono [OF transitionExec_evolves transition_without(1) assms])
       (auto dest: call_free intro: all_calls_none)
  show ?thesis
    using assms all_calls_none [OF assms]
    by (auto simp: dispatch_def resumeCompensating_def wp_bind wp_gets wp_errors_New wp_ret
        intro!: fin world resumeRunning_calls wp_mono [OF tr] intro: all_calls_none split: option.split)
qed

lemma resume_held_calls:
  assumes "made s0 [] s"
  shows "wp (resume_held rs c) (\<lambda>_. all_calls (rs_def rs) s0) (all_calls (rs_def rs) s0) s"
proof -
  let ?P = "all_calls (rs_def rs) s0"
  have rel: "wp (release_lock rs c') (\<lambda>_. ?P) ?P t" if "?P t" for c' t
    by (rule all_calls_silent_wp [OF release_lock_evolves release_lock_without that]) simp
  have span: "wp (startSpan rs c n) (\<lambda>(c', fin) t. made s0 [] t \<and> keeps evolves fin
      \<and> keeps (without is_call) fin) ?P s" for n
  proof -
    have "wp (startSpan rs c n) (\<lambda>_. made s0 []) ?P s"
      by (rule silent_wp_mono [OF startSpan_evolves startSpan_without assms])
         (auto dest: call_free intro: all_calls_none)
    then show ?thesis
      using startSpan_end_evolves [of rs c n s] startSpan_end_without [of rs c n s] call_free(2)
      by (auto simp: wp_def split: prod.splits outcome.splits) blast+
  qed
  have run: "wp (deferred (release_lock rs c2) (deferred fin (dispatch rs c2 ste))) (\<lambda>_. ?P) ?P t"
    if "made s0 [] t" "keeps evolves fin" "keeps (without is_call) fin" for c2 ste fin t
  proof -
    have "wp fin (\<lambda>_. wp (release_lock rs c2) (\<lambda>_. ?P) ?P) (wp (release_lock rs c2) (\<lambda>_. ?P) ?P) u"
      if "?P u" for u
      by (rule wp_mono [OF all_calls_silent_wp [OF \<open>keeps evolves fin\<close> \<open>keeps (without is_call) fin\<close> that]])
         (auto intro: rel)
    then show ?thesis
      unfolding wp_deferred by (intro wp_mono [OF dispatch_calls [OF that(1)]])
  qed
  have world: "made s0 [] (t\<lparr>world := w\<rparr>)" if "made s0 [] t" for t w
    by (rule made_silent [OF that]) (simp_all add: without_def)
  have "wp (bind_go (start_timeout (rs_def rs) c1) (\<lambda>(c2, ste).
        deferred (release_lock rs c2) (deferred fin (dispatch rs c2 ste)))) (\<lambda>_. ?P) ?P t"
    if "made s0 [] t" "keeps evolves fin" "keeps (without is_call) fin" for c1 fin t
    unfolding wp_bind
    by (rule start_timeout_wp) (use that in \<open>auto intro!: run world split: prod.split\<close>)
  then show ?thesis
    unfolding resume_held_def wp_bind [of "on_panic _ _"] wp_on_panic
    by (intro wp_mono [OF span]) (auto intro: rel split: prod.split)
qed

lemma resume_calls: "wp (resume d c) (\<lambda>_. all_calls d s) (all_calls d s) s"
proof (cases "as_Locker (d_store d)")
  case None
  then show ?thesis
    using resume_held_calls [OF made_start, of "\<lparr>rs_def = d, locker = None, lockOwner = []\<rparr>"]
    by (simp add: resume_def)
next
  case (Some l)
  let ?rs = "\<lambda>own. \<lparr>rs_def = d, locker = Some l, lockOwner = own\<rparr>"
  have none: "all_calls d s t" if "made s [] t" for t
    using all_calls_none [OF that] .
  have own: "wp (in_world idgen_New) (\<lambda>_. made s []) (all_calls d s) s"
    by (rule silent_wp_mono [OF in_world_evolves in_world_without made_start]) (auto intro: none)
  have acq: "wp (do_Acquire l c i own ttl) (\<lambda>_. made s []) (all_calls d s) t" if "made s [] t" for i own ttl t
    by (rule silent_wp_mono [OF do_Acquire_evolves do_Acquire_without that])
       (auto dest: call_free intro: none)
  have held: "wp (resume_held (?rs own) c) (\<lambda>_. all_calls d s) (all_calls d s) t" if "made s [] t" for own t
    using resume_held_calls [OF that, of "?rs own"] by simp
  show ?thesis
    by (auto simp: resume_def Some wp_bind wp_gets wp_ret
        intro!: wp_mono [OF own] wp_mono [OF acq] held none split: option.split prod.split)
qed

text \<open>
  C4: the calls of one \<open>resume\<close>, whatever the record, the callbacks and the way it ends: first
  actions, step by step in the order of the definition, each step as often as its retry policy
  allows and at least once before the next; then compensations, of steps not after the last one
  reached, each once, from the last step down. A step whose compensation was called ends
  \<open>COMPENSATING\<close>, \<open>COMPENSATED\<close> or \<open>COMPENSATION_FAILED\<close>, so a failed step is never compensated.
\<close>

theorem calls_in_order:
  "\<exists>tr i ns js. trace (snd (resume d c s)) = trace s @ tr
     \<and> calls_of tr = action_calls (drop i (d_steps d)) ns
         @ map (\<lambda>j. CallCompensate (sName (Steps (exec s) ! j))) js
     \<and> counts_ok d (drop i (d_steps d)) ns
     \<and> sorted_wrt (>) js
     \<and> list_all (\<lambda>j. j < i + length ns \<and> j < length (Steps (exec s))
         \<and> undoing (sStatus (Steps (exec (snd (resume d c s))) ! j))) js"
proof -
  have "all_calls d s (snd (resume d c s))"
    by (rule wp_final_both [OF resume_calls])
  then show ?thesis
    unfolding all_calls_def undone_def made_def list_all_iff by blast
qed

end
