(* ===== verification/Engine_Frames.thy ===== *)
theory Engine_Frames
  imports Engine_Calls
begin

text \<open>
  Facts about the trace of a whole run, from facts about its parts. The locale \<open>engine_frame\<close>
  says what a relation between the machine before and after must be kept by (the clock, updates
  of the execution, spans, the two transitions, the attempts at a step, a compensating call, the
  release of the lease); every function above them then keeps it. \<open>observed_frame\<close> is the case
  where observers are harmless and the two transitions follow from \<open>save\<close>. The interpretations
  prove the two disciplines of the trace: idempotency keys and the lease.
\<close>

section \<open>The interface\<close>

text \<open>What only the attempts at a step change.\<close>

definition tally_of :: "'d step_execution \<Rightarrow> string \<times> int" where
  "tally_of s = (sName s, sAttempts s)"

lemma tally_of_simps [simp]:
  "tally_of (s\<lparr>sOutput := x\<rparr>) = tally_of s" "tally_of (s\<lparr>sError := m\<rparr>) = tally_of s"
  by (simp_all add: tally_of_def)

locale machine_frame = frame R
  for R :: "('d, 'u) machine \<Rightarrow> ('d, 'u) machine \<Rightarrow> bool" +
  assumes world_step: "R s (s\<lparr>world := w\<rparr>)"
    and exec_step: "ID e = ID (exec s) \<Longrightarrow> map tally_of (Steps e) = map tally_of (Steps (exec s)) \<Longrightarrow>
      R s (s\<lparr>exec := e\<rparr>)"
begin

lemma in_world_keeps: "keeps R (in_world m)"
  unfolding in_world_def by (rule zoom_frame) (rule world_step)

lemma upd_exec_keeps: "(\<And>e. ID (f e) = ID e \<and> Steps (f e) = Steps e) \<Longrightarrow> keeps R (upd_exec f)"
  unfolding upd_exec_def by (rule modify_frame) (simp add: exec_step)

lemma upd_step_at: "tally_of x = tally_of (Steps (exec s) ! i) \<Longrightarrow>
    R s (s\<lparr>exec := (exec s)\<lparr>Steps := (Steps (exec s))[i := x]\<rparr>\<rparr>)"
  by (rule exec_step) (cases "i < length (Steps (exec s))"; simp add: map_update_same list_update_beyond)+

lemma upd_step_keeps:
  "keeps R (upd_step i (\<lambda>s. s\<lparr>sOutput := x\<rparr>))" "keeps R (upd_step i (\<lambda>s. s\<lparr>sError := m\<rparr>))"
  unfolding upd_step_def upd_exec_def by (rule modify_frame, rule upd_step_at, simp)+

lemma set_CurrentStep_keeps: "keeps R (set_CurrentStep n)"
  unfolding set_CurrentStep_def by (rule upd_exec_keeps) simp

lemma step_at_keeps: "keeps R (step_at i)"
  unfolding step_at_def by (intro frame_rules)

lemmas machine_rules = ret_frame panic_frame gets_frame bind_frame seq_frame
  deferred_frame on_panic_frame recovered_frame if_frame option_frame prod_frame
  in_world_keeps upd_step_keeps set_CurrentStep_keeps step_at_keeps

lemma exec_transition_keeps:
  assumes "exec_transition (exec s) to' now = Inr e" and "keeps R m"
  shows "R s (snd (m (s\<lparr>exec := e\<rparr>)))"
  using exec_step [of e s] exec_transition_fields(3,7) [OF assms(1)] assms(2) trans
  unfolding keeps_def by metis

lemma step_transition_keeps:
  assumes "step_transition (Steps (exec s) ! i) to' now = Inr x" and "keeps R m"
  shows "R s (snd (m (s\<lparr>exec := (exec s)\<lparr>Steps := (Steps (exec s))[i := x]\<rparr>\<rparr>)))"
  using upd_step_at [of x s i] step_transition_fields(2,3) [OF assms(1)] assms(2) trans
  unfolding keeps_def tally_of_def by metis

end

locale engine_frame = machine_frame R
  for R :: "('d, 'u) machine \<Rightarrow> ('d, 'u) machine \<Rightarrow> bool" +
  fixes run_ok :: "('d, 'u) run_state \<Rightarrow> bool"
    and id_ok :: "string \<Rightarrow> bool"
  assumes span_step: "R s (s\<lparr>trace := trace s @ [ObsSpanStart n]\<rparr>)"
      "R s (s\<lparr>trace := trace s @ [ObsSpanEnd n]\<rparr>)"
    and with_id: "(\<And>i. id_ok i \<Longrightarrow> keeps R (f i)) \<Longrightarrow>
      keeps R (bind_go (gets (\<lambda>m. ID (exec m))) (f :: string \<Rightarrow> ('d, 'u, gerr option) engine))"
    and transitionExec_keeps: "run_ok rs \<Longrightarrow> keeps R (transitionExec rs c st)"
    and transitionStep_keeps: "run_ok rs \<Longrightarrow> keeps R (transitionStep rs c k sst)"
    and runStep_keeps: "run_ok rs \<Longrightarrow> id_ok i \<Longrightarrow> k < length (d_steps (rs_def rs)) \<Longrightarrow>
      step = d_steps (rs_def rs) ! k \<Longrightarrow> keeps R (runStep rs c ste i k step data)"
    and invokeCompensate_keeps: "run_ok rs \<Longrightarrow> keeps R (invokeCompensate rs c k g)"
    and release_lock_keeps: "run_ok rs \<Longrightarrow> keeps R (release_lock rs c)"
begin

lemmas engine_rules = machine_rules transitionExec_keeps transitionStep_keeps

lemma all_compensated_keeps: "keeps R (all_compensated i n)"
  by (induction n arbitrary: i) (auto intro!: engine_rules)

lemma comp_loop_keeps: "run_ok rs \<Longrightarrow> keeps R (comp_loop rs c i)"
  by (induction i)
     (auto intro!: engine_rules invokeCompensate_keeps split: option.split)

lemma finishCompensating_keeps: "run_ok rs \<Longrightarrow> keeps R (finishCompensating rs c k oe)"
  unfolding finishCompensating_def compensate_def
  by (intro engine_rules comp_loop_keeps all_compensated_keeps)

lemma abort_keeps: "run_ok rs \<Longrightarrow> keeps R (abort rs c k oe)"
  unfolding abort_def by (intro engine_rules finishCompensating_keeps upd_exec_keeps; simp)

lemma forward_keeps:
  "run_ok rs \<Longrightarrow> steps = drop i (d_steps (rs_def rs)) \<Longrightarrow> keeps R (forward rs c ste steps i data)"
proof (induction steps arbitrary: i data)
  case Nil
  then show ?case by (simp, intro engine_rules upd_exec_keeps; simp)
next
  case (Cons step rest)
  have i: "i < length (d_steps (rs_def rs))" "step = d_steps (rs_def rs) ! i" "rest = drop (Suc i) (d_steps (rs_def rs))"
    using Cons.prems(2) by (metis drop_eq_Nil linorder_not_less list.distinct(1))
      (metis Cons.prems(2) Cons_nth_drop_Suc drop_eq_Nil linorder_not_less list.distinct(1) list.inject)+
  note fw = Cons.IH [OF Cons.prems(1) i(3)]
  have run: "keeps R (runStep rs c ste j i step x)" if "id_ok j" for j x
    using runStep_keeps [OF Cons.prems(1) that i(1,2)] .
  show ?case
    unfolding forward.simps
    by (intro engine_rules with_id run abort_keeps fw Cons.prems(1); assumption)
qed

lemma errors_New_keeps: "keeps R (errors_New m)"
  unfolding errors_New_def by (intro engine_rules)

lemma resumeRunning_keeps: "run_ok rs \<Longrightarrow> keeps R (resumeRunning rs c ste)"
  unfolding resumeRunning_def
  by (intro engine_rules abort_keeps errors_New_keeps forward_keeps) simp_all

lemma dispatch_keeps: "run_ok rs \<Longrightarrow> keeps R (dispatch rs c ste)"
  unfolding dispatch_def resumeCompensating_def
  by (intro engine_rules resumeRunning_keeps errors_New_keeps finishCompensating_keeps)

lemma emit_span_keeps: "keeps R (emit (ObsSpanStart n))" "keeps R (emit (ObsSpanEnd n))"
  unfolding emit_def by (rule modify_frame, rule span_step)+

lemma startSpan_keeps: "keeps R (startSpan rs c n)"
  unfolding startSpan_def by (intro engine_rules emit_span_keeps)

lemma startSpan_end_keeps:
  assumes "startSpan rs c n s = (Ret (c', fin), t)"
  shows "keeps R fin"
proof -
  have "wp (startSpan rs c n) (\<lambda>(c', fin) _. keeps R fin) (\<lambda>_. True) s"
    by (auto simp: startSpan_def wp_simps intro!: wp_callback engine_rules emit_span_keeps
        split: option.split)
  from wp_RetD [OF this assms] show ?thesis by simp
qed

lemma with_span_keeps:
  assumes "keeps R m" and "\<And>c' fin. keeps R fin \<Longrightarrow> keeps R (f (c', fin))"
    and "\<And>s c' fin t. m s = (Ret (c', fin), t) \<Longrightarrow> keeps R fin"
  shows "keeps R (bind_go m f)"
  by (rule bind_frame_ret) (use assms in auto)

lemma resume_held_keeps: "run_ok rs \<Longrightarrow> keeps R (resume_held rs c)"
  unfolding resume_held_def start_timeout_def Let_def
  by (intro with_span_keeps)
     (auto intro!: engine_rules startSpan_keeps release_lock_keeps dispatch_keeps
        dest!: on_panic_Ret dest: startSpan_end_keeps)

end

section \<open>Harmless observers\<close>

locale observed_frame = machine_frame R
  for R :: "('d, 'u) machine \<Rightarrow> ('d, 'u) machine \<Rightarrow> bool" +
  fixes run_ok :: "('d, 'u) run_state \<Rightarrow> bool"
    and id_ok :: "string \<Rightarrow> bool"
  assumes observe: "is_observer x \<Longrightarrow> R s (s\<lparr>trace := trace s @ [x]\<rparr>)"
    and id_step: "(\<And>i. id_ok i \<Longrightarrow> keeps R (f i)) \<Longrightarrow>
      keeps R (bind_go (gets (\<lambda>m. ID (exec m))) (f :: string \<Rightarrow> ('d, 'u, gerr option) engine))"
    and save_step: "run_ok rs \<Longrightarrow> keeps R (save rs c)"
    and run_step: "run_ok rs \<Longrightarrow> id_ok i \<Longrightarrow> k < length (d_steps (rs_def rs)) \<Longrightarrow>
      step = d_steps (rs_def rs) ! k \<Longrightarrow> keeps R (runStep rs c ste i k step data)"
    and undo_step: "run_ok rs \<Longrightarrow> keeps R (invokeCompensate rs c k g)"
    and release_step: "run_ok rs \<Longrightarrow> keeps R (release_lock rs c)"
begin

lemma emit_keeps: "is_observer x \<Longrightarrow> keeps R (emit x)"
  unfolding emit_def by (rule modify_frame) (rule observe)

lemma observers_keep:
  "keeps R (publish rs c ev)" "keeps R (logEvent rs c ev)" "keeps R (incEventCounter rs ev)"
  "keeps R (observeDuration rs n d ls)"
  unfolding publish_def logEvent_def incEventCounter_def observeDuration_def Let_def
  by (intro machine_rules emit_keeps; simp)+

lemma notifyExec_keeps: "keeps R (notifyExec rs c to')"
  unfolding notifyExec_def Let_def
  by (intro machine_rules observers_keep)
     (auto split: option.split bool.split intro!: machine_rules observers_keep)

lemma notifyStep_keeps: "keeps R (notifyStep rs c i to')"
  unfolding notifyStep_def publishAndLog_def Let_def by (intro machine_rules observers_keep)

lemma transitions_keep:
  assumes "run_ok rs"
  shows "keeps R (transitionExec rs c to')" "keeps R (transitionStep rs c i ts)"
proof -
  have "keeps R (bind_go (save rs c) (\<lambda>err. case err of
      Some x \<Rightarrow> ret (Some x) | None \<Rightarrow> seq_go (notifyExec rs c to') (ret None)))" (is "keeps R ?m")
    by (intro machine_rules save_step assms notifyExec_keeps)
  then have "wp ?m (\<lambda>_. R s) (R s) (s\<lparr>world := w, exec := e\<rparr>)"
    if "exec_transition (exec s) to' now = Inr e" for s w e now
    unfolding wp_final
    using that exec_transition_keeps [of "s\<lparr>world := w\<rparr>"] world_step [of s w] trans by simp blast
  then show "keeps R (transitionExec rs c to')"
    unfolding keeps_iff_wp transitionExec_def
    by (auto simp: wp_bind [of "in_world m" for m] wp_in_world wp_time_Now wp_bind [of "gets f" for f]
        wp_gets wp_seq wp_upd_exec wp_panic world_step split: sum.split)
  have "keeps R (bind_go (save rs c) (\<lambda>err. case err of
      Some x \<Rightarrow> ret (Some x) | None \<Rightarrow> seq_go (notifyStep rs c i ts) (ret None)))" (is "keeps R ?m")
    by (intro machine_rules save_step assms notifyStep_keeps)
  then have "wp ?m (\<lambda>_. R s) (R s) (s\<lparr>world := w, exec := (exec s)\<lparr>Steps := (Steps (exec s))[i := x]\<rparr>\<rparr>)"
    if "step_transition (Steps (exec s) ! i) ts now = Inr x" for s w x now
    unfolding wp_final
    using that step_transition_keeps [of "s\<lparr>world := w\<rparr>"] world_step [of s w] trans by simp blast
  then show "keeps R (transitionStep rs c i ts)"
    unfolding keeps_iff_wp transitionStep_def
    by (auto simp: wp_bind [of "in_world m" for m] wp_in_world wp_time_Now wp_bind [of "step_at k" for k]
        wp_step_at wp_seq wp_upd_step wp_panic world_step split: sum.split)
qed

end

sublocale observed_frame \<subseteq> engine_frame R run_ok id_ok
  by unfold_locales
     (auto intro: observe id_step transitions_keep run_step undo_step release_step)

section \<open>Between two saves\<close>

text \<open>
  \<open>body_frame\<close> is for relations that the parts of the engine between two transitions keep: calls,
  retries, spans, notifications and the small updates of the record (attempts, outputs, messages,
  the current step). \<open>may\<close> says which observations the relation tolerates.
\<close>

locale body_frame = frame R
  for R :: "('d, 'u) machine \<Rightarrow> ('d, 'u) machine \<Rightarrow> bool" +
  fixes may :: "'d obs \<Rightarrow> bool"
  assumes world_step: "R s (s\<lparr>world := w\<rparr>)"
    and obs_step: "may x \<Longrightarrow> R s (s\<lparr>trace := trace s @ [x]\<rparr>)"
    and attempts_step: "R s (s\<lparr>exec := (exec s)\<lparr>Steps :=
      (Steps (exec s))[i := (Steps (exec s) ! i)\<lparr>sAttempts := sAttempts (Steps (exec s) ! i) + 1\<rparr>]\<rparr>\<rparr>)"
begin

lemma in_world_keeps: "keeps R (in_world m)"
  unfolding in_world_def by (rule zoom_frame) (rule world_step)

lemma emit_keeps: "may x \<Longrightarrow> keeps R (emit x)"
  unfolding emit_def by (rule modify_frame) (rule obs_step)

lemma attempt_keeps: "keeps R (upd_step i (\<lambda>s. s\<lparr>sAttempts := sAttempts s + 1\<rparr>))"
  unfolding upd_step_def upd_exec_def by (rule modify_frame) (rule attempts_step)

lemma step_at_keeps: "keeps R (step_at i)"
  unfolding step_at_def by (intro frame_rules)

lemmas body_rules = ret_frame panic_frame gets_frame bind_frame seq_frame deferred_frame
  on_panic_frame recovered_frame if_frame option_frame prod_frame in_world_keeps emit_keeps
  attempt_keeps step_at_keeps

lemma startSpan_keeps: "(\<And>x. is_span x \<Longrightarrow> may x) \<Longrightarrow> keeps R (startSpan rs c n)"
  unfolding startSpan_def by (intro body_rules) simp_all

lemma startSpan_end_keeps:
  assumes "startSpan rs c n s = (Ret (c', fin), t)" and "\<And>x. is_span x \<Longrightarrow> may x"
  shows "keeps R fin"
proof -
  have "wp (startSpan rs c n) (\<lambda>(c', fin) _. keeps R fin) (\<lambda>_. True) s"
    by (auto simp: startSpan_def wp_simps assms(2) intro!: wp_callback body_rules split: option.split)
  from wp_RetD [OF this assms(1)] show ?thesis by simp
qed

lemma with_span_keeps:
  assumes "\<And>x. is_span x \<Longrightarrow> may x" and "\<And>c'. keeps R (f c')"
  shows "keeps R (bind_go (startSpan rs c n) (\<lambda>(c', endSpan). deferred endSpan (f c')))"
proof (rule bind_frame_ret [OF startSpan_keeps])
  show "may x" if "is_span x" for x using that by (rule assms(1))
  fix s p t assume r: "startSpan rs c n s = (Ret p, t)"
  obtain c' fin where p: "p = (c', fin)" by (cases p)
  have "keeps R fin" using r assms(1) unfolding p by (rule startSpan_end_keeps)
  then show "keeps R (case p of (c', endSpan) \<Rightarrow> deferred endSpan (f c'))"
    using p assms(2) by (simp add: deferred_frame)
qed

lemma callAction_keeps:
  assumes "\<And>x. is_span x \<or> is_callback x \<Longrightarrow> may x"
  shows "keeps R (callAction rs c opID step timeout data)"
  unfolding callAction_def Let_def run_action_def
  by (rule with_span_keeps) (auto intro!: body_rules simp: assms)

lemma run_attempts_keeps:
  assumes "\<And>x. is_span x \<or> is_callback x \<Longrightarrow> may x"
  shows "keeps R (run_attempts rs c ste opID i step data attempt)"
proof (induction "nat (MaxAttempts (retryPolicyFor rs step) - attempt)" arbitrary: attempt
    rule: less_induct)
  case less
  have again: "keeps R (run_attempts rs c ste opID i step data (attempt + 1))"
    if "\<not> (isNonRetryable x \<or> MaxAttempts (retryPolicyFor rs step) \<le> attempt)" for x
    using that by (intro less.hyps) simp
  have "keeps R (sleepOrDone c delay)" for delay
    unfolding sleepOrDone_def by (intro body_rules) (simp add: assms)
  moreover have "keeps R (callAction rs c opID step (step_timeout step) data)"
    by (rule callAction_keeps) (rule assms)
  moreover have "keeps R (saga_expired c ste)" unfolding saga_expired_def by (intro body_rules)
  ultimately show ?case
    by (subst run_attempts.simps)
       (intro body_rules; (assumption | rule again; assumption))
qed

lemma runStep_keeps:
  "(\<And>x. is_span x \<or> is_callback x \<Longrightarrow> may x) \<Longrightarrow> keeps R (runStep rs c ste eid i step data)"
  unfolding runStep_def by (rule run_attempts_keeps)

lemma invokeCompensate_keeps:
  assumes "\<And>x. is_span x \<or> is_callback x \<Longrightarrow> may x"
  shows "keeps R (invokeCompensate rs c i f)"
  unfolding invokeCompensate_def Let_def
  by (rule bind_frame [OF gets_frame], rule with_span_keeps)
     (auto intro!: body_rules simp: assms)

lemma observers_keep:
  assumes "\<And>x. is_observer x \<Longrightarrow> may x"
  shows "keeps R (publish rs c ev)" "keeps R (logEvent rs c ev)" "keeps R (incEventCounter rs ev)"
    "keeps R (observeDuration rs n d ls)"
  unfolding publish_def logEvent_def incEventCounter_def observeDuration_def Let_def
  by (intro body_rules assms; simp)+

lemma notify_keeps:
  assumes "\<And>x. is_observer x \<Longrightarrow> may x"
  shows "keeps R (notifyExec rs c to')" "keeps R (notifyStep rs c i ts)"
proof -
  note obs = observers_keep [OF assms]
  show "keeps R (notifyExec rs c to')"
    unfolding notifyExec_def Let_def
    by (intro body_rules obs; (assumption | auto split: option.split bool.split intro!: body_rules obs))
  show "keeps R (notifyStep rs c i ts)"
    unfolding notifyStep_def publishAndLog_def Let_def by (intro body_rules obs; assumption)
qed

lemma do_Acquire_keeps:
  "(\<And>b i own. may (ObsAcquire i own) \<and> may (ObsAcquired b)) \<Longrightarrow> keeps R (do_Acquire l c i own ttl)"
  unfolding do_Acquire_def by (intro body_rules) simp_all

lemma release_lock_keeps: "(\<And>i own. may (ObsRelease i own)) \<Longrightarrow> keeps R (release_lock rs c)"
  unfolding release_lock_def by (intro body_rules) simp_all

lemma errors_New_keeps: "keeps R (errors_New m)"
  unfolding errors_New_def by (intro body_rules)

lemma all_compensated_keeps: "keeps R (all_compensated i n)"
  by (induction n arbitrary: i) (auto intro!: body_rules)

end

end
