(* ===== verification/Idempotency_Keys.thy ===== *)
theory Idempotency_Keys
  imports Engine_Frames
begin

text \<open>
  The first discipline of the trace: every call to an action or a compensation carries the
  idempotency key built from the execution and the step (\<open>idempotency.go\<close>), the same on every
  attempt and after every crash; and which keys can coincide.
\<close>

section \<open>Keys on the trace\<close>

fun key_ok :: "string \<Rightarrow> 'd obs \<Rightarrow> bool" where
  "key_ok i (ObsAction n op x) = (op = operationID i n)"
| "key_ok i (ObsCompensate n op x) = (op = compensationOperationID i n)"
| "key_ok i (ObsSave e) = (ID e = i)"
| "key_ok i (ObsAcquire j own) = (j = i)"
| "key_ok i (ObsRelease j own) = (j = i)"
| "key_ok i _ = True"

definition keyed :: "string \<Rightarrow> ('d, 'u) machine \<Rightarrow> ('d, 'u) machine \<Rightarrow> bool" where
  "keyed i s t \<longleftrightarrow> (ID (exec s) = i \<longrightarrow>
     ID (exec t) = i \<and> (\<exists>tr. trace t = trace s @ tr \<and> list_all (key_ok i) tr))"

text \<open>A tracer derives its context from the one it is given, so the key stays readable.\<close>

definition tracer_keeps_key :: "('d, 'u) definition_ \<Rightarrow> bool" where
  "tracer_keeps_key d \<longleftrightarrow> (\<forall>t. d_tracer d = Some t \<longrightarrow> (\<forall>c n w c' fin w'.
     StartSpan t c n w = (Ret (c', fin), w') \<longrightarrow> OperationID c' = OperationID c))"

lemma startSpan_key:
  assumes "tracer_keeps_key (rs_def rs)" and "startSpan rs c n s = (Ret (c', fin), t)"
  shows "OperationID c' = OperationID c"
proof -
  have "wp (startSpan rs c n) (\<lambda>(c', fin) _. OperationID c' = OperationID c) (\<lambda>_. True) s"
    using assms(1)
    by (auto simp: startSpan_def wp_simps tracer_keeps_key_def intro!: wp_callback split: option.split) blast
  from wp_RetD [OF this assms(2)] show ?thesis by simp
qed

interpretation km: machine_frame "keyed i" for i
  by unfold_locales (auto simp: keyed_def)

lemma emit_keyed: "key_ok i x \<Longrightarrow> keeps (keyed i) (emit x)"
  unfolding emit_def by (rule km.modify_frame) (simp add: keyed_def)

lemma upd_step_keyed: "keeps (keyed i) (upd_step k f)"
  unfolding upd_step_def upd_exec_def by (rule km.modify_frame) (simp add: keyed_def)

lemma without_keyed:
  assumes "keeps quiet m" and "keeps (without (\<lambda>x. \<not> key_ok i x)) m"
  shows "keeps (keyed i) m"
  using assms by (auto simp: keeps_def keyed_def quiet_def without_def)

lemma with_span_keyed:
  assumes "tracer_keeps_key (rs_def rs)"
    and "\<And>c'. OperationID c' = OperationID c \<Longrightarrow> keeps (keyed i) (f c')"
  shows "keeps (keyed i) (bind_go (startSpan rs c n) (\<lambda>(c', endSpan). deferred endSpan (f c')))"
proof (rule km.bind_frame_ret)
  have obs: "key_ok i x" if "is_observer x" for x using that by (cases x) auto
  show "keeps (keyed i) (startSpan rs c n)"
    by (rule without_keyed [OF startSpan_quiet startSpan_without]) (use obs in blast)
  fix s p t assume r: "startSpan rs c n s = (Ret p, t)"
  obtain c' fin where p: "p = (c', fin)" by (cases p)
  note r' = r [unfolded p]
  have "keeps (keyed i) fin"
    by (rule without_keyed [OF startSpan_end_quiet [OF r'] startSpan_end_without [OF r']])
       (use obs in blast)
  then show "keeps (keyed i) (case p of (c', endSpan) \<Rightarrow> deferred endSpan (f c'))"
    using startSpan_key [OF assms(1)] r p by (auto intro!: km.deferred_frame assms(2))
qed

lemma run_action_keyed:
  "OperationID c = operationID i (Name step) \<Longrightarrow> keeps (keyed i) (run_action step c data)"
  unfolding run_action_def by (intro km.machine_rules emit_keyed; simp)

lemma deadline_key:
  "in_world (context_WithTimeoutCause c timeout e) s = (Ret c', t) \<Longrightarrow> OperationID c' = OperationID c"
proof -
  assume r: "in_world (context_WithTimeoutCause c timeout e) s = (Ret c', t)"
  have "wp (in_world (context_WithTimeoutCause c timeout e)) (\<lambda>c' _. OperationID c' = OperationID c)
      (\<lambda>_. True) s" by (simp add: wp_simps)
  from wp_RetD [OF this r] show ?thesis .
qed

lemma callAction_keyed:
  assumes "tracer_keeps_key (rs_def rs)"
  shows "keeps (keyed i) (callAction rs c (operationID i (Name step)) step timeout data)"
  unfolding callAction_def Let_def
proof (rule with_span_keyed [OF assms])
  fix c' assume "OperationID c' = OperationID (withOperationID c (operationID i (Name step)))"
  then have key: "OperationID c' = operationID i (Name step)" by simp
  show "keeps (keyed i) (if sint timeout \<le> 0 then run_action step c' data
      else bind_go (in_world new_ref) (\<lambda>r.
        bind_go (in_world (context_WithTimeoutCause c' timeout (StepTimeoutError r (Name step) timeout)))
          (\<lambda>actionCtx. bind_go (run_action step actionCtx data) (\<lambda>(out, err).
            bind_go (in_world (context_Cause actionCtx)) (\<lambda>cause.
              if errors_Is_opt cause (StepTimeoutError r (Name step) timeout)
              then ret (None, Some (StepTimeoutError r (Name step) timeout)) else ret (out, err))))))"
    by (intro km.if_frame km.bind_frame [where m = "in_world new_ref"] km.in_world_keeps run_action_keyed key
        km.bind_frame_ret [where m = "in_world (context_WithTimeoutCause c' timeout e)" for e])
       (auto simp: key dest: deadline_key intro!: km.machine_rules run_action_keyed)
qed

lemma run_attempts_keyed:
  "tracer_keeps_key (rs_def rs) \<Longrightarrow>
   keeps (keyed i) (run_attempts rs c ste (operationID i (Name step)) k step data attempt)"
proof (induction "nat (MaxAttempts (retryPolicyFor rs step) - attempt)" arbitrary: attempt
    rule: less_induct)
  case less
  have sleep: "keeps (keyed i) (sleepOrDone c delay)" for delay
    by (rule without_keyed [OF sleepOrDone_quiet sleepOrDone_without]) simp
  have expired: "keeps (keyed i) (saga_expired c ste)"
    by (rule without_keyed [OF saga_expired_quiet saga_expired_without])
  have again: "keeps (keyed i) (run_attempts rs c ste (operationID i (Name step)) k step data (attempt + 1))"
    if "\<not> (isNonRetryable x \<or> MaxAttempts (retryPolicyFor rs step) \<le> attempt)" for x
    using that less.prems by (intro less.hyps) simp_all
  show ?case
    by (subst run_attempts.simps)
       (intro km.machine_rules upd_step_keyed callAction_keyed less.prems sleep expired;
         rule again; assumption)
qed

text \<open>What a computation reads of the execution is about \<open>i\<close>.\<close>

lemma keyed_gets:
  assumes "\<And>e. ID e = i \<Longrightarrow> keeps (keyed i) (f (g e))"
  shows "keeps (keyed i) (bind_go (gets (\<lambda>s. g (exec s))) f)"
  unfolding keeps_def
proof
  fix s :: "('a, 'b) machine"
  show "keyed i s (snd (bind_go (gets (\<lambda>s. g (exec s))) f s))"
    using assms [of "exec s"]
    by (cases "ID (exec s) = i") (simp_all add: keeps_def bind_go_def gets_def, simp add: keyed_def)
qed

lemma invokeCompensate_keyed:
  assumes "tracer_keeps_key (rs_def rs)"
  shows "keeps (keyed i) (invokeCompensate rs c k f)"
  unfolding invokeCompensate_def Let_def
  by (rule keyed_gets [where g = "\<lambda>e. e"], rule with_span_keyed [OF assms])
     (auto intro!: km.machine_rules emit_keyed)

lemma do_Acquire_keyed: "j = i \<Longrightarrow> keeps (keyed i) (do_Acquire l c j own ttl)"
  unfolding do_Acquire_def by (intro km.machine_rules emit_keyed; simp)

lemma store_Save_keyed: "keeps (keyed i) (store_Save d c)"
  unfolding store_Save_def
  by (rule keyed_gets [where g = "\<lambda>e. e"]) (auto intro!: km.machine_rules emit_keyed)

lemma save_keyed: "keeps (keyed i) (save rs c)"
  unfolding save_def
  by (intro km.option_frame store_Save_keyed keyed_gets [where g = ID])
     (auto intro!: km.machine_rules store_Save_keyed do_Acquire_keyed)

lemma release_lock_keyed: "keeps (keyed i) (release_lock rs c)"
  unfolding release_lock_def
  by (intro km.option_frame km.ret_frame keyed_gets [where g = ID])
     (auto intro!: km.machine_rules emit_keyed)

interpretation keyed_run: observed_frame "keyed i" "\<lambda>rs. tracer_keeps_key (rs_def rs)" "\<lambda>j. j = i" for i
proof unfold_locales
  fix x :: "'a obs" and s :: "('a, 'b) machine"
  assume "is_observer x"
  then have "key_ok i x" by (cases x) auto
  then show "keyed i s (s\<lparr>trace := trace s @ [x]\<rparr>)" by (simp add: keyed_def)
next
  fix f :: "string \<Rightarrow> ('a, 'b, gerr option) engine"
  assume "\<And>j. j = i \<Longrightarrow> keeps (keyed i) (f j)"
  then show "keeps (keyed i) (bind_go (gets (\<lambda>m. ID (exec m))) f)" by (intro keyed_gets) simp
qed (auto simp: runStep_def intro: save_keyed run_attempts_keyed invokeCompensate_keyed release_lock_keyed)

lemma resume_keyed:
  assumes "tracer_keeps_key d"
  shows "keeps (keyed i) (resume d c)"
  unfolding resume_def
  by (intro km.machine_rules keyed_gets [where g = ID] do_Acquire_keyed keyed_run.resume_held_keeps)
     (use assms in simp_all)

text \<open>
  C26: everything \<open>resume\<close> does concerns the one execution it was given, and every call of an
  action or a compensation carries the key of the execution and the step: the same key on every
  retry and on every resumption, so that the far side can recognise a repetition.
\<close>

theorem calls_carry_their_key:
  assumes "tracer_keeps_key d"
  shows "\<exists>tr. trace (snd (resume d c s)) = trace s @ tr \<and> list_all (key_ok (ID (exec s))) tr"
  using resume_keyed [OF assms, of "ID (exec s)" c] by (simp add: keeps_def keyed_def)

theorem calls_carry_their_key_witness:
  "\<exists>tr. trace (snd (resume (order_saga None None) (Root 0) (order_start (order_saga None None)))) = tr
     \<and> list_all (key_ok ''e1'') tr"
proof -
  have k: "tracer_keeps_key (order_saga None None)" by (simp add: tracer_keeps_key_def order_saga_def)
  show ?thesis
    using calls_carry_their_key [OF k, of "Root 0" "order_start (order_saga None None)"]
    by (simp add: order_start_def new_execution_def)
qed

section \<open>Which keys can coincide\<close>

lemma split_at_slash:
  assumes "CHR ''/'' \<notin> set i" and "CHR ''/'' \<notin> set j" and "i @ ''/'' @ m = j @ ''/'' @ n"
  shows "i = j \<and> m = n"
  using assms
proof (induction i arbitrary: j)
  case Nil
  then show ?case by (cases j) auto
next
  case (Cons x i)
  then show ?case by (cases j) auto
qed

text \<open>
  C27: identifiers of executions are hexadecimal, and under two of them no key of one execution is
  a key of another, whatever the steps are called; within one execution the key of an action
  determines the step, and so does the key of a compensation.
\<close>

theorem keys_identify_the_call:
  assumes "set i \<subseteq> set hex_alphabet" and "set j \<subseteq> set hex_alphabet"
  shows "(operationID i m = operationID j n) = (i = j \<and> m = n)
    \<and> (compensationOperationID i m = compensationOperationID j n) = (i = j \<and> m = n)
    \<and> (operationID i m = compensationOperationID j n) = (i = j \<and> m = n @ ''/compensate'')"
proof -
  have s: "CHR ''/'' \<notin> set i" "CHR ''/'' \<notin> set j" using assms by (auto simp: hex_alphabet_def)
  have "operationID i m = operationID j n \<longleftrightarrow> i = j \<and> m = n"
    using split_at_slash [OF s, of m n] by (auto simp: operationID_def)
  moreover have "compensationOperationID i m = compensationOperationID j n \<longleftrightarrow> i = j \<and> m = n"
    using split_at_slash [OF s, of "m @ ''/compensate''" "n @ ''/compensate''"]
    by (auto simp: compensationOperationID_def)
  moreover have "operationID i m = compensationOperationID j n \<longleftrightarrow> i = j \<and> m = n @ ''/compensate''"
    using split_at_slash [OF s, of m "n @ ''/compensate''"]
    by (auto simp: operationID_def compensationOperationID_def)
  ultimately show ?thesis by blast
qed

theorem keys_identify_the_call_witness:
  "operationID ''ab'' ''pay'' \<noteq> operationID ''cd'' ''pay''
   \<and> operationID ''ab'' ''pay/compensate'' = compensationOperationID ''ab'' ''pay''"
  using keys_identify_the_call [of "''ab''" "''cd''" "''pay''" "''pay''"]
    keys_identify_the_call [of "''ab''" "''ab''" "''pay/compensate''" "''pay''"]
  by (simp add: hex_alphabet_def)

end
