(* ===== verification/Lease_Discipline.thy ===== *)
theory Lease_Discipline
  imports Engine_Frames
begin

text \<open>
  The second discipline of the trace, for a store that is a \<open>Locker\<close> (\<open>lock.go\<close>): nothing is done
  before the lease is taken, every save is preceded by a renewal that succeeded, and the lease is
  given back last, however the call ends.
\<close>

section \<open>Every save follows a renewal\<close>

text \<open>\<open>guarded b tr\<close>: every save in \<open>tr\<close> comes right after a successful acquisition (\<open>b\<close>: the
  observation before \<open>tr\<close> was one).\<close>

primrec guarded :: "bool \<Rightarrow> 'd obs list \<Rightarrow> bool" where
  "guarded b [] = True"
| "guarded b (x # tr) = (case x of
      ObsSave e \<Rightarrow> b \<and> guarded False tr
    | ObsAcquired ok \<Rightarrow> guarded ok tr
    | _ \<Rightarrow> guarded False tr)"

lemma guarded_mono: "guarded False tr \<Longrightarrow> guarded b tr"
  by (cases tr) (auto split: obs.splits)

lemma guarded_append: "guarded b xs \<Longrightarrow> guarded False ys \<Longrightarrow> guarded b (xs @ ys)"
  by (induction xs arbitrary: b) (auto split: obs.splits intro: guarded_mono)

definition leased :: "('d, 'u) machine \<Rightarrow> ('d, 'u) machine \<Rightarrow> bool" where
  "leased s t \<longleftrightarrow> ID (exec t) = ID (exec s) \<and> (\<exists>tr. trace t = trace s @ tr \<and> guarded False tr)"

interpretation lm: machine_frame leased
  by unfold_locales (fastforce simp: leased_def intro: guarded_append)+

fun is_save :: "'d obs \<Rightarrow> bool" where
  "is_save (ObsSave e) = True"
| "is_save _ = False"

lemma guarded_without: "list_all (\<lambda>x. \<not> is_save x) tr \<Longrightarrow> guarded b tr"
  by (induction tr arbitrary: b) (auto split: obs.splits)

lemma without_leased:
  assumes "keeps evolves m" and "keeps (without is_save) m"
  shows "keeps leased m"
  using assms
  by (fastforce simp: keeps_def leased_def evolves_def exec_evolves_def without_def intro: guarded_without)

lemma not_save: "is_span x \<or> is_callback x \<Longrightarrow> \<not> is_save x"
  by (cases x) auto

lemma save_leased:
  assumes "locker rs = Some l"
  shows "keeps leased (save rs c)"
proof -
  have "wp (save rs c) (\<lambda>_. leased s) (leased s) s" for s
    by (auto simp: save_def assms do_Acquire_def store_Save_def wp_simps leased_def
        intro!: wp_callback split: option.split)
  then show ?thesis by (simp add: keeps_iff_wp)
qed

interpretation leased_run: observed_frame leased "\<lambda>rs. locker rs \<noteq> None" "\<lambda>_. True"
proof unfold_locales
  fix x :: "'a obs" and s :: "('a, 'b) machine"
  assume "is_observer x"
  then have "guarded False [x]" by (cases x) auto
  then show "leased s (s\<lparr>trace := trace s @ [x]\<rparr>)" by (simp add: leased_def)
next
  fix f :: "string \<Rightarrow> ('a, 'b, gerr option) engine"
  assume "\<And>i. True \<Longrightarrow> keeps leased (f i)"
  then show "keeps leased (bind_go (gets (\<lambda>m. ID (exec m))) f)" by (intro lm.machine_rules) simp
next
  fix rs :: "('a, 'b) run_state" and c k and g :: "('a, 'b) compensate_func" and i ste step data
  show "keeps leased (runStep rs c ste i k step data)"
    unfolding runStep_def
    by (rule without_leased [OF run_attempts_evolves run_attempts_without]) (rule not_save)
  show "keeps leased (invokeCompensate rs c k g)"
    by (rule without_leased [OF invokeCompensate_evolves invokeCompensate_without]) (rule not_save)
  show "keeps leased (release_lock rs c)"
    by (rule without_leased [OF release_lock_evolves release_lock_without]) simp
qed (auto intro: save_leased)

section \<open>From the first acquisition to the release\<close>

text \<open>Since \<open>s\<close> a guarded trace with the release at its end.\<close>

definition released :: "string \<Rightarrow> ('d, 'u) machine \<Rightarrow> ('d, 'u) machine \<Rightarrow> bool" where
  "released own s t \<longleftrightarrow> (\<exists>tr. trace t = trace s @ tr @ [ObsRelease (ID (exec s)) own] \<and> guarded False tr)"

lemma release_wp:
  assumes "locker rs = Some l" and "leased s t"
  shows "wp (release_lock rs c) (\<lambda>_. released (lockOwner rs) s) (released (lockOwner rs) s) t"
  using assms(2)
  by (auto simp: release_lock_def assms(1) wp_simps leased_def released_def intro!: wp_callback)

lemma leased_wp:
  assumes "keeps leased m" and "leased s t"
  shows "wp m (\<lambda>_. leased s) (leased s) t"
  using assms lm.trans by (simp add: wp_final keeps_def) blast

lemma resume_held_released:
  assumes l: "locker rs = Some l"
  shows "wp (resume_held rs c) (\<lambda>_. released (lockOwner rs) s) (released (lockOwner rs) s) s"
proof -
  let ?F = "released (lockOwner rs) s"
  have l': "locker rs \<noteq> None" using l by simp
  have run: "wp (deferred (release_lock rs c2) (deferred fin (dispatch rs c2 ste))) (\<lambda>_. ?F) ?F t"
    if "leased s t" "keeps leased fin" for c2 fin ste t
    unfolding wp_deferred [of "release_lock rs c2"]
    by (rule wp_mono [OF leased_wp [OF lm.deferred_frame that(1)]])
       (use that leased_run.dispatch_keeps [of rs] l release_wp in auto)
  have span: "wp (startSpan rs c n) (\<lambda>(c', fin) t. leased s t \<and> keeps leased fin) (leased s) s" for n
    using leased_wp [OF leased_run.startSpan_keeps lm.refl, of rs c n s]
      leased_run.startSpan_end_keeps [of rs c n s]
    by (auto simp: wp_def split: prod.splits outcome.splits)
  have timeout: "wp (bind_go (start_timeout (rs_def rs) c1) (\<lambda>(c2, ste).
        deferred (release_lock rs c2) (deferred fin (dispatch rs c2 ste)))) (\<lambda>_. ?F) ?F t"
    if "leased s t" "keeps leased fin" for c1 fin t
  proof -
    have "leased s (t\<lparr>world := w\<rparr>)" for w using that(1) by (simp add: leased_def)
    then show ?thesis
      unfolding wp_bind
      by (intro start_timeout_wp) (auto intro!: run that(2) split: prod.split)
  qed
  show ?thesis
    unfolding resume_held_def wp_bind [of "on_panic _ _"] wp_on_panic
    by (rule wp_mono [OF span]) (auto intro: timeout release_wp [OF l] split: prod.split)
qed

text \<open>The two ways a call of \<open>resume\<close> that got as far as an answer of the lease can go.\<close>

definition lease_refused :: "('d, 'u) machine \<Rightarrow> ('d, 'u) machine \<Rightarrow> bool" where
  "lease_refused s t \<longleftrightarrow> exec t = exec s
     \<and> (\<exists>own. trace t = trace s @ [ObsAcquire (ID (exec s)) own, ObsAcquired False])"

definition lease_used :: "('d, 'u) machine \<Rightarrow> ('d, 'u) machine \<Rightarrow> bool" where
  "lease_used s t \<longleftrightarrow> (\<exists>own mid. trace t = trace s
     @ [ObsAcquire (ID (exec s)) own, ObsAcquired True] @ mid @ [ObsRelease (ID (exec s)) own]
     \<and> guarded False mid)"

lemma released_used:
  assumes "released own u t" and "trace u = trace s @ [ObsAcquire (ID (exec s)) own, ObsAcquired True]"
    and "ID (exec u) = ID (exec s)"
  shows "lease_used s t"
  using assms by (auto simp: released_def lease_used_def)

lemma resume_lease_wp:
  assumes l: "as_Locker (d_store d) = Some l"
  shows "wp (resume d c)
    (\<lambda>err t. lease_refused s t \<and> (\<exists>x. err = Some x \<and> infra_error x) \<or> lease_used s t)
    (\<lambda>t. trace t = trace s \<or> (\<exists>own. trace t = trace s @ [ObsAcquire (ID (exec s)) own])
       \<or> lease_used s t) s"
proof -
  have held: "wp (resume_held \<lparr>rs_def = d, locker = Some l, lockOwner = own\<rparr> c)
      (\<lambda>err t. lease_refused s t \<and> (\<exists>x. err = Some x \<and> infra_error x) \<or> lease_used s t)
      (\<lambda>t. trace t = trace s \<or> (\<exists>own. trace t = trace s @ [ObsAcquire (ID (exec s)) own])
         \<or> lease_used s t) u"
    if "trace u = trace s @ [ObsAcquire (ID (exec s)) own, ObsAcquired True]" "exec u = exec s" for own u
    by (rule wp_mono [OF resume_held_released [where l = l]])
       (use that in \<open>auto intro: released_used\<close>)
  have own: "wp (in_world idgen_New) (\<lambda>_ t. exec t = exec s \<and> trace t = trace s) (\<lambda>t. trace t = trace s) s"
    by (auto simp: wp_in_world intro: wp_callback)
  have acq: "wp (do_Acquire l c i own ttl) (\<lambda>(ok, err) t. exec t = exec s
      \<and> trace t = trace s @ [ObsAcquire i own, ObsAcquired (ok \<and> err = None)])
      (\<lambda>t. trace t = trace s @ [ObsAcquire i own]) u"
    if "exec u = exec s" "trace u = trace s" for i own ttl u
    using that by (auto simp: do_Acquire_def wp_simps intro!: wp_callback)
  have refused: "lease_refused s t" if "exec t = exec s"
    "\<exists>own. trace t = trace s @ [ObsAcquire (ID (exec s)) own, ObsAcquired False]" for t
    using that by (auto simp: lease_refused_def)
  show ?thesis
    by (auto simp: resume_def l wp_bind wp_gets wp_ret
        intro!: wp_mono [OF own] wp_mono [OF acq] held refused split: option.split)
qed



end
