(* ===== verification/Event_Truth.thy ===== *)
theory Event_Truth
  imports Engine_Frames
begin

text \<open>
  The third discipline of the trace: an event is published only after the record it reports has
  been saved, and says what that record says (\<open>events.go\<close>, \<open>notifyExec\<close>, \<open>notifyStep\<close>).
\<close>

section \<open>What an event may say\<close>

definition reports :: "'d execution \<Rightarrow> event \<Rightarrow> bool" where
  "reports e ev \<longleftrightarrow> ev_ExecutionID ev = ID e \<and> ev_SagaName ev = SagaName e
     \<and> (ev_Step ev = [] \<and> ev_Error ev = Error e \<and> sagaEventType (Status e) = Some (ev_Type ev)
        \<or> list_ex (\<lambda>s. ev_Step ev = sName s \<and> ev_Error ev = sError s
            \<and> stepEventType (sStatus s) = Some (ev_Type ev)) (Steps e))"

text \<open>
  \<open>truthful p c tr\<close>: every event published in \<open>tr\<close> reports the record saved last, and that save
  succeeded. \<open>p\<close> is a save that has not been answered yet, \<open>c\<close> the record saved last.
\<close>

primrec truthful :: "'d execution option \<Rightarrow> 'd execution option \<Rightarrow> 'd obs list \<Rightarrow> bool" where
  "truthful p c [] = True"
| "truthful p c (x # tr) = (case x of
      ObsSave e \<Rightarrow> truthful (Some e) None tr
    | ObsSaved r \<Rightarrow> truthful None (if r = None then p else None) tr
    | ObsPublish ev \<Rightarrow> (case c of None \<Rightarrow> False | Some e \<Rightarrow> reports e ev) \<and> truthful p c tr
    | _ \<Rightarrow> truthful p c tr)"

fun is_publish :: "'d obs \<Rightarrow> bool" where
  "is_publish (ObsPublish ev) = True"
| "is_publish _ = False"

fun says :: "'d execution \<Rightarrow> 'd obs \<Rightarrow> bool" where
  "says e (ObsPublish ev) = reports e ev"
| "says e (ObsSave x) = False"
| "says e (ObsSaved r) = False"
| "says e _ = True"

lemma truthful_append:
  "truthful p c xs \<Longrightarrow> (\<And>p c. truthful p c ys) \<Longrightarrow> truthful p c (xs @ ys)"
  by (induction xs arbitrary: p c) (auto split: obs.splits option.splits)

lemma truthful_none: "list_all (\<lambda>x. \<not> is_publish x) tr \<Longrightarrow> truthful p c tr"
  by (induction tr arbitrary: p c) (auto split: obs.splits)

lemma truthful_says: "list_all (says e) tr \<Longrightarrow> truthful None (Some e) tr"
  by (induction tr) (auto split: obs.splits)

lemma truthful_saved:
  "list_all (\<lambda>x. \<not> is_publish x) xs \<Longrightarrow> list_all (says e) ys \<Longrightarrow>
   truthful p c (xs @ ObsSave e # ObsSaved None # ys)"
  by (induction xs arbitrary: p c) (auto split: obs.splits intro: truthful_says)

definition told :: "('d, 'u) machine \<Rightarrow> ('d, 'u) machine \<Rightarrow> bool" where
  "told s t \<longleftrightarrow> (\<exists>tr. trace t = trace s @ tr \<and> (\<forall>p c. truthful p c tr))"

interpretation tm: machine_frame told
  by unfold_locales (fastforce simp: told_def intro: truthful_append)+

lemma without_told: "keeps (without is_publish) m \<Longrightarrow> keeps told m"
  by (fastforce simp: keeps_def without_def told_def intro: truthful_none)

section \<open>The two transitions\<close>

lemma observer_says:
  "keeps (without (\<lambda>x. \<not> says e x)) (logEvent rs c ev)"
  "keeps (without (\<lambda>x. \<not> says e x)) (incEventCounter rs ev)"
  "keeps (without (\<lambda>x. \<not> says e x)) (observeDuration rs n d ls)"
  "reports e ev \<Longrightarrow> keeps (without (\<lambda>x. \<not> says e x)) (publish rs c ev)"
  unfolding logEvent_def incEventCounter_def observeDuration_def publish_def Let_def
  by (intro without_rules; simp)+

lemma notifyExec_says:
  assumes "Status (exec s) = to'"
  shows "without (\<lambda>x. \<not> says (exec s) x) s (snd (notifyExec rs c to' s))"
proof -
  let ?R = "without (\<lambda>x. \<not> says (exec s) x)"
  have rep: "reports (exec s) \<lparr>ev_Type = ty, ev_ExecutionID = ID (exec s), ev_SagaName = SagaName (exec s),
      ev_Step = [], ev_Error = Error (exec s), ev_At = at\<rparr>" if "sagaEventType to' = Some ty" for ty at
    using that assms by (simp add: reports_def)
  have "keeps ?R (bind_go (in_world time_Now) (\<lambda>at.
      let ev = \<lparr>ev_Type = ty, ev_ExecutionID = ID (exec s), ev_SagaName = SagaName (exec s),
                ev_Step = [], ev_Error = Error (exec s), ev_At = at\<rparr>
      in seq_go (publish rs c ev) (seq_go (logEvent rs c ev) (seq_go (incEventCounter rs ev)
           (case (IsTerminal to', StartedAt (exec s)) of
              (True, Some started) \<Rightarrow> bind_go (in_world time_Now) (\<lambda>now.
                observeDuration rs ''saga_duration_seconds'' (now - started)
                  [''saga'', SagaName (exec s), ''status'', status_string to'])
            | _ \<Rightarrow> ret ())))))" if "sagaEventType to' = Some ty" for ty
    unfolding Let_def
    by (intro without_rules observer_says rep that)
       (auto split: option.split bool.split intro!: without_rules observer_says)
  then show ?thesis
    by (cases "sagaEventType to'")
       (simp_all add: notifyExec_def bind_go_def gets_def ret_def keeps_def, simp add: without_def)
qed

lemma notifyStep_says:
  assumes "sStatus (Steps (exec s) ! i) = to'" and "i < length (Steps (exec s))"
  shows "without (\<lambda>x. \<not> says (exec s) x) s (snd (notifyStep rs c i to' s))"
proof -
  let ?R = "without (\<lambda>x. \<not> says (exec s) x)"
  have rep: "reports (exec s) \<lparr>ev_Type = ty, ev_ExecutionID = ID (exec s), ev_SagaName = SagaName (exec s),
      ev_Step = sName (Steps (exec s) ! i), ev_Error = sError (Steps (exec s) ! i), ev_At = at\<rparr>"
    if "stepEventType to' = Some ty" for ty at
    using that assms by (auto simp: reports_def list_ex_iff intro!: bexI [of _ "Steps (exec s) ! i"])
  have "keeps ?R (bind_go (in_world time_Now) (\<lambda>at.
        publishAndLog rs c
          \<lparr>ev_Type = ty, ev_ExecutionID = ID (exec s), ev_SagaName = SagaName (exec s),
           ev_Step = sName (Steps (exec s) ! i), ev_Error = sError (Steps (exec s) ! i), ev_At = at\<rparr>))"
    if "stepEventType to' = Some ty" for ty
    unfolding publishAndLog_def by (intro without_rules observer_says rep that)
  then show ?thesis
    by (cases "stepEventType to'")
       (simp_all add: notifyStep_def bind_go_def gets_def ret_def keeps_def, simp add: without_def)
qed

text \<open>What a save leaves on the trace: no event, and the saved record last if it succeeded.\<close>

definition saved_last :: "('d, 'u) machine \<Rightarrow> bool \<Rightarrow> ('d, 'u) machine \<Rightarrow> bool" where
  "saved_last s ok t \<longleftrightarrow> exec t = exec s \<and> (\<exists>xs. list_all (\<lambda>x. \<not> is_publish x) xs
     \<and> trace t = trace s @ xs @ (if ok then [ObsSave (exec s), ObsSaved None] else []))"

lemma saved_lastI:
  "exec t = exec s \<Longrightarrow> trace t = trace s @ xs @ (if ok then [ObsSave (exec s), ObsSaved None] else []) \<Longrightarrow>
   list_all (\<lambda>x. \<not> is_publish x) xs \<Longrightarrow> saved_last s ok t"
  by (auto simp: saved_last_def)

lemma store_Save_last:
  assumes "exec u = exec s" and "trace u = trace s @ xs" and "list_all (\<lambda>x. \<not> is_publish x) xs"
  shows "wp (store_Save d c) (\<lambda>err. saved_last s (err = None)) (saved_last s False) u"
proof -
  let ?save = "ObsSave (exec s)"
  have no: "saved_last s False t" if "exec t = exec s" "trace t = trace s @ (xs @ [?save])" for t
    using that assms(3) by (intro saved_lastI [of _ _ "xs @ [?save]"]) auto
  have failed: "saved_last s False t" if "exec t = exec s" "trace t = trace s @ (xs @ [?save, ObsSaved (Some e)])" for t e
    using that assms(3) by (intro saved_lastI [of _ _ "xs @ [?save, ObsSaved (Some e)]"]) auto
  have ok: "saved_last s True t" if "exec t = exec s" "trace t = trace s @ (xs @ [?save, ObsSaved None])" for t
    using that assms(3) by (intro saved_lastI [of _ _ xs]) auto
  have save: "wp (in_world (Save (d_store d) c (exec s))) (\<lambda>err t. exec t = exec s
      \<and> trace t = trace s @ (xs @ [?save])) (\<lambda>t. exec t = exec s \<and> trace t = trace s @ (xs @ [?save]))
      (u\<lparr>trace := trace u @ [?save]\<rparr>)"
    using assms by (auto simp: wp_in_world intro: wp_callback)
  have answer: "saved_last s (err = None) (t\<lparr>trace := trace t @ [ObsSaved err]\<rparr>)"
    if "exec t = exec s \<and> trace t = trace s @ (xs @ [?save])" for err t
    using that ok failed by (cases err) simp_all
  have "wp (bind_go (in_world (Save (d_store d) c (exec s))) (\<lambda>err. seq_go (emit (ObsSaved err))
        (ret (map_option (persist_error (ID (exec s))) err))))
      (\<lambda>err. saved_last s (err = None)) (saved_last s False) (u\<lparr>trace := trace u @ [?save]\<rparr>)"
    unfolding wp_bind wp_seq wp_emit wp_ret
    by (rule wp_mono [OF save]) (use answer no in simp_all)
  then show ?thesis
    unfolding store_Save_def wp_bind [of "gets exec"] wp_gets wp_seq [of "emit (ObsSave e)" for e] wp_emit
    using assms(1) by simp
qed

lemma save_last: "wp (save rs c) (\<lambda>err. saved_last s (err = None)) (saved_last s False) s"
proof (cases "locker rs")
  case None
  then show ?thesis using store_Save_last [of s s "[]"] by (simp add: save_def)
next
  case (Some l)
  let ?no = "\<lambda>xs t. exec t = exec s \<and> trace t = trace s @ xs \<and> list_all (\<lambda>x. \<not> is_publish x) xs"
  have no: "saved_last s False t" if "?no xs t" for xs t
    using that by (intro saved_lastI [of _ _ xs]) auto
  have acq: "wp (do_Acquire l c i own ttl) (\<lambda>_ t. \<exists>xs. ?no xs t) (saved_last s False) s" for i own ttl
  proof -
    have "wp (do_Acquire l c i own ttl) (\<lambda>_ t. \<exists>xs. ?no xs t) (\<lambda>t. \<exists>xs. ?no xs t) s"
      by (auto simp: do_Acquire_def wp_simps intro!: wp_callback)
    then show ?thesis by (rule wp_mono) (use no in auto)
  qed
  have "wp (case err of
            Some x \<Rightarrow> ret (Some (renew_error i x))
          | None \<Rightarrow> if \<not> acquired then ret (Some (ExecutionLockedError i))
              else store_Save (rs_def rs) c) (\<lambda>err. saved_last s (err = None)) (saved_last s False) t"
    if "\<exists>xs. ?no xs t" for i acquired err t
    using that no store_Save_last [of t s] by (auto simp: wp_ret split: option.split)
  then show ?thesis
    unfolding save_def Some option.case wp_bind [of "gets f" for f] wp_gets wp_bind [of "do_Acquire l c i own ttl" for i own ttl]
    by (intro wp_mono [OF acq]) (auto split: prod.split)
qed

lemma saved_last_told:
  assumes "saved_last s True t" and "without (\<lambda>x. \<not> says (exec s) x) t u"
  shows "told s u"
proof -
  obtain xs where xs: "list_all (\<lambda>x. \<not> is_publish x) xs"
      "trace t = trace s @ xs @ [ObsSave (exec s), ObsSaved None]"
    using assms(1) by (auto simp: saved_last_def)
  obtain ys where ys: "trace u = trace t @ ys" "list_all (says (exec s)) ys"
    using assms(2) by (auto simp: without_def)
  show ?thesis
    unfolding told_def
    by (rule exI [of _ "xs @ ObsSave (exec s) # ObsSaved None # ys"]) (use xs ys truthful_saved in auto)
qed

lemma saved_last_no: "saved_last s False t \<Longrightarrow> told s t"
  by (auto simp: saved_last_def told_def intro: truthful_none)

lemma save_notify_told:
  assumes "\<And>t. exec t = exec s \<Longrightarrow> without (\<lambda>x. \<not> says (exec s) x) t (snd (m t))"
  shows "wp (bind_go (save rs c) (\<lambda>err. case err of
      Some x \<Rightarrow> ret (Some x) | None \<Rightarrow> seq_go m (ret None))) (\<lambda>_. told s) (told s) s"
proof -
  have nt: "wp m (\<lambda>_. told s) (told s) t" if "saved_last s True t" for t
    using assms [of t] saved_last_told [OF that] that by (simp add: wp_final saved_last_def)
  show ?thesis
    unfolding wp_bind
    by (rule wp_mono [OF save_last])
       (auto simp: wp_ret wp_seq intro!: wp_mono [OF nt] saved_last_no split: option.split)
qed

lemma told_same: "trace s' = trace s \<Longrightarrow> told s' = told s"
  by (simp add: told_def fun_eq_iff)

lemma transitionExec_told: "keeps told (transitionExec rs c to')"
proof -
  have "wp (transitionExec rs c to') (\<lambda>_. told s) (told s) s" for s
  proof (cases "exec_transition (exec s) to' (clock (tick (world s)))")
    case (Inl err)
    then show ?thesis by (simp add: transitionExec_def wp_simps tm.world_step)
  next
    case (Inr e)
    let ?s = "s\<lparr>world := tick (world s), exec := e\<rparr>"
    have "wp (bind_go (save rs c) (\<lambda>err. case err of
        Some x \<Rightarrow> ret (Some x) | None \<Rightarrow> seq_go (notifyExec rs c to') (ret None))) (\<lambda>_. told ?s) (told ?s) ?s"
    proof (rule save_notify_told)
      fix t :: "('a, 'b) machine" assume "exec t = exec ?s"
      then show "without (\<lambda>x. \<not> says (exec ?s) x) t (snd (notifyExec rs c to' t))"
        using notifyExec_says [of t to' rs c] exec_transition_fields(1) [OF Inr] by simp
    qed
    then show ?thesis using Inr
      by (simp add: transitionExec_def wp_bind [of "in_world m" for m] wp_in_world wp_time_Now
          wp_bind [of "gets f" for f] wp_gets wp_seq wp_upd_exec told_same [of ?s s])
  qed
  then show ?thesis by (simp add: keeps_iff_wp)
qed

lemma transitionStep_told: "keeps told (transitionStep rs c i to')"
proof -
  have "wp (transitionStep rs c i to') (\<lambda>_. told s) (told s) s" for s
  proof (cases "step_transition (Steps (exec s) ! i) to' (clock (tick (world s)))")
    case (Inl err)
    then show ?thesis by (simp add: transitionStep_def wp_simps tm.world_step)
  next
    case (Inr x)
    let ?s = "s\<lparr>world := tick (world s), exec := (exec s)\<lparr>Steps := (Steps (exec s))[i := x]\<rparr>\<rparr>"
    have "wp (bind_go (save rs c) (\<lambda>err. case err of
        Some x \<Rightarrow> ret (Some x) | None \<Rightarrow> seq_go (notifyStep rs c i to') (ret None))) (\<lambda>_. told ?s) (told ?s) ?s"
      if i: "i < length (Steps (exec s))"
    proof (rule save_notify_told)
      fix t :: "('a, 'b) machine" assume "exec t = exec ?s"
      then show "without (\<lambda>x. \<not> says (exec ?s) x) t (snd (notifyStep rs c i to' t))"
        using notifyStep_says [of t i to' rs c] step_transition_fields(1) [OF Inr] i by simp
    qed
    then show ?thesis using Inr
      by (simp add: transitionStep_def wp_bind [of "in_world m" for m] wp_in_world wp_time_Now
          wp_bind [of "step_at i"] wp_step_at wp_seq wp_upd_step told_same [of ?s s] tm.world_step)
  qed
  then show ?thesis by (simp add: keeps_iff_wp)
qed

lemma not_publish: "is_span x \<or> is_callback x \<Longrightarrow> \<not> is_publish x"
  by (cases x) simp_all

lemma persist_publish: "is_persist x \<Longrightarrow> \<not> is_publish x"
  by (cases x) simp_all

interpretation told_run: engine_frame told "\<lambda>_. True" "\<lambda>_. True"
proof unfold_locales
  fix s :: "('a, 'b) machine" and n
  show "told s (s\<lparr>trace := trace s @ [ObsSpanStart n]\<rparr>)" "told s (s\<lparr>trace := trace s @ [ObsSpanEnd n]\<rparr>)"
    by (simp_all add: told_def)
next
  fix f :: "string \<Rightarrow> ('a, 'b, gerr option) engine"
  assume "\<And>i. True \<Longrightarrow> keeps told (f i)"
  then show "keeps told (bind_go (gets (\<lambda>m. ID (exec m))) f)" by (intro tm.machine_rules) simp
next
  fix rs :: "('a, 'b) run_state" and c k and g :: "('a, 'b) compensate_func" and i ste step data
  show "keeps told (runStep rs c ste i k step data)"
    unfolding runStep_def by (rule without_told, rule run_attempts_without) (rule not_publish)
  show "keeps told (invokeCompensate rs c k g)"
    by (rule without_told, rule invokeCompensate_without) (rule not_publish)
  show "keeps told (release_lock rs c)"
    by (rule without_told, rule release_lock_without) simp
qed (auto intro: transitionExec_told transitionStep_told)

lemma resume_told: "keeps told (resume d c)"
  unfolding resume_def
  by (intro tm.machine_rules told_run.resume_held_keeps without_told [OF do_Acquire_without])
     (auto dest: persist_publish)


end
