(* ===== verification/Saga_Spec.thy ===== *)
theory Saga_Spec
  imports Saga_Definition
begin

text \<open>
  The abstract machine: what a saga is, without clock, store, retries, contexts or observers. Its
  state is the status of the execution and the statuses of the steps, and \<open>saga_step\<close> is its
  step relation, one rule per durable change. The engine is proved to refine it in
  \<open>Saga_Refinement\<close>; here are the facts that hold of every run of the machine.
\<close>

section \<open>The machine\<close>

type_synonym saga_state = "status \<times> step_status list"

text \<open>Which steps can be undone, and when nothing is left to undo at step \<open>j\<close>.\<close>

definition undoable :: "('d, 'u) definition_ \<Rightarrow> bool list" where
  "undoable d = map (\<lambda>s. Compensate s \<noteq> None) (d_steps d)"

definition at_rest :: "bool list \<Rightarrow> nat \<Rightarrow> step_status \<Rightarrow> bool" where
  "at_rest u j st \<longleftrightarrow> st \<noteq> StepStatusCompensating \<and> (st = StepStatusSucceeded \<longrightarrow> \<not> u ! j)"

definition saga_start :: "nat \<Rightarrow> saga_state" where
  "saga_start n = (StatusPending, replicate n StepStatusPending)"

inductive saga_step :: "bool list \<Rightarrow> saga_state \<Rightarrow> saga_state \<Rightarrow> bool" for u where
  Start: "saga_step u (StatusPending, ss) (StatusRunning, ss)"
| Attempt: "i < length ss \<Longrightarrow> ss ! i = StepStatusPending \<Longrightarrow> \<forall>j < i. ss ! j = StepStatusSucceeded \<Longrightarrow>
    saga_step u (StatusRunning, ss) (StatusRunning, ss[i := StepStatusRunning])"
| Succeed: "i < length ss \<Longrightarrow> ss ! i = StepStatusRunning \<Longrightarrow>
    saga_step u (StatusRunning, ss) (StatusRunning, ss[i := StepStatusSucceeded])"
| Fail: "i < length ss \<Longrightarrow> ss ! i = StepStatusRunning \<Longrightarrow>
    saga_step u (StatusRunning, ss) (StatusRunning, ss[i := StepStatusFailed])"
| Complete: "\<forall>st \<in> set ss. st = StepStatusSucceeded \<Longrightarrow>
    saga_step u (StatusRunning, ss) (StatusCompleted, ss)"
| Give_up: "ss \<noteq> [] \<Longrightarrow> StepStatusSucceeded \<notin> set ss \<Longrightarrow>
    saga_step u (StatusRunning, ss) (StatusFailed, ss)"
| Turn_back: "StepStatusSucceeded \<in> set ss \<Longrightarrow> \<exists>st \<in> set ss. st \<noteq> StepStatusSucceeded \<Longrightarrow>
    saga_step u (StatusRunning, ss) (StatusCompensating, ss)"
| Undo: "i < length ss \<Longrightarrow> ss ! i = StepStatusSucceeded \<Longrightarrow> u ! i \<Longrightarrow>
    \<forall>j < length ss. i < j \<longrightarrow> at_rest u j (ss ! j) \<Longrightarrow>
    saga_step u (StatusCompensating, ss) (StatusCompensating, ss[i := StepStatusCompensating])"
| Undone: "i < length ss \<Longrightarrow> ss ! i = StepStatusCompensating \<Longrightarrow>
    saga_step u (StatusCompensating, ss) (StatusCompensating, ss[i := StepStatusCompensated])"
| Undo_failed: "i < length ss \<Longrightarrow> ss ! i = StepStatusCompensating \<Longrightarrow>
    saga_step u (StatusCompensating, ss) (StatusCompensating, ss[i := StepStatusCompensationFailed])"
| All_undone: "\<forall>j < length ss. at_rest u j (ss ! j) \<Longrightarrow> StepStatusCompensationFailed \<notin> set ss \<Longrightarrow>
    saga_step u (StatusCompensating, ss) (StatusCompensated, ss)"
| Some_failed: "\<forall>j < length ss. at_rest u j (ss ! j) \<Longrightarrow> StepStatusCompensationFailed \<in> set ss \<Longrightarrow>
    saga_step u (StatusCompensating, ss) (StatusCompensationFailed, ss)"

inductive_cases from_running: "saga_step u (StatusRunning, ss) q"
inductive_cases from_compensating: "saga_step u (StatusCompensating, ss) q"

lemmas running_cases =
  from_running [consumes 1, case_names Attempt Succeed Fail Complete Give_up Turn_back]
lemmas compensating_cases =
  from_compensating [consumes 1, case_names Undo Undone Undo_failed All_undone Some_failed]

inductive_simps settled_simps [simp]:
  "saga_step u (StatusCompleted, ss) q" "saga_step u (StatusFailed, ss) q"
  "saga_step u (StatusCompensated, ss) q" "saga_step u (StatusCompensationFailed, ss) q"
  "saga_step u (OtherStatus x, ss) q"

section \<open>Every run of the machine\<close>

text \<open>
  The machine moves along the two transition tables, one status at a time, forward steps only
  while the saga runs and compensating ones only while it compensates.
\<close>

definition table_step :: "saga_state \<Rightarrow> saga_state \<Rightarrow> bool" where
  "table_step p q \<longleftrightarrow>
     canTransitionStatus (fst p) (fst q) \<and> snd q = snd p
     \<or> fst q = fst p \<and> (\<exists>i < length (snd p). \<exists>st. canTransitionStepStatus (snd p ! i) st
          \<and> snd q = (snd p)[i := st]
          \<and> (if st \<in> {StepStatusRunning, StepStatusSucceeded, StepStatusFailed}
              then fst p = StatusRunning else fst p = StatusCompensating))"

lemma table_stepI:
  "canTransitionStatus st st' \<Longrightarrow> table_step (st, ss) (st', ss)"
  "i < length ss \<Longrightarrow> canTransitionStepStatus (ss ! i) x \<Longrightarrow>
    st = (if x \<in> {StepStatusRunning, StepStatusSucceeded, StepStatusFailed}
      then StatusRunning else StatusCompensating) \<Longrightarrow> table_step (st, ss) (st, ss[i := x])"
  by (auto simp: table_step_def)

lemma saga_step_table: "saga_step u p q \<Longrightarrow> table_step p q"
  by (erule saga_step.cases; hypsubst; rule table_stepI; simp add: canTransitionStatus_def canTransitionStepStatus_def)

definition saga_rank :: "saga_state \<Rightarrow> nat" where
  "saga_rank p = status_rank (fst p) + sum_list (map step_status_rank (snd p))"

lemma rank_update:
  assumes "i < length ss" and "step_status_rank st < step_status_rank (ss ! i)"
  shows "sum_list (map step_status_rank (ss[i := st])) < sum_list (map step_status_rank ss)"
  using assms
proof (induction ss arbitrary: i)
  case (Cons x ss)
  then show ?case by (cases i) auto
qed simp

lemma table_step_rank: "table_step p q \<Longrightarrow> saga_rank q < saga_rank p"
  unfolding table_step_def saga_rank_def
  using exec_life.descends [of "fst p" "fst q"] by (elim disjE conjE exE)
    (metis add_less_mono1, metis add_less_cancel_left rank_update step_life.descends)

lemma saga_start_rank: "saga_rank (saga_start n) = 3 + 4 * n"
  by (simp add: saga_rank_def saga_start_def sum_list_replicate)

lemma table_path_bound: "legal_path table_step p qs \<Longrightarrow> length qs \<le> saga_rank p"
proof (induction qs arbitrary: p)
  case (Cons q qs)
  then show ?case using table_step_rank [of p q] by fastforce
qed simp

end
