(* ===== verification/Persisting.thy ===== *)
theory Persisting
  imports Engine_Frames
begin

text \<open>
  What persisting a change leaves behind: after \<open>transitionExec\<close> and \<open>transitionStep\<close> the record is
  the changed one, it has been handed to the store once, or not at all if the lease was not renewed,
  and an error of the operation is accounted for by what the store or the lease answered.
\<close>

section \<open>Saving\<close>

definition clerical :: "'d obs \<Rightarrow> bool" where
  "clerical x \<longleftrightarrow> is_observer x \<or> is_persist x"

text \<open>An error of persisting or locking, with the answer on the trace that caused it.\<close>

definition unsaved :: "'d obs list \<Rightarrow> gerr \<Rightarrow> bool" where
  "unsaved tr y \<longleftrightarrow> (\<exists>i x. y = persist_error i x \<and> ObsSaved (Some x) \<in> set tr)
     \<or> ObsAcquired False \<in> set tr
       \<and> (\<exists>i. y = ExecutionLockedError i \<or> (\<exists>x. y = renew_error i x \<or> y = acquire_error i x))"

lemma unsaved_refused [simp]:
  assumes "ObsAcquired False \<in> set tr"
  shows "unsaved tr (ExecutionLockedError i)" "unsaved tr (renew_error i x)" "unsaved tr (acquire_error i x)"
  using assms unfolding unsaved_def by blast+

lemma observers_save_nothing: "list_all is_observer tr \<Longrightarrow> saves_of tr = []"
  by (induction tr rule: saves_of.induct) auto

lemma unsaved_mono: "unsaved tr y \<Longrightarrow> set tr \<subseteq> set tr' \<Longrightarrow> unsaved tr' y"
  unfolding unsaved_def by blast

text \<open>
  \<open>put s e t\<close>: from \<open>s\<close> to \<open>t\<close> the record has become \<open>e\<close> and has been handed to the store at most
  once. \<open>put_result\<close> is the same for an operation that returns: exactly once without an error.
\<close>

definition put :: "('d, 'u) machine \<Rightarrow> 'd execution \<Rightarrow> ('d, 'u) machine \<Rightarrow> bool" where
  "put s e t \<longleftrightarrow> exec t = e
     \<and> (\<exists>tr. trace t = trace s @ tr \<and> list_all clerical tr \<and> saves_of tr \<in> {[], [e]})"

definition put_result ::
    "('d, 'u) machine \<Rightarrow> 'd execution \<Rightarrow> gerr option \<Rightarrow> ('d, 'u) machine \<Rightarrow> bool" where
  "put_result s e err t \<longleftrightarrow> exec t = e
     \<and> (\<exists>tr. trace t = trace s @ tr \<and> list_all clerical tr
          \<and> (case err of None \<Rightarrow> saves_of tr = [e] | Some y \<Rightarrow> saves_of tr \<in> {[], [e]} \<and> unsaved tr y))"

lemma put_result_put: "put_result s e err t \<Longrightarrow> put s e t"
  by (auto simp: put_result_def put_def split: option.splits)

lemma put_result_prepend:
  assumes "put_result u e err t" and "trace u = trace s @ tr" and "list_all clerical tr" and "saves_of tr = []"
  shows "put_result s e err t"
proof -
  obtain tr' where tr': "exec t = e" "trace t = trace s @ tr @ tr'" "list_all clerical tr'"
      "case err of None \<Rightarrow> saves_of tr' = [e] | Some y \<Rightarrow> saves_of tr' \<in> {[], [e]} \<and> unsaved tr' y"
    using assms(1,2) by (auto simp: put_result_def)
  then show ?thesis
    unfolding put_result_def using assms(3,4) unsaved_mono [of tr' _ "tr @ tr'"]
    by (intro conjI exI [of _ "tr @ tr'"]) (auto split: option.splits)
qed

lemma put_prepend:
  assumes "put u e t" and "trace u = trace s @ tr" and "list_all clerical tr" and "saves_of tr = []"
  shows "put s e t"
  using assms by (auto simp: put_def)

lemma store_Save_put: "wp (store_Save d c) (put_result s (exec s)) (put s (exec s)) s"
  unfolding store_Save_def
  by (auto simp: wp_bind [of "gets f" for f] wp_gets wp_seq wp_emit wp_bind [of "in_world m" for m]
      wp_in_world wp_ret put_result_def put_def clerical_def unsaved_def
      intro!: wp_callback split: option.split)

lemma do_Acquire_said:
  "wp (do_Acquire l c i own ttl) (\<lambda>(ok, err) t. exec t = exec s
       \<and> trace t = trace s @ [ObsAcquire i own, ObsAcquired (ok \<and> err = None)])
     (\<lambda>t. exec t = exec s \<and> trace t = trace s @ [ObsAcquire i own]) s"
proof -
  have "wp (in_world (Acquire l c i own ttl)) (\<lambda>_ t. exec t = exec s \<and> trace t = trace s @ [ObsAcquire i own])
      (\<lambda>t. exec t = exec s \<and> trace t = trace s @ [ObsAcquire i own])
      (s\<lparr>trace := trace s @ [ObsAcquire i own]\<rparr>)"
    unfolding wp_in_world by (rule wp_callback) simp_all
  then show ?thesis
    unfolding do_Acquire_def wp_seq [of "emit x" for x] wp_emit wp_bind [of "in_world m" for m]
    by (rule wp_mono) (auto simp: wp_seq wp_emit wp_ret)
qed

lemma save_put: "wp (save rs c) (put_result s (exec s)) (put s (exec s)) s"
proof (cases "locker rs")
  case None
  then show ?thesis by (simp add: save_def store_Save_put)
next
  case (Some l)
  have store: "wp (store_Save d c) (put_result s (exec s)) (put s (exec s)) u"
    if "exec u = exec s" "trace u = trace s @ [ObsAcquire i own, ObsAcquired b]" for d u i own b
    using store_Save_put [of d c u] that
    by (auto simp: clerical_def elim!: wp_mono
        intro: put_result_prepend [OF _ that(2)] put_prepend [OF _ that(2)])
  show ?thesis
    unfolding save_def Some option.case wp_bind [of "gets f" for f] wp_gets
      wp_bind [of "do_Acquire l c i own ttl" for i own ttl]
    by (rule wp_mono [OF do_Acquire_said [of l c _ _ _ s]])
       (auto simp: wp_ret put_result_def [of s _ "Some y" for y] put_def clerical_def
         intro!: store split: option.split)
qed

section \<open>Transitions\<close>

lemma notify_put:
  assumes "put_result s e None t" and "keeps quiet m" and "keeps (without (\<lambda>x. \<not> is_observer x)) m"
  shows "wp m (\<lambda>_. put_result s e None) (put s e) t"
proof -
  obtain tr tr' where tr: "exec t = e" "trace t = trace s @ tr" "list_all clerical tr" "saves_of tr = [e]"
      "trace (snd (m t)) = trace t @ tr'" "list_all is_observer tr'"
    using assms(1,3) unfolding put_result_def keeps_def without_def option.case by (metis (mono_tags, lifting) list.pred_mono_strong)
  have "exec (snd (m t)) = e" "saves_of tr' = []"
    using assms(2) tr(1) observers_save_nothing [OF tr(6)] by (simp_all add: keeps_def quiet_def)
  moreover have "list_all clerical tr'" using tr(6) by (auto simp: clerical_def list_all_iff)
  ultimately have "put_result s e None (snd (m t))" using tr by (auto simp: put_result_def)
  then have "wp m (\<lambda>_. put_result s e None) (put_result s e None) t" by (simp add: wp_final)
  then show ?thesis by (rule wp_mono) (auto intro: put_result_put)
qed

lemma save_and_tell:
  assumes "keeps quiet m" and "keeps (without (\<lambda>x. \<not> is_observer x)) m" and "trace u = trace s"
  shows "wp (bind_go (save rs c) (\<lambda>err. case err of Some x \<Rightarrow> ret (Some x) | None \<Rightarrow> seq_go m (ret None)))
    (put_result s (exec u)) (put s (exec u)) u"
proof -
  have save: "wp (save rs c) (put_result s (exec u)) (put s (exec u)) u"
    using save_put [of rs c u] put_result_prepend [where u = u and s = s and tr = "[]"]
      put_prepend [where u = u and s = s and tr = "[]"] assms(3) by (auto elim!: wp_mono)
  show ?thesis
    unfolding wp_bind
    by (rule wp_mono [OF save])
       (auto simp: wp_ret wp_seq intro: wp_mono [OF notify_put [OF _ assms(1,2)]] split: option.split)
qed

text \<open>
  The triples of the two transitions. A refused transition is a panic and leaves the record alone.
\<close>

definition moved_exec :: "('d, 'u) machine \<Rightarrow> status \<Rightarrow> 'd execution \<Rightarrow> bool" where
  "moved_exec s to' e \<longleftrightarrow> (\<exists>now. exec_transition (exec s) to' now = Inr e)"

definition moved_step :: "('d, 'u) machine \<Rightarrow> nat \<Rightarrow> step_status \<Rightarrow> 'd execution \<Rightarrow> bool" where
  "moved_step s i ts e \<longleftrightarrow> i < length (Steps (exec s))
     \<and> (\<exists>now x. step_transition (Steps (exec s) ! i) ts now = Inr x
          \<and> e = (exec s)\<lparr>Steps := (Steps (exec s))[i := x]\<rparr>)"

definition unmoved :: "('d, 'u) machine \<Rightarrow> ('d, 'u) machine \<Rightarrow> bool" where
  "unmoved s t \<longleftrightarrow> exec t = exec s \<and> trace t = trace s"

lemma transitionExec_put:
  "wp (transitionExec rs c to')
     (\<lambda>err t. \<exists>e. moved_exec s to' e \<and> put_result s e err t)
     (\<lambda>t. unmoved s t \<or> (\<exists>e. moved_exec s to' e \<and> put s e t)) s"
proof (cases "exec_transition (exec s) to' (clock (tick (world s)))")
  case (Inl err)
  then show ?thesis by (simp add: transitionExec_def wp_simps unmoved_def)
next
  case (Inr e)
  have "moved_exec s to' e" using Inr by (auto simp: moved_exec_def)
  moreover note save_and_tell [OF notifyExec_quiet notifyExec_without,
      of "s\<lparr>world := tick (world s), exec := e\<rparr>" s rs c rs c to']
  ultimately show ?thesis
    using Inr by (auto simp: transitionExec_def wp_bind [of "in_world m" for m] wp_in_world wp_time_Now
        wp_bind [of "gets f" for f] wp_gets wp_seq [of "upd_exec f" for f] wp_upd_exec elim!: wp_mono)
qed

lemma transitionStep_put:
  "wp (transitionStep rs c i ts)
     (\<lambda>err t. \<exists>e. moved_step s i ts e \<and> put_result s e err t)
     (\<lambda>t. unmoved s t \<or> (\<exists>e. moved_step s i ts e \<and> put s e t)) s"
proof (cases "i < length (Steps (exec s))")
  case i: True
  show ?thesis
  proof (cases "step_transition (Steps (exec s) ! i) ts (clock (tick (world s)))")
    case (Inl err)
    then show ?thesis using i by (simp add: transitionStep_def wp_simps unmoved_def)
  next
    case (Inr x)
    let ?e = "(exec s)\<lparr>Steps := (Steps (exec s))[i := x]\<rparr>"
    have "moved_step s i ts ?e" using Inr i by (auto simp: moved_step_def)
    moreover note save_and_tell [OF notifyStep_quiet notifyStep_without,
        of "s\<lparr>world := tick (world s), exec := ?e\<rparr>" s rs c rs c i ts]
    ultimately show ?thesis
      using Inr i by (auto simp: transitionStep_def wp_bind [of "in_world m" for m] wp_in_world wp_time_Now
          wp_bind [of "step_at i"] wp_step_at wp_seq [of "upd_step i f" for f] wp_upd_step elim!: wp_mono)
  qed
next
  case False
  then show ?thesis by (simp add: transitionStep_def wp_simps unmoved_def)
qed

end
