(* ===== verification/Engine_Outline.thy ===== *)
theory Engine_Outline
  imports Persisting
begin

text \<open>
  A proof outline of the engine. The locale \<open>engine_outline\<close> annotates the control flow of
  \<open>resume\<close> with assertions, one for each point between two operations that call out or persist, and
  assumes the triples of those operations. Inside it the triples are composed along the loops,
  branches and early returns of \<open>execute.go\<close>, so that a property of whole runs needs no more than
  its assertions and the triples of the operations.
\<close>

section \<open>Assertions\<close>

text \<open>An operation that may fail: \<open>F\<close> of its error, or \<open>Q\<close> if there is none.\<close>

definition unless_err ::
    "(gerr option \<Rightarrow> 's \<Rightarrow> bool) \<Rightarrow> ('s \<Rightarrow> bool) \<Rightarrow> gerr option \<Rightarrow> 's \<Rightarrow> bool" where
  "unless_err F Q err s = (case err of None \<Rightarrow> Q s | Some x \<Rightarrow> F (Some x) s)"

lemma unless_err_simps [simp]:
  "unless_err F Q None s = Q s" "unless_err F Q (Some x) s = F (Some x) s"
  by (simp_all add: unless_err_def)

text \<open>
  The steps between two annotated points: the world moves, spans and the lease are heard of,
  and of the record only the current step, the message of the execution and the attempt counts
  change.
\<close>

definition core :: "'d execution \<Rightarrow> 'd execution" where
  "core e = e\<lparr>CurrentStep := [], Error := [], Steps := map (\<lambda>s. s\<lparr>sAttempts := 0\<rparr>) (Steps e)\<rparr>"

fun aside :: "'d obs \<Rightarrow> bool" where
  "aside (ObsAcquire i own) = True"
| "aside (ObsAcquired b) = True"
| "aside (ObsRelease i own) = True"
| "aside x = is_span x"

lemma span_aside: "is_span x \<Longrightarrow> aside x"
  by (cases x) simp_all

definition idle :: "('d, 'u) machine \<Rightarrow> ('d, 'u) machine \<Rightarrow> bool" where
  "idle s t \<longleftrightarrow> core (exec t) = core (exec s) \<and> (\<exists>tr. trace t = trace s @ tr \<and> list_all aside tr)"

lemma core_simps [simp]:
  "core (e\<lparr>CurrentStep := n\<rparr>) = core e" "core (e\<lparr>Error := m\<rparr>) = core e"
  "core (e\<lparr>Steps := (Steps e)[i := (Steps e ! i)\<lparr>sAttempts := k\<rparr>]\<rparr>) = core e"
  by (cases "i < length (Steps e)"; simp add: core_def map_update_same list_update_beyond)+

lemma core_same:
  assumes "core e = core f"
  shows "Status e = Status f" "ID e = ID f" "Input e = Input f" "Output e = Output f"
    "map sStatus (Steps e) = map sStatus (Steps f)" "map sName (Steps e) = map sName (Steps f)"
    "map sOutput (Steps e) = map sOutput (Steps f)"
proof -
  have "map (\<lambda>s. s\<lparr>sAttempts := 0\<rparr>) (Steps e) = map (\<lambda>s. s\<lparr>sAttempts := 0\<rparr>) (Steps f)"
    using arg_cong [OF assms, of Steps] by (simp add: core_def)
  from arg_cong [OF this, of "map sStatus"] arg_cong [OF this, of "map sName"]
    arg_cong [OF this, of "map sOutput"]
  show "map sStatus (Steps e) = map sStatus (Steps f)" "map sName (Steps e) = map sName (Steps f)"
    "map sOutput (Steps e) = map sOutput (Steps f)"
    by (simp_all add: comp_def)
  show "Status e = Status f" "ID e = ID f" "Input e = Input f" "Output e = Output f"
    using arg_cong [OF assms, of Status] arg_cong [OF assms, of ID] arg_cong [OF assms, of Input]
      arg_cong [OF assms, of Output] by (simp_all add: core_def)
qed

interpretation idle_body: body_frame idle aside
  by unfold_locales (auto simp: idle_def)

lemma idle_acquire: "keeps idle (do_Acquire l c eid own ttl)"
  by (rule idle_body.do_Acquire_keeps) simp

definition stable :: "(('d, 'u) machine \<Rightarrow> bool) \<Rightarrow> (('d, 'u) machine \<Rightarrow> bool) \<Rightarrow> bool" where
  "stable E P \<longleftrightarrow> (\<forall>s t. P s \<longrightarrow> idle s t \<longrightarrow> P t) \<and> (\<forall>s. P s \<longrightarrow> E s)"

lemma stable_idle: "stable E P \<Longrightarrow> P s \<Longrightarrow> idle s t \<Longrightarrow> P t"
  and stable_crash: "stable E P \<Longrightarrow> P s \<Longrightarrow> E s"
  unfolding stable_def by blast+

lemma stable_simps:
  assumes "stable E P" and "P s"
  shows "P (s\<lparr>world := w\<rparr>)" "P (s\<lparr>exec := (exec s)\<lparr>CurrentStep := n\<rparr>\<rparr>)"
    "P (s\<lparr>exec := (exec s)\<lparr>Error := m\<rparr>\<rparr>)"
  using stable_idle [OF assms] by (simp_all add: idle_def)

lemma idle_wp:
  assumes "stable E P" and "keeps idle m" and "P s"
  shows "wp m (\<lambda>_. P) E s"
proof -
  have "P (snd (m s))" using assms stable_idle unfolding keeps_def by blast
  then have "wp m (\<lambda>_. P) P s" by (simp add: wp_final)
  then show ?thesis by (rule wp_mono) (auto intro: stable_crash [OF assms(1)])
qed

lemma wp_seq_bind: "wp (seq_go u (bind_go m k)) Q E s = wp (seq_go u m) (\<lambda>a. wp (k a) Q E) E s"
  by (simp add: wp_def seq_go_def bind_go_def split: prod.splits outcome.splits)

lemma wp_unless_err:
  assumes "unless_err F P err t" and "P t \<Longrightarrow> wp k Q E t" and "\<And>x. F (Some x) t \<Longrightarrow> Q (Some x) t"
  shows "wp (case err of Some x \<Rightarrow> ret (Some x) | None \<Rightarrow> k) Q E t"
  using assms by (cases err) (auto simp: wp_ret)

text \<open>A body under a span.\<close>

lemma span_wp:
  assumes N: "stable E N" and Q: "\<And>a. stable E (Q a)" and E: "stable E E" and "N s"
    and body: "\<And>c' t. N t \<Longrightarrow> wp (f c') Q E t"
  shows "wp (bind_go (startSpan rs c n) (\<lambda>(c', endSpan). deferred endSpan (f c'))) Q E s"
proof -
  have span: "wp (startSpan rs c n) (\<lambda>(c', fin) t. N t \<and> keeps idle fin) E s"
  proof -
    have "wp (startSpan rs c n) (\<lambda>_. N) E s"
      using N idle_body.startSpan_keeps [OF span_aside] assms(4) by (rule idle_wp)
    then show ?thesis
      using idle_body.startSpan_end_keeps [OF _ span_aside, of rs c n s]
      by (auto simp: wp_def split: prod.splits outcome.splits)
  qed
  have "wp (deferred fin (f c')) Q E t" if "N t" "keeps idle fin" for c' fin t
    unfolding wp_deferred
    by (rule wp_mono [OF body [OF that(1)]])
       (auto intro: idle_wp [OF Q that(2)] idle_wp [OF E that(2)])
  then show ?thesis
    unfolding wp_bind by (intro wp_mono [OF span]) (auto split: prod.split)
qed

lemma wp_anything: "wp m (\<lambda>_ _. True) (\<lambda>_. True) s"
  by (simp add: wp_def split: prod.split outcome.split)

lemma wp_after:
  "(\<And>a t. wp (f a) Q (\<lambda>_. True) t) \<Longrightarrow> wp (bind_go m f) Q (\<lambda>_. True) s"
  "(\<And>t. wp k Q (\<lambda>_. True) t) \<Longrightarrow> wp (seq_go m k) Q (\<lambda>_. True) s"
  by (auto simp: wp_bind wp_seq intro: wp_mono [OF wp_anything])

section \<open>The attempts at a step\<close>

text \<open>
  The triple of the retry loop from that of one call: \<open>J\<close> holds before each attempt, \<open>Won\<close> after a
  call that returned a value, \<open>Bad\<close> after one that returned an error, and \<open>Lost\<close> of the error the
  loop gives up with.
\<close>

lemma run_attempts_triple:
  assumes stable: "stable E J" "\<And>out. stable E (Won out)" "\<And>y. stable E (Bad y)" "\<And>y. stable E (Lost y)"
    and weaker: "\<And>out t. Won out t \<Longrightarrow> J t" "\<And>y t. Bad y t \<Longrightarrow> J t"
    and slept: "\<And>t delay. J t \<Longrightarrow> J (t\<lparr>trace := trace t @ [ObsSleep delay]\<rparr>)"
    and call: "\<And>t. J t \<Longrightarrow> wp (callAction rs c opID step (step_timeout step) data)
      (\<lambda>p. case snd p of None \<Rightarrow> Won (fst p) | Some y \<Rightarrow> Bad y) E t"
    and caused: "\<And>t y. J t \<Longrightarrow> ended (world t) c = Some y \<Longrightarrow> Lost y t"
    and expired: "\<And>t y. J t \<Longrightarrow> ste = Some y \<Longrightarrow> Lost y t"
    and failed: "\<And>t y. Bad y t \<Longrightarrow> Lost (StepError (Name step) (Some y)) t"
  shows "J s \<Longrightarrow> wp (run_attempts rs c ste opID i step data attempt)
    (\<lambda>p. case snd p of None \<Rightarrow> Won (fst p) | Some y \<Rightarrow> Lost y) E s"
proof (induction "nat (MaxAttempts (retryPolicyFor rs step) - attempt)" arbitrary: attempt s
    rule: less_induct)
  case less
  let ?Q = "\<lambda>p. case snd p of None \<Rightarrow> Won (fst p) | Some y \<Rightarrow> Lost y"
  have again: "wp (run_attempts rs c ste opID i step data (attempt + 1)) ?Q E t"
    if "J t" "\<not> MaxAttempts (retryPolicyFor rs step) \<le> attempt" for t
    using that by (intro less.hyps) simp_all
  have cause: "wp (bind_go (in_world (context_Cause c)) (\<lambda>cause. ret (None, cause))) ?Q E t"
    if "J t" "ended (world t) c = Some y" for t y
    using caused [of "t\<lparr>world := tick (world t)\<rparr>" y] stable_simps(1) [OF stable(1) that(1)] that(2)
    by (simp add: wp_bind wp_in_world wp_context_Cause wp_ret)
  have wait: "wp (sleepOrDone c delay) (\<lambda>p t. J t \<and> (\<forall>e. p = Some e \<longrightarrow> ended (world t) c = Some e)) E t"
    if "J t" for delay t
  proof -
    have now: "keeps idle (bind_go (in_world (ctx_Done c)) (\<lambda>done.
          if done then in_world (context_Cause c) else ret None))"
      and later: "keeps idle (bind_go (in_world (timer_or_done c delay)) (\<lambda>fin.
          case fin of None \<Rightarrow> ret None | Some e \<Rightarrow> in_world (context_Cause c)))"
      by (intro idle_body.body_rules)+
    have "wp (sleepOrDone c delay) (\<lambda>_. J) E t"
      unfolding sleepOrDone_def wp_if wp_seq [of "emit x" for x] wp_emit
      using idle_wp [OF stable(1) now that] idle_wp [OF stable(1) later slept [OF that]] by (simp only: if_True if_cancel)
    moreover have "wp (sleepOrDone c delay) (\<lambda>p t. \<forall>e. p = Some e \<longrightarrow> ended (world t) c = Some e) (\<lambda>_. True) t"
    proof -
      have "wp (in_world (context_Cause c)) (\<lambda>p t. \<forall>e. p = Some e \<longrightarrow> ended (world t) c = Some e) (\<lambda>_. True) u" for u
        by (auto simp: wp_in_world wp_context_Cause)
      then show ?thesis
        unfolding sleepOrDone_def by (auto simp: wp_ret intro!: wp_after split: option.split)
    qed
    ultimately show ?thesis by (rule wp_mono [OF wp_conj]) auto
  qed
  have pause: "wp (bind_go (in_world (Delay (retryPolicyFor rs step) (attempt + 1))) (\<lambda>delay.
      bind_go (sleepOrDone c delay) (\<lambda>p. case p of Some e \<Rightarrow> ret (None, Some e)
        | None \<Rightarrow> run_attempts rs c ste opID i step data (attempt + 1)))) ?Q E t"
    if t: "J t" and more: "\<not> MaxAttempts (retryPolicyFor rs step) \<le> attempt" for t
  proof -
    have "wp (case p of Some e \<Rightarrow> ret (None, Some e)
        | None \<Rightarrow> run_attempts rs c ste opID i step data (attempt + 1)) ?Q E u"
      if "J u" "\<forall>e. p = Some e \<longrightarrow> ended (world u) c = Some e" for p u
      using that again [OF that(1) more] caused by (cases p) (auto simp: wp_ret)
    then show ?thesis
      unfolding wp_bind by (intro wp_mono [OF idle_wp [OF stable(1) idle_body.in_world_keeps t]] wp_mono [OF wait]) auto
  qed
  have lost: "wp (bind_go (in_world (ctx_Done c)) (\<lambda>done.
      if done then bind_go (in_world (context_Cause c)) (\<lambda>cause. ret (None, cause))
      else if isNonRetryable x \<or> MaxAttempts (retryPolicyFor rs step) \<le> attempt
      then ret (None, Some (StepError (Name step) (Some x)))
      else bind_go (in_world (Delay (retryPolicyFor rs step) (attempt + 1))) (\<lambda>delay.
        bind_go (sleepOrDone c delay) (\<lambda>waitErr. case waitErr of
            Some e \<Rightarrow> ret (None, Some e)
          | None \<Rightarrow> run_attempts rs c ste opID i step data (attempt + 1))))) ?Q E t"
    if t: "Bad x t" for x t
  proof -
    let ?t = "t\<lparr>world := tick (world t)\<rparr>"
    have "Bad x ?t" using stable_simps(1) [OF stable(3) t] .
    then show ?thesis
      using cause [of ?t] pause [of ?t] weaker(2) [of x ?t] failed [of x ?t]
      by (auto simp: wp_bind [of "in_world (ctx_Done c)"] wp_in_world [of "ctx_Done c"] wp_ctx_Done wp_ret)
  qed
  let ?rest = "\<lambda>out err expired. if expired then ret (None, ste)
        else (case err of None \<Rightarrow> ret (out, None)
          | Some x \<Rightarrow> bind_go (in_world (ctx_Done c)) (\<lambda>done.
              if done then bind_go (in_world (context_Cause c)) (\<lambda>cause. ret (None, cause))
              else if isNonRetryable x \<or> MaxAttempts (retryPolicyFor rs step) \<le> attempt
              then ret (None, Some (StepError (Name step) (Some x)))
              else bind_go (in_world (Delay (retryPolicyFor rs step) (attempt + 1))) (\<lambda>delay.
                bind_go (sleepOrDone c delay) (\<lambda>waitErr. case waitErr of
                    Some e \<Rightarrow> ret (None, Some e)
                  | None \<Rightarrow> run_attempts rs c ste opID i step data (attempt + 1)))))"
  let ?called = "\<lambda>out err. case err of None \<Rightarrow> Won out | Some y \<Rightarrow> Bad y"
  have after: "wp (bind_go (saga_expired c ste) (?rest out err)) ?Q E t" if t: "?called out err t" for out err t
  proof -
    have st: "stable E (?called out err)" using stable(2,3) by (cases err) simp_all
    have J: "J u" if "?called out err u" for u using that weaker by (cases err) auto
    have "wp (saga_expired c ste) (\<lambda>b u. ?called out err u \<and> (b \<longrightarrow> ste \<noteq> None)) E t"
    proof -
      have "keeps idle (saga_expired c ste)" unfolding saga_expired_def by (intro idle_body.body_rules)
      then have "wp (saga_expired c ste) (\<lambda>_. ?called out err) E t" by (rule idle_wp [OF st _ t])
      moreover have "wp (saga_expired c ste) (\<lambda>b _. b \<longrightarrow> ste \<noteq> None) (\<lambda>_. True) t"
        unfolding saga_expired_def by (auto simp: wp_ret intro!: wp_after split: option.split)
      ultimately show ?thesis by (rule wp_mono [OF wp_conj]) auto
    qed
    moreover have "wp (?rest out err b) ?Q E u" if "?called out err u" "b \<longrightarrow> ste \<noteq> None" for b u
      using that expired [OF J [OF that(1)]] lost by (cases err; cases b) (auto simp: wp_ret)
    ultimately show ?thesis unfolding wp_bind [of "saga_expired c ste"] by (rule wp_mono) auto
  qed
  have attempt_it: "wp (bind_go (callAction rs c opID step (step_timeout step) data) (\<lambda>(out, err).
      bind_go (saga_expired c ste) (?rest out err))) ?Q E t" if "J t" for t
    unfolding wp_bind [of "callAction rs c opID step (step_timeout step) data"]
    by (rule wp_mono [OF call [OF that]])
       (use after [where out = "fst p" and err = "snd p" for p] in \<open>simp_all only: case_prod_unfold\<close>)
  let ?s = "s\<lparr>world := tick (world s)\<rparr>"
  have s: "J ?s" using stable_simps(1) [OF stable(1) less.prems] .
  have bumped: "J (?s\<lparr>exec := (exec ?s)\<lparr>Steps := (Steps (exec ?s))
      [i := (Steps (exec ?s) ! i)\<lparr>sAttempts := sAttempts (Steps (exec ?s) ! i) + 1\<rparr>]\<rparr>\<rparr>)"
    using stable_idle [OF stable(1) s idle_body.attempts_step] .
  show ?case
    using cause [OF s] attempt_it bumped
    by (subst run_attempts.simps)
       (auto simp: wp_bind [of "in_world (ctx_Done c)"] wp_in_world [of "ctx_Done c"] wp_ctx_Done
          wp_seq [of "upd_step i f" for f] wp_upd_step)
qed

section \<open>The outline\<close>

locale engine_outline =
  fixes d :: "('d, 'u) definition_"
    and caller :: "ctx \<Rightarrow> bool"
    and timed :: "ctx \<Rightarrow> gerr option \<Rightarrow> bool"
    and entry crash :: "('d, 'u) machine \<Rightarrow> bool"
    and ready during won :: "nat \<Rightarrow> 'd any \<Rightarrow> ('d, 'u) machine \<Rightarrow> bool"
    and lost given_up rolling reverting :: "nat \<Rightarrow> gerr \<Rightarrow> ('d, 'u) machine \<Rightarrow> bool"
    and reverted :: "nat \<Rightarrow> gerr \<Rightarrow> gerr option \<Rightarrow> ('d, 'u) machine \<Rightarrow> bool"
    and final :: "gerr option \<Rightarrow> ('d, 'u) machine \<Rightarrow> bool"
  assumes stable_entry: "stable crash entry" and stable_crashed: "stable crash crash"
    and stable_ready: "stable crash (ready i x)" and stable_given_up: "stable crash (given_up i y)"
    and stable_rolling: "stable crash (rolling i y)" and stable_final: "stable crash (final err)"
    \<comment> \<open>contexts\<close>
    and span_context: "caller c \<Longrightarrow> rs_def rs = d \<Longrightarrow> startSpan rs c n s = (Ret (c', fin), t) \<Longrightarrow> caller c'"
    and no_deadline: "caller c \<Longrightarrow> timed c None"
    and own_deadline: "caller c \<Longrightarrow> 0 < sint (d_timeout d) \<Longrightarrow>
      y = SagaTimeoutError r (d_name d) (d_timeout d) \<Longrightarrow> timed (WithDeadline c at y) (Some y)"
    \<comment> \<open>where a record is taken up\<close>
    and lease: "entry s \<Longrightarrow> wp (do_Acquire l c eid own ttl) (\<lambda>(ok, err) t. case err of
        Some y \<Rightarrow> final (Some (acquire_error eid y)) t
      | None \<Rightarrow> if ok then entry t else final (Some (ExecutionLockedError eid)) t) crash s"
    and known: "entry s \<Longrightarrow> Valid (Status (exec s))"
    and at_end: "entry s \<Longrightarrow> IsTerminal (Status (exec s)) \<Longrightarrow> final None s"
    and start: "entry s \<Longrightarrow> Status (exec s) = StatusPending \<Longrightarrow> rs_def rs = d \<Longrightarrow>
      wp (transitionExec rs c StatusRunning)
        (unless_err final (\<lambda>t. entry t \<and> Status (exec t) = StatusRunning)) crash s"
    and at_failed: "entry s \<Longrightarrow> Status (exec s) = StatusRunning \<Longrightarrow>
      find_failed 0 (Steps (exec s)) = Some (i, se) \<Longrightarrow>
      given_up i (StepError (sName se) (Some (ErrorString r (sError se)))) s"
    and at_next: "entry s \<Longrightarrow> Status (exec s) = StatusRunning \<Longrightarrow> find_failed 0 (Steps (exec s)) = None \<Longrightarrow>
      skip_succeeded 0 (Input (exec s)) (Steps (exec s)) = (i, x) \<Longrightarrow> ready i x s"
    and at_rollback: "entry s \<Longrightarrow> Status (exec s) = StatusCompensating \<Longrightarrow>
      rolling (compensation_boundary 0 0 (Steps (exec s))) (ErrorString r (Error (exec s))) s"
    \<comment> \<open>forward\<close>
    and cancelled: "ready i x s \<Longrightarrow> timed c ste \<Longrightarrow> ended (world s) c = Some y \<Longrightarrow> given_up i y s"
    and begin_step: "ready i x s \<Longrightarrow> i < length (d_steps d) \<Longrightarrow> i < length (Steps (exec s)) \<Longrightarrow>
      sStatus (Steps (exec s) ! i) = StepStatusPending \<Longrightarrow> rs_def rs = d \<Longrightarrow>
      wp (transitionStep rs c i StepStatusRunning) (unless_err final (during i x)) crash s"
    and again: "ready i x s \<Longrightarrow> i < length (d_steps d) \<Longrightarrow> i < length (Steps (exec s)) \<Longrightarrow>
      sStatus (Steps (exec s) ! i) \<noteq> StepStatusPending \<Longrightarrow> during i x s"
    and attempts: "during i x s \<Longrightarrow> i < length (d_steps d) \<Longrightarrow> rs_def rs = d \<Longrightarrow> timed c ste \<Longrightarrow>
      wp (runStep rs c ste (ID (exec s)) i (d_steps d ! i) x)
        (\<lambda>(out, err). case err of None \<Rightarrow> won i out | Some y \<Rightarrow> lost i y) crash s"
    and success: "won i x s \<Longrightarrow> i < length (d_steps d) \<Longrightarrow> rs_def rs = d \<Longrightarrow>
      wp (seq_go (upd_step i (\<lambda>s. s\<lparr>sOutput := x\<rparr>)) (transitionStep rs c i StepStatusSucceeded))
        (unless_err final (ready (Suc i) x)) crash s"
    and failure: "lost i y s \<Longrightarrow> i < length (d_steps d) \<Longrightarrow> rs_def rs = d \<Longrightarrow>
      wp (seq_go (upd_step i (\<lambda>s. s\<lparr>sError := Error_msg y\<rparr>)) (transitionStep rs c i StepStatusFailed))
        (unless_err final (given_up i y)) crash s"
    and complete: "ready i x s \<Longrightarrow> length (d_steps d) \<le> i \<Longrightarrow> rs_def rs = d \<Longrightarrow>
      wp (seq_go (upd_exec (\<lambda>e. e\<lparr>CurrentStep := [], Output := x\<rparr>)) (transitionExec rs c StatusCompleted))
        final crash s"
    \<comment> \<open>backward\<close>
    and nothing_done: "given_up i y s \<Longrightarrow> \<not> anySucceeded (take i (Steps (exec s))) \<Longrightarrow> rs_def rs = d \<Longrightarrow>
      wp (transitionExec rs c StatusFailed) (unless_err final (final (Some y))) crash s"
    and turn_back: "given_up i y s \<Longrightarrow> anySucceeded (take i (Steps (exec s))) \<Longrightarrow> rs_def rs = d \<Longrightarrow>
      wp (transitionExec rs c StatusCompensating) (unless_err final (rolling i y)) crash s"
    and skip: "rolling (Suc i) y s \<Longrightarrow> i < length (Steps (exec s)) \<Longrightarrow>
      sStatus (Steps (exec s) ! i) \<notin> {StepStatusSucceeded, StepStatusCompensating}
      \<or> Compensate (d_steps d ! i) = None \<Longrightarrow> rolling i y s"
    and undo: "rolling (Suc i) y s \<Longrightarrow> i < length (Steps (exec s)) \<Longrightarrow>
      sStatus (Steps (exec s) ! i) = StepStatusSucceeded \<Longrightarrow> i < length (d_steps d) \<Longrightarrow>
      Compensate (d_steps d ! i) \<noteq> None \<Longrightarrow> rs_def rs = d \<Longrightarrow>
      wp (transitionStep rs c i StepStatusCompensating) (unless_err final (reverting i y)) crash s"
    and undo_again: "rolling (Suc i) y s \<Longrightarrow> i < length (Steps (exec s)) \<Longrightarrow>
      sStatus (Steps (exec s) ! i) = StepStatusCompensating \<Longrightarrow> i < length (d_steps d) \<Longrightarrow>
      Compensate (d_steps d ! i) \<noteq> None \<Longrightarrow> reverting i y s"
    and undo_call: "reverting i y s \<Longrightarrow> rs_def rs = d \<Longrightarrow>
      wp (invokeCompensate rs c i f) (reverted i y) crash s"
    and undone: "reverted i y None s \<Longrightarrow> rs_def rs = d \<Longrightarrow>
      wp (transitionStep rs c i StepStatusCompensated) (unless_err final (rolling i y)) crash s"
    and undo_failed: "reverted i y (Some z) s \<Longrightarrow> rs_def rs = d \<Longrightarrow>
      wp (seq_go (upd_step i (\<lambda>s. s\<lparr>sError := Error_msg z\<rparr>))
        (transitionStep rs c i StepStatusCompensationFailed)) (unless_err final (rolling i y)) crash s"
    and all_undone: "rolling 0 y s \<Longrightarrow> rs_def rs = d \<Longrightarrow>
      wp (transitionExec rs c StatusCompensated) (unless_err final (final (Some y))) crash s"
    and some_failed: "rolling 0 y s \<Longrightarrow> rs_def rs = d \<Longrightarrow>
      wp (transitionExec rs c StatusCompensationFailed)
        (unless_err final (final (Some (compensation_error y)))) crash s"
begin

lemmas crash_rules = stable_crash [OF stable_entry] stable_crash [OF stable_ready]
  stable_crash [OF stable_given_up] stable_crash [OF stable_rolling] stable_crash [OF stable_final]

lemmas ready_simps = stable_simps [OF stable_ready]
lemmas given_up_simps = stable_simps [OF stable_given_up]
lemmas rolling_simps = stable_simps [OF stable_rolling]
lemmas entry_simps = stable_simps [OF stable_entry]

lemma idle_ops:
  "keeps idle (startSpan rs c n)" "keeps idle (release_lock rs c)"
  "keeps idle (all_compensated j k)" "keeps idle (in_world m)"
  by (intro idle_body.startSpan_keeps idle_body.release_lock_keeps idle_body.all_compensated_keeps
        idle_body.in_world_keeps; simp add: span_aside)+

lemma comp_loop_outline:
  "rs_def rs = d \<Longrightarrow> rolling i y s \<Longrightarrow> wp (comp_loop rs c i) (unless_err final (rolling 0 y)) crash s"
proof (induction i arbitrary: s)
  case 0
  then show ?case by (simp add: wp_ret)
next
  case (Suc i)
  note def = Suc.prems(1)
  note IH = Suc.IH [OF def]
  have good: "wp (bind_go (transitionStep rs c i StepStatusCompensated) (\<lambda>err. case err of
      Some z \<Rightarrow> ret (Some z) | None \<Rightarrow> comp_loop rs c i)) (unless_err final (rolling 0 y)) crash t"
    if "reverted i y None t" for t
    unfolding wp_bind by (rule wp_mono [OF undone [OF that def]]) (auto intro!: wp_unless_err IH)
  have bad: "wp (seq_go (upd_step i (\<lambda>s. s\<lparr>sError := Error_msg z\<rparr>))
      (bind_go (transitionStep rs c i StepStatusCompensationFailed) (\<lambda>err. case err of
        Some z \<Rightarrow> ret (Some z) | None \<Rightarrow> comp_loop rs c i))) (unless_err final (rolling 0 y)) crash t"
    if "reverted i y (Some z) t" for t z
    unfolding wp_seq_bind by (rule wp_mono [OF undo_failed [OF that def]]) (auto intro!: wp_unless_err IH)
  have call: "wp (bind_go (invokeCompensate rs c i f) (\<lambda>cErr. case cErr of
        Some x \<Rightarrow> seq_go (upd_step i (\<lambda>s. s\<lparr>sError := Error_msg x\<rparr>))
          (bind_go (transitionStep rs c i StepStatusCompensationFailed) (\<lambda>err.
           case err of Some y \<Rightarrow> ret (Some y) | None \<Rightarrow> comp_loop rs c i))
      | None \<Rightarrow> bind_go (transitionStep rs c i StepStatusCompensated) (\<lambda>err.
           case err of Some y \<Rightarrow> ret (Some y) | None \<Rightarrow> comp_loop rs c i)))
      (unless_err final (rolling 0 y)) crash t" if "reverting i y t" for t f
    unfolding wp_bind [of "invokeCompensate rs c i f"]
    by (rule wp_mono [OF undo_call [OF that def]]) (auto intro: good bad split: option.split)
  have r: "rolling (Suc i) y (s\<lparr>exec := (exec s)\<lparr>CurrentStep := n\<rparr>\<rparr>)" for n
    by (rule rolling_simps(2) [OF Suc.prems(2)])
  have over: "rolling i y s" if "i < length (Steps (exec s))"
      "sStatus (Steps (exec s) ! i) \<notin> {StepStatusSucceeded, StepStatusCompensating}
       \<or> Compensate (d_steps d ! i) = None"
    using skip [OF Suc.prems(2) that] .
  have first: "wp (bind_go (transitionStep rs c i StepStatusCompensating) (\<lambda>err. case err of
        Some x \<Rightarrow> ret (Some x) | None \<Rightarrow> k)) (unless_err final (rolling 0 y)) crash t"
    if "wp (transitionStep rs c i StepStatusCompensating) (unless_err final (reverting i y)) crash t"
      "\<And>u. reverting i y u \<Longrightarrow> wp k (unless_err final (rolling 0 y)) crash u" for t k
    unfolding wp_bind by (rule wp_mono [OF that(1)]) (auto intro!: wp_unless_err that(2))
  show ?case
    using def undo [OF r, of _ rs c] undo_again [OF r]
    by (auto simp: wp_bind [of "step_at i"] wp_bind [of "ret x" for x] wp_seq wp_step_at wp_panic
        wp_set_CurrentStep wp_ret stable_crash [OF stable_rolling Suc.prems(2)]
        intro!: IH over call first split: option.split)
qed

lemma finishCompensating_outline:
  assumes "rs_def rs = d" and "rolling i y s"
  shows "wp (finishCompensating rs c i y) final crash s"
proof -
  have settle: "wp (bind_go (transitionExec rs c to') (\<lambda>err. case err of
        Some x \<Rightarrow> ret (Some x) | None \<Rightarrow> ret (Some z))) final crash t"
    if "wp (transitionExec rs c to') (unless_err final (final (Some z))) crash t" for t to' z
    unfolding wp_bind by (rule wp_mono [OF that]) (auto simp: wp_ret intro!: wp_unless_err)
  have all: "wp (compensate rs c' i) (\<lambda>(ok, err). unless_err final (rolling 0 y) err) crash s" for c'
    unfolding compensate_def wp_bind [of "comp_loop rs c' i"]
    by (rule wp_mono [OF comp_loop_outline [OF assms]])
       (auto simp: wp_ret wp_bind unless_err_def split: option.splits
         intro!: wp_mono [OF idle_wp [OF stable_rolling idle_ops(3)]])
  show ?thesis
    unfolding finishCompensating_def wp_bind [of "compensate rs c' i" for c']
    by (rule wp_mono [OF all])
       (auto simp: wp_seq wp_set_CurrentStep wp_ret unless_err_def intro!: settle all_undone some_failed
         rolling_simps stable_simps [OF stable_final] assms(1) split: option.splits)
qed

lemma abort_outline:
  assumes "rs_def rs = d" and "given_up i y s"
  shows "wp (abort rs c i (Some y)) final crash s"
proof -
  let ?s = "s\<lparr>exec := (exec s)\<lparr>Error := Error_msg y\<rparr>\<rparr>"
  have g: "given_up i y ?s" by (rule given_up_simps [OF assms(2)])
  show ?thesis
    using nothing_done [OF g _ assms(1), of c] turn_back [OF g _ assms(1), of c]
    by (auto simp: abort_def wp_seq wp_upd_exec wp_bind wp_gets wp_ret elim!: wp_mono
        intro!: wp_unless_err finishCompensating_outline assms(1))
qed

lemma forward_outline:
  assumes "rs_def rs = d" and "timed c ste"
  shows "ready i x s \<Longrightarrow> steps = drop i (d_steps d) \<Longrightarrow> wp (forward rs c ste steps i x) final crash s"
proof (induction steps arbitrary: i x s)
  case Nil
  then show ?case using complete [OF Nil.prems(1) _ assms(1)] by simp
next
  case (Cons step rest)
  have i: "i < length (d_steps d)" "step = d_steps d ! i" "rest = drop (Suc i) (d_steps d)"
    using Cons.prems(2) by (metis drop_eq_Nil linorder_not_less list.distinct(1))
      (metis Cons.prems(2) Cons_nth_drop_Suc drop_eq_Nil linorder_not_less list.distinct(1) list.inject)+
  have fine: "wp (seq_go (upd_step i (\<lambda>s. s\<lparr>sOutput := out\<rparr>))
      (bind_go (transitionStep rs c i StepStatusSucceeded) (\<lambda>err. case err of
        Some y \<Rightarrow> ret (Some y) | None \<Rightarrow> forward rs c ste rest (Suc i) out))) final crash t"
    if "won i out t" for out t
    unfolding wp_seq_bind
    by (rule wp_mono [OF success [OF that i(1) assms(1)]]) (auto intro!: wp_unless_err Cons.IH i(3))
  have bad: "wp (seq_go (upd_step i (\<lambda>s. s\<lparr>sError := Error_msg y\<rparr>))
      (bind_go (transitionStep rs c i StepStatusFailed) (\<lambda>err. case err of
        Some z \<Rightarrow> ret (Some z) | None \<Rightarrow> seq_go (set_CurrentStep []) (abort rs c i (Some y))))) final crash t"
    if "lost i y t" for y t
    unfolding wp_seq_bind
    by (rule wp_mono [OF failure [OF that i(1) assms(1)]])
       (auto simp: wp_seq wp_set_CurrentStep intro!: wp_unless_err abort_outline [OF assms(1)] given_up_simps)
  have run: "wp (bind_go (runStep rs c ste (ID (exec t)) i step x) (\<lambda>(out, stepErr). case stepErr of
      Some y \<Rightarrow> seq_go (upd_step i (\<lambda>s. s\<lparr>sError := Error_msg y\<rparr>))
        (bind_go (transitionStep rs c i StepStatusFailed) (\<lambda>err. case err of
           Some z \<Rightarrow> ret (Some z) | None \<Rightarrow> seq_go (set_CurrentStep []) (abort rs c i (Some y))))
    | None \<Rightarrow> seq_go (upd_step i (\<lambda>s. s\<lparr>sOutput := out\<rparr>))
        (bind_go (transitionStep rs c i StepStatusSucceeded) (\<lambda>err. case err of
           Some z \<Rightarrow> ret (Some z) | None \<Rightarrow> forward rs c ste rest (Suc i) out)))) final crash t"
    if "during i x t" for t
    unfolding i(2) wp_bind [of "runStep rs c ste eid i (d_steps d ! i) x" for eid]
    by (rule wp_mono [OF attempts [OF that i(1) assms]]) (auto intro: fine bad split: option.splits)
  let ?t = "s\<lparr>world := tick (world s)\<rparr>"
  let ?s = "s\<lparr>world := tick (world s), exec := (exec s)\<lparr>CurrentStep := Name step\<rparr>\<rparr>"
  have r1: "ready i x ?t" using Cons.prems(1) by (rule ready_simps)
  have r: "ready i x ?t" "ready i x ?s" using r1 ready_simps(2) [OF r1, of "Name step"] by simp_all
  show ?case
  proof (cases "ended (tick (world s)) c")
    case (Some y)
    have g: "given_up i y (s\<lparr>exec := (exec s)\<lparr>CurrentStep := []\<rparr>, world := w\<rparr>)" for w
      using given_up_simps(1) [OF given_up_simps(2) [OF cancelled [OF r(1) assms(2)]], of y w "[]"] Some
      by simp
    show ?thesis
      using Some abort_outline [OF assms(1) g]
      by (simp add: wp_bind wp_in_world wp_ctx_Done wp_context_Cause wp_seq wp_set_CurrentStep)
  next
    case None
    have go: "wp (bind_go (gets (\<lambda>m. ID (exec m))) (\<lambda>eid.
        bind_go (runStep rs c ste eid i step x) (\<lambda>(out, stepErr). case stepErr of
          Some y \<Rightarrow> seq_go (upd_step i (\<lambda>s. s\<lparr>sError := Error_msg y\<rparr>))
            (bind_go (transitionStep rs c i StepStatusFailed) (\<lambda>err. case err of
               Some z \<Rightarrow> ret (Some z) | None \<Rightarrow> seq_go (set_CurrentStep []) (abort rs c i (Some y))))
        | None \<Rightarrow> seq_go (upd_step i (\<lambda>s. s\<lparr>sOutput := out\<rparr>))
            (bind_go (transitionStep rs c i StepStatusSucceeded) (\<lambda>err. case err of
               Some z \<Rightarrow> ret (Some z) | None \<Rightarrow> forward rs c ste rest (Suc i) out))))) final crash t"
      if "during i x t" for t
      using run [OF that] by (simp add: wp_bind [of "gets f" for f] wp_gets)
    have first: "wp (bind_go m (\<lambda>err. case err of
          Some z \<Rightarrow> ret (Some z) | None \<Rightarrow> k)) final crash ?s"
      if "wp m (unless_err final (during i x)) crash ?s" "\<And>u. during i x u \<Longrightarrow> wp k final crash u" for m k
      unfolding wp_bind by (rule wp_mono [OF that(1)]) (auto intro!: wp_unless_err that(2))
    have begun: "wp (transitionStep rs c i StepStatusRunning) (unless_err final (during i x)) crash ?s"
      if "i < length (Steps (exec s))" "sStatus (Steps (exec s) ! i) = StepStatusPending"
      using begin_step [OF r(2) i(1) _ _ assms(1)] that by simp
    have on: "wp (ret None) (unless_err final (during i x)) crash ?s"
      if "i < length (Steps (exec s))" "sStatus (Steps (exec s) ! i) \<noteq> StepStatusPending"
      using again [OF r(2) i(1)] that by (simp add: wp_ret)
    show ?thesis
      using None stable_crash [OF stable_ready r(2)]
      by (auto simp: wp_bind [of "in_world m" for m] wp_bind [of "step_at i"] wp_in_world wp_ctx_Done
          wp_seq [of "set_CurrentStep n" for n] wp_set_CurrentStep wp_step_at intro!: first begun on go)
  qed
qed

lemma resumeRunning_outline:
  assumes "rs_def rs = d" and "timed c ste" and "entry s" and "Status (exec s) = StatusRunning"
  shows "wp (resumeRunning rs c ste) final crash s"
proof (cases "find_failed 0 (Steps (exec s))")
  case None
  obtain i x where ix: "skip_succeeded 0 (Input (exec s)) (Steps (exec s)) = (i, x)" by fastforce
  show ?thesis
    using None ix forward_outline [OF assms(1,2) at_next [OF assms(3,4) None ix]] assms(1)
    by (simp add: resumeRunning_def wp_bind wp_gets)
next
  case (Some p)
  obtain i y where p: "p = (i, y)" by (cases p)
  show ?thesis
    using Some p assms(1)
    by (simp add: resumeRunning_def wp_bind wp_gets wp_errors_New)
       (intro abort_outline given_up_simps at_failed assms; simp)
qed

lemma dispatch_outline:
  assumes "rs_def rs = d" and "timed c ste" and "entry s"
  shows "wp (dispatch rs c ste) final crash s"
proof -
  consider "IsTerminal (Status (exec s))" | "Status (exec s) = StatusCompensating"
    | "Status (exec s) = StatusPending" | "Status (exec s) = StatusRunning"
    using known [OF assms(3)] by (cases "Status (exec s)") auto
  then show ?thesis
  proof cases
    case 1
    then show ?thesis using at_end [OF assms(3)] by (auto simp: dispatch_def wp_bind wp_gets wp_ret)
  next
    case 2
    then show ?thesis
      using assms(1)
      by (simp add: dispatch_def resumeCompensating_def wp_bind wp_gets wp_errors_New)
         (intro finishCompensating_outline rolling_simps at_rollback assms; simp)
  next
    case 3
    then show ?thesis
      by (auto simp: dispatch_def wp_bind wp_gets
          intro!: wp_mono [OF start [OF assms(3) _ assms(1)]] wp_unless_err resumeRunning_outline assms(1,2))
  next
    case 4
    then show ?thesis
      by (simp add: dispatch_def wp_bind wp_gets resumeRunning_outline assms)
  qed
qed

lemma resume_held_outline:
  assumes "rs_def rs = d" and "caller c" and "entry s"
  shows "wp (resume_held rs c) final crash s"
proof -
  have rel: "wp (release_lock rs c') (\<lambda>_. P) crash t" if "P t" "stable crash P" for c' t P
    using idle_wp [OF that(2) idle_ops(2) that(1)] .
  have fin_wp: "wp fin (\<lambda>_. P) crash t" if "P t" "stable crash P" "keeps idle fin" for P t fin
    using idle_wp [OF that(2,3,1)] .
  have run: "wp (deferred (release_lock rs c2) (deferred fin (dispatch rs c2 ste))) final crash t"
    if "entry t" "keeps idle fin" "timed c2 ste" for c2 ste fin t
    unfolding wp_deferred
    by (rule wp_mono [OF dispatch_outline [OF assms(1) that(3,1)]])
       (auto intro!: wp_mono [OF fin_wp [OF _ _ that(2)]] rel stable_final stable_crashed
          dest: stable_crash [OF stable_final])
  have span: "wp (startSpan rs c n) (\<lambda>(c', fin) t. entry t \<and> keeps idle fin \<and> caller c') crash s" for n
  proof -
    have "wp (startSpan rs c n) (\<lambda>_. entry) crash s"
      using stable_entry idle_ops(1) assms(3) by (rule idle_wp)
    then show ?thesis
      using idle_body.startSpan_end_keeps [OF _ span_aside, of rs c n s]
        span_context [OF assms(2,1), of n s]
      by (auto simp: wp_def split: prod.splits outcome.splits)
  qed
  have deadline: "wp (bind_go (start_timeout (rs_def rs) c1) (\<lambda>(c2, ste).
        deferred (release_lock rs c2) (deferred fin (dispatch rs c2 ste)))) final crash t"
    if "entry t" "keeps idle fin" "caller c1" for c1 fin t
    using assms(1) that
    by (auto simp: wp_bind start_timeout_def Let_def wp_in_world wp_new_ref wp_WithTimeoutCause wp_ret
        intro!: run no_deadline own_deadline entry_simps)
  show ?thesis
    unfolding resume_held_def wp_bind [of "on_panic _ _"] wp_on_panic
    by (rule wp_mono [OF span]) (auto intro: deadline rel stable_crashed split: prod.split)
qed

text \<open>The triple of the whole program.\<close>

lemma resume_outline:
  assumes "caller c" and "entry s"
  shows "wp (resume d c) final crash s"
proof (cases "as_Locker (d_store d)")
  case None
  then show ?thesis using assms by (simp add: resume_def resume_held_outline)
next
  case (Some l)
  have own: "wp (in_world idgen_New) (\<lambda>_. entry) crash s"
    using stable_entry idle_ops(4) assms(2) by (rule idle_wp)
  show ?thesis
    by (auto simp: resume_def Some wp_bind wp_gets wp_ret
        intro!: wp_mono [OF own] wp_mono [OF lease] resume_held_outline assms(1) split: option.splits prod.splits)
qed

lemma Execute_outline:
  assumes d: "d = snd (Freeze d0)" and c: "caller c" and before: "\<And>w. crash (s\<lparr>world := w\<rparr>)"
    and first: "\<And>i now w. wp (store_Save d c) (unless_err final entry) crash
      (s\<lparr>world := w, exec := new_execution d i input now\<rparr>)"
  shows "wp (Execute d0 c input) (\<lambda>(err, d') t. final err t \<and> d' = d) crash s"
proof -
  have run: "wp (bind_go (resume d c) (\<lambda>err. ret (err, d))) (\<lambda>(err, d') t. final err t \<and> d' = d) crash t"
    if "entry t" for t
    unfolding wp_bind by (rule wp_mono [OF resume_outline [OF c that]]) (simp_all add: wp_ret)
  have "wp (bind_go (store_Save d c) (\<lambda>err. case err of Some x \<Rightarrow> ret (Some x, d)
        | None \<Rightarrow> bind_go (resume d c) (\<lambda>err. ret (err, d))))
      (\<lambda>(err, d') t. final err t \<and> d' = d) crash (s\<lparr>world := w, exec := new_execution d i input now\<rparr>)"
    for i now w
    unfolding wp_bind [of "store_Save d c"]
    by (rule wp_mono [OF first]) (auto simp: wp_ret unless_err_def intro: run split: option.splits)
  then show ?thesis
    unfolding Execute_def Let_def d [symmetric]
    by (auto simp: wp_bind [of "in_world m" for m] wp_seq [of "upd_exec f" for f] wp_upd_exec wp_in_world
        intro!: wp_callback before)
qed

end

end
