(* ===== verification/Saga_Refinement.thy ===== *)
theory Saga_Refinement
  imports Saga_Spec Engine_Outline
begin

text \<open>
  The engine refines the abstract machine: the records handed to the store in a run, seen through
  \<open>abs_state\<close>, are a run of \<open>saga_step\<close>, one step for each record and none in between. The proof
  has two parts. Reading the shapes of good records shows that a move along the transition tables
  between two of them is a step of the machine, guards included. Reading the engine shows that
  consecutive records are one such move apart: each transition changes one status and is stored
  before the next.
\<close>

section \<open>Shapes and the machine\<close>

definition abs_state :: "'d execution \<Rightarrow> saga_state" where
  "abs_state e = (Status e, statuses e)"

lemma settled_at_rest: "j < length (d_steps d) \<Longrightarrow> settled d j st \<longleftrightarrow> at_rest (undoable d) j st"
  by (auto simp: settled_def at_rest_def undoable_def)

lemma forward_running_at:
  "forward_at k ss \<Longrightarrow> i < length ss \<Longrightarrow> ss ! i = StepStatusRunning \<Longrightarrow> i = k"
  by (cases i k rule: linorder_cases) (auto simp: forward_at_def)

lemma forward_failing:
  assumes "forward_at 0 ss" shows "StepStatusSucceeded \<notin> set ss"
proof
  assume "StepStatusSucceeded \<in> set ss"
  then obtain j where "j < length ss" "ss ! j = StepStatusSucceeded" by (auto simp: in_set_conv_nth)
  then show False using assms by (cases j) (auto simp: forward_at_def unfinished_def)
qed

lemma turning:
  assumes "forward_at k ss" and "backward_at h ss"
  shows "StepStatusSucceeded \<in> set ss \<and> (\<exists>st \<in> set ss. st \<noteq> StepStatusSucceeded)"
proof -
  have h: "0 < h" "h < length ss" "touched (ss ! 0)" "unfinished (ss ! h)"
    using assms(2) by (auto simp: backward_at_def)
  have "0 < length ss" using h(2) by linarith
  then have "ss ! 0 \<in> set ss" "ss ! 0 = StepStatusSucceeded"
    using forward_at_nth [OF assms(1), of 0] h(3) by (auto simp: touched_def unfinished_def)
  moreover have "ss ! h \<in> set ss" "ss ! h \<noteq> StepStatusSucceeded"
    using h(2,4) by (auto simp: unfinished_def)
  ultimately show ?thesis by metis
qed

lemma settled_end: "settled_from d 0 ss \<Longrightarrow> length ss = length (d_steps d) \<Longrightarrow>
  \<forall>j < length ss. at_rest (undoable d) j (ss ! j)"
  by (simp add: settled_from_def settled_at_rest)

lemma shape_exec_step:
  assumes "shape_ok d st ss" and "shape_ok d st' ss" and "canTransitionStatus st st'"
    and len: "length ss = length (d_steps d)"
  shows "saga_step (undoable d) (st, ss) (st', ss)"
proof -
  consider "st = StatusPending" "st' = StatusRunning"
    | "st = StatusRunning" "st' \<in> {StatusCompleted, StatusFailed, StatusCompensating}"
    | "st = StatusCompensating" "st' \<in> {StatusCompensated, StatusCompensationFailed}"
    using assms(3) by (cases st) (auto simp: canTransitionStatus_def)
  then show ?thesis
  proof cases
    case 1
    then show ?thesis by (simp add: Start)
  next
    case 2
    then obtain k where k: "forward_at k ss" using assms(1) by auto
    show ?thesis
      using 2 assms(2) turning [OF k] forward_failing
      by (auto simp: undo_shape_def forward_at_def in_set_conv_nth
          intro!: Complete Give_up Turn_back)
  next
    case 3
    then show ?thesis
      using assms(2) settled_end [OF _ len] by (auto intro!: All_undone Some_failed)
  qed
qed

lemma shape_forward_step:
  assumes "forward_at k ss" and "forward_at h (ss[i := st])" and "i < length ss"
    and "canTransitionStepStatus (ss ! i) st"
    and "st \<in> {StepStatusRunning, StepStatusSucceeded, StepStatusFailed}"
  shows "saga_step u (StatusRunning, ss) (StatusRunning, ss[i := st])"
proof -
  consider "st = StepStatusRunning" "ss ! i = StepStatusPending"
    | "st = StepStatusSucceeded" "ss ! i = StepStatusRunning"
    | "st = StepStatusFailed" "ss ! i = StepStatusRunning"
    using assms(4,5) by (cases "ss ! i") (auto simp: canTransitionStepStatus_def)
  then show ?thesis
  proof cases
    case 1
    have "i = h" using forward_running_at [OF assms(2), of i] assms(3) 1 by simp
    then have "\<forall>j < i. ss ! j = StepStatusSucceeded"
      using assms(2) by (auto simp: forward_at_def)
    then show ?thesis using 1 assms(3) by (auto intro: Attempt)
  qed (use assms(3) in \<open>auto intro: Succeed Fail\<close>)
qed

lemma shape_backward_step:
  assumes "undo_shape d ss" and "undo_shape d (ss[i := st])" and "i < length ss"
    and "canTransitionStepStatus (ss ! i) st" and len: "length ss = length (d_steps d)"
    and "st \<notin> {StepStatusRunning, StepStatusSucceeded, StepStatusFailed}"
  shows "saga_step (undoable d) (StatusCompensating, ss) (StatusCompensating, ss[i := st])"
proof -
  consider "st = StepStatusCompensating" "ss ! i = StepStatusSucceeded"
    | "st = StepStatusCompensated" "ss ! i = StepStatusCompensating"
    | "st = StepStatusCompensationFailed" "ss ! i = StepStatusCompensating"
    using assms(4,6) by (cases "ss ! i") (auto simp: canTransitionStepStatus_def)
  then show ?thesis
  proof cases
    case 1
    then have "Compensate (d_steps d ! i) \<noteq> None
        \<and> (\<forall>j < length ss. i < j \<longrightarrow> settled d j (ss ! j))"
      using assms(2,3) unfolding undo_shape_def in_reverse_def undoing_def
      by (metis (no_types, lifting) insertI1 length_list_update less_not_refl nth_list_update_eq nth_list_update_neq)
    then show ?thesis
      using 1 assms(3) len by (auto simp: settled_at_rest undoable_def intro!: Undo)
  qed (use assms(3) in \<open>auto intro: Undone Undo_failed\<close>)
qed

lemma good_table_step:
  assumes "good d e" and "good d e'" and "table_step (abs_state e) (abs_state e')"
  shows "saga_step (undoable d) (abs_state e) (abs_state e')"
proof -
  let ?ss = "statuses e"
  have sh: "shape_ok d (Status e) ?ss" "shape_ok d (Status e') (statuses e')"
    and len: "length ?ss = length (d_steps d)"
    using assms(1,2) good_length [OF assms(1)] by (simp_all add: good_def record_ok_def)
  consider "canTransitionStatus (Status e) (Status e')" "statuses e' = ?ss"
    | i st where "Status e' = Status e" "i < length ?ss" "canTransitionStepStatus (?ss ! i) st"
        "statuses e' = ?ss[i := st]"
        "if st \<in> {StepStatusRunning, StepStatusSucceeded, StepStatusFailed}
         then Status e = StatusRunning else Status e = StatusCompensating"
    using assms(3) unfolding table_step_def abs_state_def fst_conv snd_conv by metis
  then show ?thesis
  proof cases
    case 1
    then show ?thesis using sh shape_exec_step [OF _ _ _ len] by (simp add: abs_state_def)
  next
    case 2
    then show ?thesis
      using sh shape_forward_step [OF _ _ 2(2,3)] shape_backward_step [OF _ _ 2(2,3) len]
      by (auto simp: abs_state_def split: if_splits)
  qed
qed

section \<open>The records of a run are one move apart\<close>

text \<open>
  \<open>tracks s t\<close>: the records stored between \<open>s\<close> and \<open>t\<close> are a path of table moves from the
  execution of \<open>s\<close>, and the execution of \<open>t\<close> is where it ends. \<open>follows s t\<close>: the path only; an
  engine that could not store its last move stops there.
\<close>

definition follows :: "('d, 'u) machine \<Rightarrow> ('d, 'u) machine \<Rightarrow> bool" where
  "follows s t \<longleftrightarrow> (\<exists>tr. trace t = trace s @ tr
     \<and> legal_path table_step (abs_state (exec s)) (map abs_state (saves_of tr)))"

definition tracks :: "('d, 'u) machine \<Rightarrow> ('d, 'u) machine \<Rightarrow> bool" where
  "tracks s t \<longleftrightarrow> (\<exists>tr. trace t = trace s @ tr
     \<and> legal_path table_step (abs_state (exec s)) (map abs_state (saves_of tr))
     \<and> abs_state (exec t) = last (abs_state (exec s) # map abs_state (saves_of tr)))"

lemma tracks_follows: "tracks s t \<Longrightarrow> follows s t"
  by (auto simp: tracks_def follows_def)

lemma tracks_refl: "tracks s s"
  by (simp add: tracks_def)

lemma legal_path_append:
  "legal_path can s (as @ bs) \<longleftrightarrow> legal_path can s as \<and> legal_path can (last (s # as)) bs"
  by (induction as arbitrary: s) auto

text \<open>What happens between two transitions: no record stored, no status changed.\<close>

definition steady :: "('d, 'u) machine \<Rightarrow> ('d, 'u) machine \<Rightarrow> bool" where
  "steady s t \<longleftrightarrow> abs_state (exec t) = abs_state (exec s)
     \<and> (\<exists>tr. trace t = trace s @ tr \<and> saves_of tr = [])"

fun is_save :: "'d obs \<Rightarrow> bool" where
  "is_save (ObsSave e) = True"
| "is_save _ = False"

lemma not_a_save: "is_observer x \<Longrightarrow> \<not> is_save x" "is_callback x \<Longrightarrow> \<not> is_save x" "is_span x \<Longrightarrow> \<not> is_save x"
  by (cases x; simp)+

lemma statuses_same:
  "sStatus y = sStatus (Steps e ! i) \<Longrightarrow> statuses (e\<lparr>Steps := (Steps e)[i := y]\<rparr>) = statuses e"
  unfolding statuses_def by (cases "i < length (Steps e)") (simp_all add: map_update_same list_update_beyond)

interpretation steady_body: body_frame steady "\<lambda>x. \<not> is_save x"
proof unfold_locales
  fix s :: "('a, 'b) machine" and x :: "'a obs"
  assume "\<not> is_save x"
  then show "steady s (s\<lparr>trace := trace s @ [x]\<rparr>)" by (cases x) (simp_all add: steady_def)
qed (auto simp: steady_def abs_state_def statuses_same simp del: statuses_simps)

lemma steady_tracks: "tracks s0 s \<Longrightarrow> steady s t \<Longrightarrow> tracks s0 t"
  by (fastforce simp: tracks_def steady_def)

definition on_course :: "('d, 'u) machine \<Rightarrow> status \<Rightarrow> ('d, 'u) machine \<Rightarrow> bool" where
  "on_course s0 st t \<longleftrightarrow> tracks s0 t \<and> Status (exec t) = st"

lemma on_course_follows: "on_course s0 st t \<Longrightarrow> follows s0 t"
  by (simp add: on_course_def tracks_follows)

lemma on_course_steady: "on_course s0 st s \<Longrightarrow> steady s t \<Longrightarrow> on_course s0 st t"
  using steady_tracks [of s0 s t] by (simp add: on_course_def steady_def abs_state_def)

lemma still_wp:
  assumes "keeps steady m" and "on_course s0 st s"
  shows "wp m (\<lambda>_. on_course s0 st) (follows s0) s"
proof -
  have "on_course s0 st (snd (m s))"
    using assms on_course_steady by (simp add: keeps_def) blast
  then have "wp m (\<lambda>_. on_course s0 st) (on_course s0 st) s" by (simp add: wp_final)
  then show ?thesis by (rule wp_mono) (auto intro: on_course_follows)
qed

text \<open>An operation with an error result: on course if there is none.\<close>

abbreviation goes :: "('d, 'u) machine \<Rightarrow> status \<Rightarrow> gerr option \<Rightarrow> ('d, 'u) machine \<Rightarrow> bool" where
  "goes s0 st \<equiv> unless_err (\<lambda>_. follows s0) (on_course s0 st)"

text \<open>A move along the tables, handed to the store, lengthens the path by one.\<close>

lemma put_path:
  assumes "tracks s0 s" and "table_step (abs_state (exec s)) (abs_state e)"
    and "trace t = trace s @ tr" and "exec t = e" and "saves_of tr \<in> {[], [e]}"
  shows "follows s0 t \<and> (saves_of tr = [e] \<longrightarrow> on_course s0 (Status e) t)"
proof -
  obtain tr0 where tr0: "trace s = trace s0 @ tr0"
      "legal_path table_step (abs_state (exec s0)) (map abs_state (saves_of tr0))"
      "abs_state (exec s) = last (abs_state (exec s0) # map abs_state (saves_of tr0))"
    using assms(1) unfolding tracks_def by blast
  have "legal_path table_step (abs_state (exec s0)) (map abs_state (saves_of (tr0 @ tr)))"
    using tr0 assms(2,5) by (auto simp: legal_path_append simp del: legal_path.simps(2)) auto
  moreover have "abs_state (exec t) = last (abs_state (exec s0) # map abs_state (saves_of (tr0 @ tr)))"
    if "saves_of tr = [e]" using that assms(4) by simp
  ultimately show ?thesis
    using tr0(1) assms(3,4) unfolding follows_def on_course_def tracks_def by (metis append.assoc)
qed

lemma put_goes:
  assumes "tracks s0 s" and "table_step (abs_state (exec s)) (abs_state e)"
  shows "put s e t \<Longrightarrow> follows s0 t" and "put_result s e err t \<Longrightarrow> goes s0 (Status e) err t"
  using put_path [OF assms] by (auto simp: put_def put_result_def unless_err_def split: option.splits)

lemma unmoved_follows: "on_course s0 st s \<Longrightarrow> unmoved s t \<Longrightarrow> follows s0 t"
  by (auto simp: on_course_def tracks_def follows_def unmoved_def)

lemma transitionExec_goes:
  assumes "on_course s0 st s"
  shows "wp (transitionExec rs c to') (goes s0 to') (follows s0) s"
proof -
  have move: "table_step (abs_state (exec s)) (abs_state e) \<and> Status e = to'" if m: "moved_exec s to' e" for e
  proof -
    obtain now where e: "exec_transition (exec s) to' now = Inr e" using m unfolding moved_exec_def by blast
    then have "canTransitionStatus (Status (exec s)) to'" using exec_transition_Inr_iff by blast
    then show ?thesis
      using exec_transition_fields(1) [OF e] statuses_transition [OF e] by (simp add: abs_state_def table_stepI)
  qed
  have tr: "tracks s0 s" using assms by (simp add: on_course_def)
  show ?thesis
    by (rule wp_mono [OF transitionExec_put])
       (use move put_goes [OF tr] unmoved_follows [OF assms] in blast)+
qed

lemma transitionStep_goes:
  assumes "on_course s0 st s"
    and "st = (if to' \<in> {StepStatusRunning, StepStatusSucceeded, StepStatusFailed}
      then StatusRunning else StatusCompensating)"
  shows "wp (transitionStep rs c i to') (goes s0 st) (follows s0) s"
proof -
  have move: "table_step (abs_state (exec s)) (abs_state e) \<and> Status e = st" if e: "moved_step s i to' e" for e
  proof -
    obtain now x where x: "i < length (Steps (exec s))" "step_transition (Steps (exec s) ! i) to' now = Inr x"
        "e = (exec s)\<lparr>Steps := (Steps (exec s))[i := x]\<rparr>" using e unfolding moved_step_def by blast
    have "canTransitionStepStatus (sStatus (Steps (exec s) ! i)) to'"
      using x(2) step_transition_Inr_iff by blast
    moreover have "Status (exec s) = st" using assms(1) by (simp add: on_course_def)
    ultimately show ?thesis
      using step_transition_fields(1) [OF x(2)] x(1,3) assms(2) by (simp add: abs_state_def table_stepI)
  qed
  have tr: "tracks s0 s" using assms(1) by (simp add: on_course_def)
  show ?thesis
    by (rule wp_mono [OF transitionStep_put])
       (use move put_goes [OF tr] unmoved_follows [OF assms(1)] in blast)+
qed

section \<open>The engine stays on course\<close>

lemma abs_state_simps [simp]:
  "abs_state (e\<lparr>CurrentStep := n\<rparr>) = abs_state e" "abs_state (e\<lparr>Error := m\<rparr>) = abs_state e"
  "abs_state (e\<lparr>Output := x\<rparr>) = abs_state e"
  "abs_state (e\<lparr>Steps := (Steps e)[i := (Steps e ! i)\<lparr>sError := m\<rparr>]\<rparr>) = abs_state e"
  "abs_state (e\<lparr>Steps := (Steps e)[i := (Steps e ! i)\<lparr>sOutput := x\<rparr>]\<rparr>) = abs_state e"
  by (simp_all add: abs_state_def statuses_same del: statuses_simps(3))

lemma on_course_exec [simp]:
  "abs_state e = abs_state (exec s) \<Longrightarrow> on_course s0 st (s\<lparr>exec := e\<rparr>) = on_course s0 st s"
  by (simp add: on_course_def tracks_def) (auto simp: abs_state_def)

lemma core_abs_state: "core e = core f \<Longrightarrow> abs_state e = abs_state f"
  using core_same by (fastforce simp: abs_state_def statuses_def)

lemma aside_no_save: "list_all aside tr \<Longrightarrow> saves_of tr = []"
  by (induction tr rule: saves_of.induct) auto

lemma idle_steady: "idle s t \<Longrightarrow> steady s t"
  using core_abs_state aside_no_save by (fastforce simp: idle_def steady_def)

lemma follows_steady: "follows s0 s \<Longrightarrow> steady s t \<Longrightarrow> follows s0 t"
  by (fastforce simp: follows_def steady_def)

definition taken_up :: "('d, 'u) machine \<Rightarrow> ('d, 'u) machine \<Rightarrow> bool" where
  "taken_up s0 s \<longleftrightarrow> tracks s0 s \<and> Valid (Status (exec s))"

lemma course_stable: "stable (follows s0) (on_course s0 st)" "stable (follows s0) (follows s0)"
  using idle_steady on_course_steady follows_steady on_course_follows unfolding stable_def by blast+

lemma taken_up_stable: "stable (follows s0) (taken_up s0)"
  using idle_steady steady_tracks tracks_follows core_same(1)
  unfolding stable_def taken_up_def idle_def by metis

lemma taken_up_course: "taken_up s0 s \<Longrightarrow> Status (exec s) = st \<Longrightarrow> on_course s0 st s"
  by (simp add: taken_up_def on_course_def)

lemma taken_up_again: "on_course s0 st s \<Longrightarrow> Valid st \<Longrightarrow> taken_up s0 s \<and> Status (exec s) = st"
  by (simp add: taken_up_def on_course_def)

lemma transitionExec_follows:
  assumes "on_course s0 st s"
  shows "wp (transitionExec rs c to') (\<lambda>_. follows s0) (follows s0) s"
    and "wp (transitionExec rs c to') (unless_err (\<lambda>_. follows s0) (follows s0)) (follows s0) s"
  by (rule wp_mono [OF transitionExec_goes [OF assms]];
      auto simp: unless_err_def on_course_follows split: option.splits)+

interpretation saga_course: engine_outline d "\<lambda>_. True" "\<lambda>_ _. True" "taken_up s0" "follows s0"
    "\<lambda>_ _. on_course s0 StatusRunning" "\<lambda>_ _. on_course s0 StatusRunning"
    "\<lambda>_ _. on_course s0 StatusRunning" "\<lambda>_ _. on_course s0 StatusRunning"
    "\<lambda>_ _. on_course s0 StatusRunning" "\<lambda>_ _. on_course s0 StatusCompensating"
    "\<lambda>_ _. on_course s0 StatusCompensating" "\<lambda>_ _ _. on_course s0 StatusCompensating"
    "\<lambda>_. follows s0" for d s0
proof (unfold_locales, goal_cases)
  case (7 c rs n s c' fin t)
  then show ?case by simp
next
  case (9 c y r at)
  then show ?case by simp
next
  case (10 s l c eid own ttl)
  show ?case
    using wp_mono [OF idle_wp [OF taken_up_stable idle_acquire 10]]
    by (auto simp: taken_up_def tracks_follows split: option.split)
next
  case (13 s rs c)
  show ?case
    using 13(1,2) taken_up_again
    by (intro wp_mono [OF transitionExec_goes [OF taken_up_course]])
       (auto simp: unless_err_def split: option.splits)
qed (auto simp: taken_up_def on_course_follows course_stable taken_up_stable not_a_save
      wp_seq wp_upd_step wp_upd_exec intro!: transitionStep_goes transitionExec_goes
      transitionExec_follows wp_mono [OF still_wp [OF steady_body.runStep_keeps]]
      still_wp steady_body.invokeCompensate_keeps intro: taken_up_course tracks_follows split: option.split)

text \<open>A path of table moves through good records is a run of the machine.\<close>

lemma good_path:
  assumes "legal_path table_step (abs_state e) (map abs_state es)" and "good d e"
    and "\<forall>x \<in> set es. good d x"
  shows "legal_path (saga_step (undoable d)) (abs_state e) (map abs_state es)"
  using assms by (induction es arbitrary: e) (auto intro: good_table_step)

lemma good_Valid: "good d e \<Longrightarrow> Valid (Status e)"
  by (metis Valid_iff good_def record_ok_def shape_ok.simps(8))

lemma resume_saga_run:
  assumes "good d (exec s)"
  shows "\<exists>tr. trace (snd (resume d c s)) = trace s @ tr
     \<and> legal_path (saga_step (undoable d)) (abs_state (exec s)) (map abs_state (saves_of tr))"
proof -
  have "wp (resume d c) (\<lambda>_. follows s) (follows s) s"
    by (rule saga_course.resume_outline)
      (simp_all add: taken_up_def tracks_refl good_Valid [OF assms] del: Valid_iff)
  moreover have "wp (resume d c) (\<lambda>_. saved_ok d (trace s)) (saved_ok d (trace s)) s"
    by (rule wp_mono [OF resume_wp [OF assms saved_ok_start]]) (simp_all add: resumed_def stopped_def)
  ultimately obtain tr where "trace (snd (resume d c s)) = trace s @ tr"
      "legal_path table_step (abs_state (exec s)) (map abs_state (saves_of tr))"
      "\<forall>x \<in> set (saves_of tr). good d x"
    unfolding wp_final follows_def saved_ok_def by force
  then show ?thesis using good_path [OF _ assms] by blast
qed

section \<open>The machine on the shapes of good records\<close>

definition shaped :: "('d, 'u) definition_ \<Rightarrow> saga_state \<Rightarrow> bool" where
  "shaped d p \<longleftrightarrow> shape_ok d (fst p) (snd p) \<and> length (snd p) = length (d_steps d)"

lemma good_shaped: "good d e \<Longrightarrow> shaped d (abs_state e)"
  using good_length [of d e] by (simp add: shaped_def abs_state_def good_def record_ok_def)

lemma undo_keeps_shape:
  assumes "undo_shape d ss" and "i < length ss" and "undoing st" and "touched (ss ! i)"
    and "Compensate (d_steps d ! i) \<noteq> None" and "\<forall>j < length ss. i < j \<longrightarrow> settled d j (ss ! j)"
    and "ss ! i = StepStatusSucceeded \<or> settled d i st"
  shows "undo_shape d (ss[i := st])"
proof -
  obtain k where k: "backward_at k ss" using assms(1) by (auto simp: undo_shape_def)
  have "i < k"
    using k assms(2,4) by (cases i k rule: linorder_cases)
      (auto simp: backward_at_def touched_def unfinished_def)
  moreover have "settled_from d (Suc i) ss" using assms(6) by (simp add: settled_from_def)
  ultimately show ?thesis
    using undo_update [OF k _ _ _ assms(3,5,7)] assms(1) by (auto simp: undo_shape_def)
qed

lemma running_shaped:
  "shaped d (StatusRunning, ss) \<longleftrightarrow> (\<exists>k. forward_at k ss) \<and> length ss = length (d_steps d)"
  by (auto simp: shaped_def forward_at_def)

lemma running_shape_step:
  assumes "forward_at k ss" and "saga_step u (StatusRunning, ss) q" and "length ss = length (d_steps d)"
  shows "shaped d q"
  using assms(2)
proof (cases rule: running_cases)
  case (Attempt i)
  have "i = k"
    using assms(1) Attempt by (cases i k rule: linorder_cases) (auto simp: forward_at_def unfinished_def)
  then show ?thesis
    using Attempt assms(3) forward_at_update [OF assms(1), of StepStatusRunning]
    by (auto simp: running_shaped unfinished_def)
next
  case (Succeed i)
  then have "i = k" using forward_running_at [OF assms(1)] by blast
  then have "forward_at (Suc k) (ss[i := StepStatusSucceeded])"
    using forward_at_advance [OF assms(1)] Succeed by simp
  then show ?thesis using Succeed assms(3) by (auto simp: running_shaped)
next
  case (Fail i)
  then have "i = k" using forward_running_at [OF assms(1)] by blast
  then have "forward_at k (ss[i := StepStatusFailed])"
    using forward_at_update [OF assms(1), of StepStatusFailed] Fail by (simp add: unfinished_def)
  then show ?thesis using Fail assms(3) by (auto simp: running_shaped)
next
  case Complete
  then show ?thesis using assms(3) by (simp add: shaped_def forward_at_def)
next
  case Give_up
  then have "k = 0" using assms(1) by (cases k) (auto simp: forward_at_def in_set_conv_nth)
  then show ?thesis using Give_up assms(1,3) by (simp add: shaped_def)
next
  case Turn_back
  have "0 < k" using Turn_back forward_failing assms(1) by (cases k) auto
  moreover have "k < length ss"
    using Turn_back assms(1) by (auto simp: forward_at_def in_set_conv_nth le_less)
  ultimately have "undo_shape d ss"
    using forward_at_backward [OF assms(1)] forward_at_reverse [OF assms(1)] by (auto simp: undo_shape_def)
  then show ?thesis using Turn_back assms(3) by (simp add: shaped_def)
qed

lemma compensating_shape_step:
  assumes "undo_shape d ss" and "saga_step (undoable d) (StatusCompensating, ss) q"
    and len: "length ss = length (d_steps d)"
  shows "shaped d q"
proof -
  have rev: "Compensate (d_steps d ! i) \<noteq> None \<and> (\<forall>j < length ss. i < j \<longrightarrow> settled d j (ss ! j))"
    if "i < length ss" "ss ! i = StepStatusCompensating" for i
    using assms(1) that by (auto simp: undo_shape_def in_reverse_def undoing_def)
  have all: "settled_from d 0 ss" if "\<forall>j < length ss. at_rest (undoable d) j (ss ! j)"
    using that len by (simp add: settled_from_def settled_at_rest)
  show ?thesis
    using assms(2)
  proof (cases rule: compensating_cases)
    case (Undo i)
    then show ?thesis
      using undo_keeps_shape [OF assms(1), of i StepStatusCompensating] len
      by (auto simp: shaped_def undoing_def touched_def undoable_def settled_at_rest)
  next
    case (Undone i)
    then show ?thesis
      using undo_keeps_shape [OF assms(1), of i StepStatusCompensated] len rev [of i]
      by (auto simp: shaped_def undoing_def touched_def settled_def)
  next
    case (Undo_failed i)
    then show ?thesis
      using undo_keeps_shape [OF assms(1), of i StepStatusCompensationFailed] len rev [of i]
      by (auto simp: shaped_def undoing_def touched_def settled_def)
  qed (use assms(1) len all in \<open>auto simp: shaped_def\<close>)
qed

lemma saga_step_shaped:
  assumes "shaped d p" and "saga_step (undoable d) p q"
  shows "shaped d q"
proof -
  obtain st ss where p: "p = (st, ss)" by (cases p)
  show ?thesis
  proof (cases st)
    case StatusPending
    then have "q = (StatusRunning, ss)" "forward_at 0 ss"
      using assms p by (auto elim: saga_step.cases simp: shaped_def forward_at_def unfinished_def)
    then show ?thesis using assms p by (auto simp: shaped_def)
  next
    case StatusRunning
    then obtain k where k: "forward_at k ss" "length ss = length (d_steps d)"
      using assms(1) p by (auto simp: running_shaped)
    then show ?thesis using assms(2) p StatusRunning by (blast intro: running_shape_step)
  next
    case StatusCompensating
    then show ?thesis using assms p compensating_shape_step [of d ss]
      by (simp add: shaped_def [of d "(StatusCompensating, ss)"])
  qed (use assms p in \<open>simp_all\<close>)
qed

lemma running_progress:
  assumes "forward_at k ss"
  shows "\<exists>q. saga_step u (StatusRunning, ss) q"
proof (cases "k < length ss")
  case True
  then consider "ss ! k = StepStatusPending" | "ss ! k = StepStatusRunning" | "ss ! k = StepStatusFailed"
    using assms by (auto simp: forward_at_def unfinished_def)
  then show ?thesis
  proof cases
    case 1
    then show ?thesis using Attempt [of k ss u] True assms by (auto simp: forward_at_def)
  next
    case 2
    then show ?thesis using Succeed [of k ss u] True by auto
  next
    case 3
    have mem: "ss ! k \<in> set ss" using True by simp
    show ?thesis
    proof (cases "StepStatusSucceeded \<in> set ss")
      case True
      then show ?thesis using Turn_back [of ss u] mem 3 by auto
    next
      case False
      moreover have "ss \<noteq> []" using True by auto
      ultimately show ?thesis using Give_up [of ss u] by auto
    qed
  qed
next
  case False
  then have "\<forall>st \<in> set ss. st = StepStatusSucceeded"
    using assms by (auto simp: forward_at_def in_set_conv_nth)
  then show ?thesis using Complete [of ss u] by auto
qed

lemma compensating_progress: "\<exists>q. saga_step u (StatusCompensating, ss) q"
proof (cases "\<exists>i < length ss. \<not> at_rest u i (ss ! i)")
  case True
  let ?busy = "\<lambda>i. i < length ss \<and> \<not> at_rest u i (ss ! i)"
  obtain h where "?busy h" using True by blast
  then have "\<exists>i. ?busy i \<and> (\<forall>j. ?busy j \<longrightarrow> j \<le> i)"
    by (rule Nat.ex_has_greatest_nat [where b = "length ss"]) auto
  then obtain i where i: "?busy i" "\<forall>j. ?busy j \<longrightarrow> j \<le> i" by blast
  show ?thesis
  proof (cases "ss ! i = StepStatusCompensating")
    case True
    then show ?thesis using Undone [of i ss u] i(1) by blast
  next
    case False
    then have "ss ! i = StepStatusSucceeded" "u ! i" using i(1) by (auto simp: at_rest_def)
    then show ?thesis using Undo [of i ss u] i by (metis not_le)
  qed
next
  case False
  then show ?thesis using All_undone [of ss u] Some_failed [of ss u] by blast
qed

lemma shaped_progress:
  assumes "shaped d p" and "\<not> IsTerminal (fst p)"
  shows "\<exists>q. saga_step (undoable d) p q"
proof -
  obtain st ss where p: "p = (st, ss)" by (cases p)
  show ?thesis
  proof (cases st)
    case StatusPending
    then show ?thesis using p Start by blast
  next
    case StatusRunning
    then obtain k where "forward_at k ss" using assms(1) p by (auto simp: running_shaped)
    then show ?thesis using p StatusRunning running_progress by blast
  next
    case StatusCompensating
    then show ?thesis using p compensating_progress by blast
  qed (use assms p in \<open>simp_all add: shaped_def\<close>)
qed

text \<open>
  So the machine on these shapes is a lifecycle like the two status tables: no dead end, no way
  back, a bounded number of steps.
\<close>

interpretation saga_life: lifecycle "\<lambda>p q. shaped d p \<and> saga_step (undoable d) p q"
    "\<lambda>p. IsTerminal (fst p)" "shaped d" saga_rank for d
proof unfold_locales
  fix p q :: saga_state
  show "\<not> (shaped d p \<and> saga_step (undoable d) p q)" if "IsTerminal (fst p)"
    using that by (cases p) auto
  show "shaped d p \<and> shaped d q" if "shaped d p \<and> saga_step (undoable d) p q"
    using that saga_step_shaped by blast
  show "saga_rank q < saga_rank p" if "shaped d p \<and> saga_step (undoable d) p q"
    using that saga_step_table table_step_rank by blast
  show "\<exists>q. shaped d p \<and> saga_step (undoable d) p q" if "shaped d p" "\<not> IsTerminal (fst p)"
    using that shaped_progress by blast
qed

lemma legal_path_mono:
  "legal_path can s ts \<Longrightarrow> (\<And>x y. can x y \<Longrightarrow> can' x y) \<Longrightarrow> legal_path can' s ts"
  by (induction ts arbitrary: s) auto

section \<open>Execute refines the machine\<close>

text \<open>What the records of a whole run are: none, or the new one and a path from it.\<close>

definition run_of :: "(saga_state \<Rightarrow> saga_state \<Rightarrow> bool) \<Rightarrow> nat \<Rightarrow> 'd execution list \<Rightarrow> bool" where
  "run_of can n es = (case es of
      [] \<Rightarrow> True
    | e # es \<Rightarrow> abs_state e = saga_start n \<and> legal_path can (abs_state e) (map abs_state es))"

lemma abs_state_new: "abs_state (new_execution d i input now) = saga_start (length (d_steps d))"
  by (simp add: abs_state_def saga_start_def new_execution_def statuses_def new_step_execution_def
      o_def map_replicate_const)

definition recorded :: "('d, 'u) machine \<Rightarrow> nat \<Rightarrow> ('d, 'u) machine \<Rightarrow> bool" where
  "recorded s n t \<longleftrightarrow> (\<exists>tr. trace t = trace s @ tr \<and> run_of table_step n (saves_of tr))"

lemma put_recorded:
  assumes "put s1 (exec s1) t" and "trace s1 = trace s" and "abs_state (exec s1) = saga_start n"
  shows "recorded s n t"
  using assms by (auto simp: put_def recorded_def run_of_def)

lemma follows_recorded:
  assumes "put_result s1 (exec s1) None t" and "trace s1 = trace s" and "abs_state (exec s1) = saga_start n"
    and "follows t u"
  shows "recorded s n u"
proof -
  obtain tr where tr: "trace t = trace s @ tr" "saves_of tr = [exec s1]" "exec t = exec s1"
    using assms(1,2) by (auto simp: put_result_def)
  obtain tr' where "trace u = trace t @ tr'"
      "legal_path table_step (abs_state (exec t)) (map abs_state (saves_of tr'))"
    using assms(4) by (auto simp: follows_def)
  then have "trace u = trace s @ (tr @ tr') \<and> run_of table_step n (saves_of (tr @ tr'))"
    using tr assms(3) by (simp add: run_of_def)
  then show ?thesis unfolding recorded_def by blast
qed

lemma Execute_recorded:
  "recorded s (length (d_steps d)) (snd (Execute d c input s))"
proof -
  let ?d = "snd (Freeze d)" and ?n = "length (d_steps d)"
  have steps: "d_steps ?d = d_steps d" by (simp add: Freeze_def')
  let ?P = "recorded s ?n"
  have start: "?P t" if "trace t = trace s" for t
    using that by (auto simp: recorded_def run_of_def)
  have own: "wp (in_world m) (\<lambda>_ t. trace t = trace s) ?P t" if "trace t = trace s" for t m
    unfolding wp_in_world by (rule wp_callback) (use that start in simp_all)
  have run: "wp (case err of Some x \<Rightarrow> ret (Some x, ?d)
        | None \<Rightarrow> bind_go (resume ?d c) (\<lambda>err. ret (err, ?d))) (\<lambda>_. ?P) ?P t"
    if "put_result s1 (exec s1) err t" "trace s1 = trace s" "exec s1 = new_execution ?d i input now"
    for err t s1 i now
  proof (cases err)
    case None
    have "taken_up t t"
      using that(1,3) by (simp add: taken_up_def tracks_refl put_result_def new_execution_def)
    then have "wp (resume ?d c) (\<lambda>_. follows t) (follows t) t"
      by (intro saga_course.resume_outline) simp_all
    moreover have "?P u" if "follows t u" for u
      using follows_recorded [OF _ \<open>trace s1 = trace s\<close> _ that, of ?n] None steps
        \<open>put_result s1 (exec s1) err t\<close> \<open>exec s1 = _\<close> abs_state_new [of ?d] by simp
    ultimately show ?thesis using None by (auto simp: wp_ret wp_bind elim!: wp_mono)
  next
    case (Some x)
    then show ?thesis
      using put_recorded [OF put_result_put [OF that(1)] that(2), of ?n] that(3) abs_state_new [of ?d] steps
      by (simp add: wp_ret)
  qed
  have "wp (bind_go (store_Save ?d c) (\<lambda>err. case err of Some x \<Rightarrow> ret (Some x, ?d)
        | None \<Rightarrow> bind_go (resume ?d c) (\<lambda>err. ret (err, ?d)))) (\<lambda>_. ?P) ?P s1"
    if "trace s1 = trace s" "exec s1 = new_execution ?d i input now" for s1 i now
    unfolding wp_bind [of "store_Save ?d c"]
    by (rule wp_mono [OF store_Save_put])
       (use that run put_recorded [OF _ that(1)] abs_state_new [of ?d] steps in auto)
  then have "wp (Execute d c input) (\<lambda>_. ?P) ?P s"
    unfolding Execute_def Let_def
    by (auto simp: wp_bind [of "in_world m" for m] wp_seq [of "upd_exec f" for f] wp_upd_exec
        intro!: wp_mono [OF own])
  then show ?thesis by (simp only: wp_final)
qed

lemma Execute_saves_good: "\<exists>tr. trace (snd (Execute d c input s)) = trace s @ tr
    \<and> (\<forall>e \<in> set (saves_of tr). good (snd (Freeze d)) e)"
proof -
  have "saved_ok (snd (Freeze d)) (trace s) (snd (Execute d c input s))"
    by (rule wp_final_both, rule wp_mono [OF Execute_wp [OF saved_ok_start Freeze_def']])
       (simp_all add: executed_def)
  then show ?thesis by (auto simp: saved_ok_def)
qed

text \<open>
  C2: \<open>Execute\<close> refines the abstract machine. Whatever the callbacks, the store and the world do and
  however the call ends, the records it hands to the store are a run of \<open>saga_step\<close> from the start
  state: the first is the new execution, and each of the others is one step of the machine after
  the one before.
\<close>

theorem execute_refines_saga:
  "\<exists>tr. trace (snd (Execute d c input s)) = trace s @ tr
     \<and> run_of (saga_step (undoable d)) (length (d_steps d)) (saves_of tr)"
proof -
  obtain tr where tr: "trace (snd (Execute d c input s)) = trace s @ tr"
      "run_of table_step (length (d_steps d)) (saves_of tr)"
    using Execute_recorded by (fastforce simp: recorded_def)
  moreover have "\<forall>e \<in> set (saves_of tr). good (snd (Freeze d)) e"
    using Execute_saves_good [of d c input s] tr(1) by auto
  moreover have "undoable (snd (Freeze d)) = undoable d" by (simp add: undoable_def Freeze_def')
  ultimately show ?thesis
    using good_path [of _ _ "snd (Freeze d)"] by (fastforce simp: run_of_def split: list.splits)
qed

text \<open>
  C16: the same for \<open>resume\<close>: the records stored by a resumed execution continue the run of the
  machine from the record it was resumed from.
\<close>

theorem resume_refines_saga:
  assumes "good d (exec s)"
  shows "\<exists>tr. trace (snd (resume d c s)) = trace s @ tr
     \<and> legal_path (saga_step (undoable d)) (abs_state (exec s)) (map abs_state (saves_of tr))"
  using assms by (rule resume_saga_run)

theorem resume_refines_saga_witness:
  "\<exists>tr. trace (snd (resume (order_saga None None) (Root 0) (order_start (order_saga None None))))
       = trace (order_start (order_saga None None)) @ tr
     \<and> legal_path (saga_step (undoable (order_saga None None)))
         (abs_state (exec (order_start (order_saga None None)))) (map abs_state (saves_of tr))"
  by (rule resume_refines_saga) (simp add: order_start_def good_new)

text \<open>
  C22: a saga with \<open>n\<close> steps is stored at most \<open>4 + 4n\<close> times by one \<open>Execute\<close>, however often steps
  are retried.
\<close>

theorem execute_saves_bounded:
  "\<exists>tr. trace (snd (Execute d c input s)) = trace s @ tr
     \<and> length (saves_of tr) \<le> 4 + 4 * length (d_steps d)"
proof -
  obtain tr where tr: "trace (snd (Execute d c input s)) = trace s @ tr"
      "run_of table_step (length (d_steps d)) (saves_of tr)"
    using Execute_recorded by (fastforce simp: recorded_def)
  then have "length (saves_of tr) \<le> 4 + 4 * length (d_steps d)"
    using table_path_bound saga_start_rank [of "length (d_steps d)"]
    by (fastforce simp: run_of_def split: list.splits)
  then show ?thesis using tr(1) by blast
qed



end
