(* ===== verification/Simulation.thy ===== *)
theory Simulation
  imports Prelude
begin

text \<open>
  Comparing two runs. \<open>sim h R m m'\<close>: run on a state and on its image under \<open>h\<close>, the computations
  \<open>m\<close> and \<open>m'\<close> end in the same way, with results related by \<open>R\<close> and states related by \<open>h\<close> again.
  The rules, one for each operator on computations, are collected in \<open>sim_rules\<close>.
\<close>

fun outcomes :: "('a \<Rightarrow> 'b \<Rightarrow> bool) \<Rightarrow> 'a outcome \<Rightarrow> 'b outcome \<Rightarrow> bool" where
  "outcomes R (Ret a) (Ret b) = R a b"
| "outcomes R (Panic p) (Panic q) = (p = q)"
| "outcomes R _ _ = False"

definition sim :: "('s \<Rightarrow> 't) \<Rightarrow> ('a \<Rightarrow> 'b \<Rightarrow> bool) \<Rightarrow> ('s, 'a) go \<Rightarrow> ('t, 'b) go \<Rightarrow> bool" where
  "sim h R m m' \<longleftrightarrow>
     (\<forall>s. outcomes R (fst (m s)) (fst (m' (h s))) \<and> snd (m' (h s)) = h (snd (m s)))"

lemma simI:
  assumes "\<And>s r t. m s = (r, t) \<Longrightarrow> \<exists>r'. m' (h s) = (r', h t) \<and> outcomes R r r'"
  shows "sim h R m m'"
  unfolding sim_def
proof
  fix s
  obtain r t where "m s = (r, t)" by (cases "m s")
  with assms [OF this] show "outcomes R (fst (m s)) (fst (m' (h s))) \<and> snd (m' (h s)) = h (snd (m s))"
    by auto
qed

lemma simE:
  assumes "sim h R m m'" and "m s = (r, t)"
  obtains r' where "m' (h s) = (r', h t)" and "outcomes R r r'"
proof
  show "m' (h s) = (fst (m' (h s)), h t)" "outcomes R r (fst (m' (h s)))"
    using assms by (auto simp: sim_def dest!: spec [of _ s] intro: prod_eqI)
qed

lemma outcomes_cases:
  assumes "outcomes R r r'"
  obtains (ret) a b where "r = Ret a" "r' = Ret b" "R a b" | (panic) p where "r = Panic p" "r' = Panic p"
  using assms by (cases r; cases r') auto

lemma sim_ret: "R a b \<Longrightarrow> sim h R (ret a) (ret b)"
  by (simp add: sim_def ret_def)

lemma sim_panic: "sim h R (panic p) (panic p)"
  by (simp add: sim_def panic_def)

lemma sim_gets: "(\<And>s. R (f s) (g (h s))) \<Longrightarrow> sim h R (gets f) (gets g)"
  by (simp add: sim_def gets_def)

lemma sim_modify: "(\<And>s. h (f s) = g (h s)) \<Longrightarrow> sim h (=) (modify f) (modify g)"
  by (simp add: sim_def modify_def)

lemma sim_bind:
  assumes "sim h R m m'" and "\<And>a b. R a b \<Longrightarrow> sim h Q (f a) (f' b)"
  shows "sim h Q (bind_go m f) (bind_go m' f')"
proof (rule simI)
  fix s r t assume run: "bind_go m f s = (r, t)"
  obtain r1 t1 where m: "m s = (r1, t1)" by (cases "m s")
  obtain r2 where m': "m' (h s) = (r2, h t1)" "outcomes R r1 r2" using simE [OF assms(1) m] .
  from m'(2) show "\<exists>r'. bind_go m' f' (h s) = (r', h t) \<and> outcomes Q r r'"
  proof (cases rule: outcomes_cases)
    case (ret a b)
    then have "f a t1 = (r, t)" using run m by (simp add: bind_go_def)
    then show ?thesis using simE [OF assms(2) [OF ret(3)]] m'(1) ret(2) by (fastforce simp: bind_go_def)
  qed (use run m m'(1) in \<open>auto simp: bind_go_def\<close>)
qed

lemma sim_seq: "sim h R m m' \<Longrightarrow> sim h Q k k' \<Longrightarrow> sim h Q (seq_go m k) (seq_go m' k')"
  unfolding seq_go_def by (rule sim_bind)

lemma sim_deferred:
  assumes "sim h R m m'" and "sim h Q d d'"
  shows "sim h R (deferred d m) (deferred d' m')"
proof (rule simI)
  fix s r t assume run: "deferred d m s = (r, t)"
  obtain r1 t1 where m: "m s = (r1, t1)" by (cases "m s")
  obtain r2 where m': "m' (h s) = (r2, h t1)" "outcomes R r1 r2" using simE [OF assms(1) m] .
  obtain q1 u1 where d: "d t1 = (q1, u1)" by (cases "d t1")
  obtain q2 where d': "d' (h t1) = (q2, h u1)" "outcomes Q q1 q2" using simE [OF assms(2) d] .
  from d'(2) show "\<exists>r'. deferred d' m' (h s) = (r', h t) \<and> outcomes R r r'"
    by (cases rule: outcomes_cases) (use run m m' d d'(1) in \<open>auto simp: deferred_def\<close>)
qed

lemma sim_if:
  "b = b' \<Longrightarrow> (b \<Longrightarrow> sim h R m m') \<Longrightarrow> (\<not> b \<Longrightarrow> sim h R k k') \<Longrightarrow>
   sim h R (if b then m else k) (if b' then m' else k')"
  by simp

lemma sim_option:
  "x = x' \<Longrightarrow> (x = None \<Longrightarrow> sim h R m m') \<Longrightarrow> (\<And>a. x = Some a \<Longrightarrow> sim h R (f a) (f' a)) \<Longrightarrow>
   sim h R (case x of None \<Rightarrow> m | Some a \<Rightarrow> f a) (case x' of None \<Rightarrow> m' | Some a \<Rightarrow> f' a)"
  by (simp split: option.split)

lemma sim_prod:
  "x = x' \<Longrightarrow> (\<And>a b. x = (a, b) \<Longrightarrow> sim h R (f a b) (f' a b)) \<Longrightarrow>
   sim h R (case x of (a, b) \<Rightarrow> f a b) (case x' of (a, b) \<Rightarrow> f' a b)"
  by (auto split: prod.split)

lemma sim_sum:
  "x = x' \<Longrightarrow> (\<And>a. x = Inl a \<Longrightarrow> sim h R (f a) (f' a)) \<Longrightarrow> (\<And>b. x = Inr b \<Longrightarrow> sim h R (g b) (g' b)) \<Longrightarrow>
   sim h R (case x of Inl a \<Rightarrow> f a | Inr b \<Rightarrow> g b) (case x' of Inl a \<Rightarrow> f' a | Inr b \<Rightarrow> g' b)"
  by (auto split: sum.split)

text \<open>A part of the state that \<open>h\<close> does not touch, run by the same code on both sides.\<close>

lemma sim_zoom:
  assumes "\<And>s. get' (h s) = get s" and "\<And>s t. put' t (h s) = h (put t s)"
    and "\<And>w r t. m w = (r, t) \<Longrightarrow> \<exists>r'. m' w = (r', t) \<and> outcomes R r r'"
  shows "sim h R (zoom get put m) (zoom get' put' m')"
proof (rule simI)
  fix s r t assume run: "zoom get put m s = (r, t)"
  obtain w where w: "m (get s) = (r, w)" "t = put w s"
    using run by (auto simp: zoom_def split: prod.splits)
  obtain r' where "m' (get s) = (r', w)" "outcomes R r r'" using assms(3) [OF w(1)] by blast
  then show "\<exists>r'. zoom get' put' m' (h s) = (r', h t) \<and> outcomes R r r'"
    using w(2) assms(1,2) by (auto simp: zoom_def)
qed

lemma outcomes_refl: "outcomes (=) r r"
  by (cases r) simp_all

text \<open>An extra computation on the left that \<open>h\<close> hides.\<close>

definition hidden :: "('s \<Rightarrow> 't) \<Rightarrow> ('s, 'a) go \<Rightarrow> bool" where
  "hidden h m \<longleftrightarrow> (\<forall>s. \<exists>a t. m s = (Ret a, t) \<and> h t = h s)"

lemma hidden_sim: "hidden h m \<Longrightarrow> sim h (\<lambda>_ _. True) m (ret ())"
  unfolding sim_def hidden_def ret_def by (metis fst_conv outcomes.simps(1) snd_conv)

lemma hidden_unit: "hidden h m \<Longrightarrow> sim h (=) (m :: ('s, unit) go) (ret ())"
  unfolding sim_def hidden_def ret_def by (metis (full_types) fst_conv old.unit.exhaust outcomes.simps(1) snd_conv)

lemma hidden_ret: "hidden h (ret a)"
  by (simp add: hidden_def ret_def)

lemma hidden_bind: "hidden h m \<Longrightarrow> (\<And>a. hidden h (f a)) \<Longrightarrow> hidden h (bind_go m f)"
  unfolding hidden_def bind_go_def by (auto split: prod.split) (metis (no_types, lifting) outcome.simps(5) prod.inject)

lemma hidden_seq: "hidden h m \<Longrightarrow> hidden h k \<Longrightarrow> hidden h (seq_go m k)"
  unfolding seq_go_def by (rule hidden_bind)

lemma hidden_modify: "(\<And>s. h (f s) = h s) \<Longrightarrow> hidden h (modify f)"
  by (simp add: hidden_def modify_def)

lemma sim_ret_left: "hidden h m \<Longrightarrow> sim h R k k' \<Longrightarrow> sim h R (seq_go m k) k'"
  unfolding seq_go_def
  using sim_bind [OF hidden_sim, of h m R "\<lambda>_. k" "\<lambda>_. k'"] by (simp add: bind_go_def ret_def)

lemmas sim_rules = sim_panic sim_seq sim_deferred sim_if sim_option sim_sum

end
