(* ===== verification/Observability.thy ===== *)
theory Observability
  imports Simulation Engine_Calls
begin

text \<open>
  Observers do not matter. A run of a definition with a publisher, a logger, metrics and a tracer is
  compared with the run of the same definition without them: if the observers are \<open>harmless\<close> (they
  may panic only where the engine recovers, they do not change the world the saga runs in, and a
  tracer adds to the context only values under its own keys, which no callback reads), both runs
  end in the same way, with the same record and the same calls.
\<close>

section \<open>Contexts without the tracer's values\<close>

fun hide :: "string set \<Rightarrow> ctx \<Rightarrow> ctx" where
  "hide K (Root n) = Root n"
| "hide K (WithValue c k v) =
     (case k of
        OperationIDKey \<Rightarrow> WithValue (hide K c) k v
      | ForeignKey n \<Rightarrow> if n \<in> K then hide K c else WithValue (hide K c) k v)"
| "hide K (WithDeadline c t e) = WithDeadline (hide K c) t e"
| "hide K (WithoutCancel c) = WithoutCancel (hide K c)"

definition alike :: "string set \<Rightarrow> ctx \<Rightarrow> ctx \<Rightarrow> bool" where
  "alike K c c' \<longleftrightarrow> hide K c = hide K c'"

lemma hide_ends [simp]: "ctx_ends ca (hide K c) = ctx_ends ca c"
  by (induction c) (auto split: ctx_key.split)

lemma hide_OperationID [simp]: "OperationID (hide K c) = OperationID c"
proof -
  have "ctx_Value (hide K c) OperationIDKey = ctx_Value c OperationIDKey"
    by (induction c) (auto split: ctx_key.split)
  then show ?thesis by (simp add: OperationID_def)
qed

lemma alike_refl [simp]: "alike K c c"
  by (simp add: alike_def)

lemma alike_same:
  assumes "alike K c c'"
  shows "ctx_ends ca c' = ctx_ends ca c" "OperationID c' = OperationID c"
    "alike K (WithDeadline c t e) (WithDeadline c' t e)" "alike K (WithoutCancel c) (WithoutCancel c')"
    "alike K (withOperationID c i) (withOperationID c' i)"
proof -
  have h: "hide K c = hide K c'" using assms by (simp add: alike_def)
  show "ctx_ends ca c' = ctx_ends ca c" by (metis h hide_ends)
  show "OperationID c' = OperationID c" by (metis h hide_OperationID)
qed (use assms in \<open>simp_all add: alike_def withOperationID_def\<close>)

lemma alike_ended: "alike K c c' \<Longrightarrow> ended w c' = ended w c"
  by (simp add: ended_def alike_same(1))

section \<open>Definitions with and without observers\<close>

definition unobserved :: "('d, 'u) definition_ \<Rightarrow> ('d, 'u) definition_" where
  "unobserved d = d\<lparr>d_publisher := None, d_logger := None, d_metrics := None, d_tracer := None\<rparr>"

lemma unobserved_simps [simp]:
  "d_name (unobserved d) = d_name d" "d_steps (unobserved d) = d_steps d"
  "d_store (unobserved d) = d_store d" "d_retryPolicy (unobserved d) = d_retryPolicy d"
  "d_timeout (unobserved d) = d_timeout d" "d_lockTTL (unobserved d) = d_lockTTL d"
  "d_publisher (unobserved d) = None" "d_logger (unobserved d) = None"
  "d_metrics (unobserved d) = None" "d_tracer (unobserved d) = None"
  by (simp_all add: unobserved_def)

definition blind :: "string set \<Rightarrow> (ctx \<Rightarrow> 'x) \<Rightarrow> bool" where
  "blind K f \<longleftrightarrow> (\<forall>c. f (hide K c) = f c)"

lemma blind_alike: "blind K f \<Longrightarrow> alike K c c' \<Longrightarrow> f c' = f c"
  by (metis alike_def blind_def)

text \<open>The callbacks that get a context do not read the values under the keys \<open>K\<close>.\<close>

definition blind_callbacks :: "string set \<Rightarrow> ('d, 'u) definition_ \<Rightarrow> bool" where
  "blind_callbacks K d \<longleftrightarrow> blind K (Save (d_store d))
     \<and> (\<forall>l. as_Locker (d_store d) = Some l \<longrightarrow> blind K (Acquire l) \<and> blind K (Release l))
     \<and> (\<forall>st \<in> set (d_steps d). (\<forall>f. Action st = Some f \<longrightarrow> blind K f)
          \<and> (\<forall>f. Compensate st = Some f \<longrightarrow> blind K f))"

definition harmless_tracer :: "string set \<Rightarrow> ('d, 'u) tracer_ops \<Rightarrow> bool" where
  "harmless_tracer K t \<longleftrightarrow> (\<forall>c n w. \<exists>c' fin. StartSpan t c n w = (Ret (c', fin), w)
     \<and> alike K c c' \<and> (\<forall>w'. fin w' = (Ret (), w')))"

definition harmless :: "string set \<Rightarrow> ('d, 'u) definition_ \<Rightarrow> bool" where
  "harmless K d \<longleftrightarrow>
     (\<forall>p. d_publisher d = Some p \<longrightarrow> (\<forall>c ev w. snd (Publish p c ev w) = w))
     \<and> (\<forall>l. d_logger d = Some l \<longrightarrow> (\<forall>c lv m a w. Log l c lv m a w = (Ret (), w)))
     \<and> (\<forall>m. d_metrics d = Some m \<longrightarrow> (\<forall>n ls w. IncCounter m n ls w = (Ret (), w))
          \<and> (\<forall>n t ls w. ObserveDuration m n t ls w = (Ret (), w)))
     \<and> (\<forall>t. d_tracer d = Some t \<longrightarrow> harmless_tracer K t)
     \<and> blind_callbacks K d"

text \<open>The machine without what observers have seen, and a call's state without observers.\<close>

definition unseen :: "('d, 'u) machine \<Rightarrow> ('d, 'u) machine" where
  "unseen s = s\<lparr>trace := filter (\<lambda>x. \<not> is_observer x) (trace s)\<rparr>"

definition bare :: "('d, 'u) run_state \<Rightarrow> ('d, 'u) run_state" where
  "bare rs = rs\<lparr>rs_def := unobserved (rs_def rs)\<rparr>"

lemma bare_simps [simp]:
  "rs_def (bare rs) = unobserved (rs_def rs)" "locker (bare rs) = locker rs"
  "lockOwner (bare rs) = lockOwner rs"
  by (simp_all add: bare_def)

definition held_by :: "('d, 'u) run_state \<Rightarrow> bool" where
  "held_by rs \<longleftrightarrow> locker rs = None \<or> locker rs = as_Locker (d_store (rs_def rs))"

section \<open>The operators\<close>

lemma unseen_simps [simp]:
  "exec (unseen s) = exec s" "world (unseen s) = world s"
  "unseen (s\<lparr>exec := e\<rparr>) = (unseen s)\<lparr>exec := e\<rparr>" "unseen (s\<lparr>world := w\<rparr>) = (unseen s)\<lparr>world := w\<rparr>"
  by (simp_all add: unseen_def)

lemma sim_gets_exec: "sim unseen (=) (gets exec) (gets exec)"
  "sim unseen (=) (gets (\<lambda>s. ID (exec s))) (gets (\<lambda>s. ID (exec s)))"
  by (rule sim_gets; simp)+

lemma sim_emit: "\<not> is_observer x \<Longrightarrow> sim unseen (=) (emit x) (emit x)"
  unfolding emit_def by (rule sim_modify) (simp add: unseen_def)

lemma hidden_emit: "is_observer x \<Longrightarrow> hidden unseen (emit x)"
  unfolding emit_def by (rule hidden_modify) (simp add: unseen_def)

lemma sim_upd_exec: "sim unseen (=) (upd_exec f) (upd_exec f)"
  unfolding upd_exec_def by (rule sim_modify) simp

lemma sim_upd_step: "sim unseen (=) (upd_step i f) (upd_step i f)"
  unfolding upd_step_def by (rule sim_upd_exec)

lemma sim_set_CurrentStep: "sim unseen (=) (set_CurrentStep n) (set_CurrentStep n)"
  unfolding set_CurrentStep_def by (rule sim_upd_exec)

lemma sim_bind_eq:
  "sim h (=) m m' \<Longrightarrow> (\<And>a. sim h Q (f a) (f' a)) \<Longrightarrow> sim h Q (bind_go m f) (bind_go m' f')"
  by (rule sim_bind [where R = "(=)"]) auto

lemma sim_seq_eq: "sim h (=) m m' \<Longrightarrow> sim h Q k k' \<Longrightarrow> sim h Q (seq_go m k) (seq_go m' k')"
  by (rule sim_seq)

lemma sim_step_at: "sim unseen (=) (step_at i) (step_at i)"
  unfolding step_at_def by (intro sim_bind_eq sim_gets_exec sim_if sim_ret sim_panic refl)

lemma sim_in_world_rel:
  "(\<And>w r t. m w = (r, t) \<Longrightarrow> \<exists>r'. m' w = (r', t) \<and> outcomes R r r') \<Longrightarrow>
   sim unseen R (in_world m) (in_world m')"
  unfolding in_world_def by (rule sim_zoom) simp_all

lemma sim_in_world: "sim unseen (=) (in_world m) (in_world m)"
  by (rule sim_in_world_rel) (simp add: outcomes_refl)

lemma sim_in_world_eq: "m' = m \<Longrightarrow> sim unseen (=) (in_world m) (in_world m')"
  by (simp add: sim_in_world)

lemma hidden_in_world:
  fixes m :: "(('a, 'b) world, 'c) go"
  assumes "\<And>w. \<exists>a. m w = (Ret a, w)"
  shows "hidden unseen (in_world m)"
  unfolding hidden_def
proof
  fix s :: "('a, 'b) machine"
  obtain a where "m (world s) = (Ret a, world s)" using assms by blast
  then have "in_world m s = (Ret a, s)" by (simp add: in_world_def zoom_def)
  then show "\<exists>a t. in_world m s = (Ret a, t) \<and> unseen t = unseen s" by blast
qed

lemma hidden_recovered:
  fixes m :: "(('a, 'b) world, 'c) go"
  assumes "\<And>w. snd (m w) = w"
  shows "hidden unseen (recovered (in_world m))"
  unfolding hidden_def
proof
  fix s :: "('a, 'b) machine"
  have "snd (in_world m s) = s"
    using assms [of "world s"] by (cases "m (world s)") (simp add: in_world_def zoom_def)
  then show "\<exists>a t. recovered (in_world m) s = (Ret a, t) \<and> unseen t = unseen s"
    by (simp add: recovered_def)
qed

lemma sim_errors_New: "sim unseen (=) (errors_New m) (errors_New m)"
  unfolding errors_New_def by (intro sim_bind_eq sim_in_world sim_ret refl)

lemmas sim_engine = sim_panic sim_deferred sim_if sim_option sim_sum sim_bind_eq sim_seq_eq sim_in_world sim_gets_exec sim_upd_exec sim_upd_step
  sim_set_CurrentStep sim_step_at sim_errors_New sim_ret

section \<open>Observers leave no trace\<close>

lemma publish_hidden: "harmless K (rs_def rs) \<Longrightarrow> hidden unseen (publish rs c ev)"
  unfolding publish_def
  by (auto simp: harmless_def intro!: hidden_seq hidden_emit hidden_recovered hidden_ret split: option.split)

lemma logEvent_hidden: "harmless K (rs_def rs) \<Longrightarrow> hidden unseen (logEvent rs c ev)"
  unfolding logEvent_def Let_def
  by (auto simp: harmless_def intro!: hidden_seq hidden_emit hidden_in_world hidden_ret split: option.split)

lemma incEventCounter_hidden: "harmless K (rs_def rs) \<Longrightarrow> hidden unseen (incEventCounter rs ev)"
  unfolding incEventCounter_def Let_def
  by (auto simp: harmless_def intro!: hidden_seq hidden_emit hidden_in_world hidden_ret split: option.split)

lemma observeDuration_hidden: "harmless K (rs_def rs) \<Longrightarrow> hidden unseen (observeDuration rs n t ls)"
  unfolding observeDuration_def
  by (auto simp: harmless_def intro!: hidden_seq hidden_emit hidden_in_world hidden_ret split: option.split)

lemma bare_observers:
  "publish (bare rs) c ev = ret ()" "logEvent (bare rs) c ev = ret ()"
  "incEventCounter (bare rs) ev = ret ()" "observeDuration (bare rs) n t ls = ret ()"
  "startSpan (bare rs) c n = ret (c, ret ())"
  by (simp_all add: publish_def logEvent_def incEventCounter_def observeDuration_def startSpan_def)

lemma sim_observers:
  assumes "harmless K (rs_def rs)"
  shows "sim unseen (=) (publish rs c ev) (publish (bare rs) c' ev)"
    "sim unseen (=) (logEvent rs c ev) (logEvent (bare rs) c' ev)"
    "sim unseen (=) (incEventCounter rs ev) (incEventCounter (bare rs) ev)"
    "sim unseen (=) (observeDuration rs n t ls) (observeDuration (bare rs) n t ls)"
  unfolding bare_observers
  using assms publish_hidden logEvent_hidden incEventCounter_hidden observeDuration_hidden
  by (blast intro: hidden_unit)+

lemma sim_notifyExec:
  assumes "harmless K (rs_def rs)"
  shows "sim unseen (=) (notifyExec rs c to') (notifyExec (bare rs) c' to')"
  unfolding notifyExec_def Let_def
  by (intro sim_engine sim_observers [OF assms] refl)
     (auto split: option.split bool.split intro!: sim_engine sim_observers [OF assms])

lemma sim_notifyStep:
  assumes "harmless K (rs_def rs)"
  shows "sim unseen (=) (notifyStep rs c i to') (notifyStep (bare rs) c' i to')"
  unfolding notifyStep_def publishAndLog_def Let_def
  by (intro sim_engine sim_observers [OF assms] refl)

text \<open>A call under a span, with and without the tracer.\<close>

lemma startSpan_harmless:
  assumes "harmless K (rs_def rs)"
  obtains (none) "startSpan rs c n = ret (c, ret ())"
    | (span) t where "d_tracer (rs_def rs) = Some t" "harmless_tracer K t"
  using assms by (cases "d_tracer (rs_def rs)") (auto simp: startSpan_def harmless_def)

definition quiet_span :: "string set \<Rightarrow> ctx \<Rightarrow> ctx \<times> ('d, 'u, unit) engine \<Rightarrow> bool" where
  "quiet_span K c p \<longleftrightarrow> alike K c (fst p) \<and> hidden unseen (snd p)"

lemma in_world_ret: "in_world (ret a) = ret a"
  by (simp add: in_world_def zoom_def ret_def fun_eq_iff)

lemma sim_startSpan:
  assumes "harmless K (rs_def rs)"
  shows "sim unseen (\<lambda>p q. quiet_span K c p \<and> q = (c', ret ())) (startSpan rs c n) (startSpan (bare rs) c' n)"
  using assms
proof (cases rule: startSpan_harmless [of K rs c n])
  case none
  then show ?thesis
    by (simp add: bare_observers sim_ret quiet_span_def hidden_ret)
next
  case (span t)
  have "sim unseen (\<lambda>p q. alike K c (fst p) \<and> (\<forall>w. snd p w = (Ret (), w)) \<and> q = c')
      (in_world (StartSpan t c n)) (in_world (ret c'))"
  proof (rule sim_in_world_rel)
    fix w r w' assume run: "StartSpan t c n w = (r, w')"
    obtain c1 fin where "StartSpan t c n w = (Ret (c1, fin), w)" "alike K c c1" "\<forall>w'. fin w' = (Ret (), w')"
      using span(2) unfolding harmless_tracer_def by blast
    then show "\<exists>r'. ret c' w = (r', w') \<and> outcomes
        (\<lambda>p q. alike K c (fst p) \<and> (\<forall>w. snd p w = (Ret (), w)) \<and> q = c') r r'"
      using run by (simp add: ret_def)
  qed
  then have w: "sim unseen (\<lambda>p q. alike K c (fst p) \<and> (\<forall>w. snd p w = (Ret (), w)) \<and> q = c')
      (in_world (StartSpan t c n)) (ret c')" by (simp only: in_world_ret)
  have "sim unseen (\<lambda>p q. quiet_span K c p \<and> q = (c', ret ()))
      (bind_go (in_world (StartSpan t c n)) (\<lambda>(c1, fin). ret (c1, seq_go (emit (ObsSpanEnd n)) (in_world fin))))
      (bind_go (ret c') (\<lambda>c1. ret (c1, ret ())))"
    by (rule sim_bind [OF w])
       (auto simp: quiet_span_def intro!: sim_ret hidden_seq hidden_emit hidden_in_world)
  then show ?thesis
    using span(1) sim_ret_left [OF hidden_emit, of "ObsSpanStart n"]
    by (simp add: bare_observers startSpan_def [of rs]) (simp add: bind_go_def ret_def)
qed

lemma sim_with_span:
  assumes "harmless K (rs_def rs)" and "alike K c c'"
    and "\<And>c1 c1'. alike K c1 c1' \<Longrightarrow> sim unseen R (f c1) (f' c1')"
  shows "sim unseen R (bind_go (startSpan rs c n) (\<lambda>(c1, fin). deferred fin (f c1)))
    (bind_go (startSpan (bare rs) c' n) (\<lambda>(c1, fin). deferred fin (f' c1)))"
proof (rule sim_bind [OF sim_startSpan [OF assms(1)]])
  fix p :: "ctx \<times> ('a, 'b, unit) engine" and q :: "ctx \<times> ('a, 'b, unit) engine"
  assume pq: "quiet_span K c p \<and> q = (c', ret ())"
  then have "alike K (fst p) c'" using assms(2) by (simp add: quiet_span_def alike_def)
  then show "sim unseen R (case p of (c1, fin) \<Rightarrow> deferred fin (f c1))
      (case q of (c1, fin) \<Rightarrow> deferred fin (f' c1))"
    using pq assms(3) by (auto simp: quiet_span_def split_beta intro!: sim_deferred hidden_unit)
qed

section \<open>Contexts on both sides\<close>

lemma sim_ctx:
  assumes "alike K c c'"
  shows "sim unseen (=) (in_world (ctx_Done c)) (in_world (ctx_Done c'))"
    "sim unseen (=) (in_world (context_Cause c)) (in_world (context_Cause c'))"
    "sim unseen (=) (in_world (timer_or_done c delay)) (in_world (timer_or_done c' delay))"
  unfolding ctx_Done_def context_Cause_def timer_or_done_def alike_ended [OF assms] alike_same(1) [OF assms]
  by (rule sim_in_world)+

lemma sim_deadline:
  assumes "alike K c c'"
  shows "sim unseen (alike K) (in_world (context_WithTimeoutCause c t e))
    (in_world (context_WithTimeoutCause c' t e))"
proof (rule sim_in_world_rel)
  fix w r w' assume "context_WithTimeoutCause c t e w = (r, w')"
  then show "\<exists>r'. context_WithTimeoutCause c' t e w = (r', w') \<and> outcomes (alike K) r r'"
    using alike_same(3) [OF assms]
    by (auto simp: context_WithTimeoutCause_def bind_go_def ret_def split: prod.splits outcome.splits)
qed

lemma sim_saga_expired: "alike K c c' \<Longrightarrow> sim unseen (=) (saga_expired c ste) (saga_expired c' ste)"
  unfolding saga_expired_def by (intro sim_engine sim_ctx refl)

lemma sim_sleepOrDone: "alike K c c' \<Longrightarrow> sim unseen (=) (sleepOrDone c delay) (sleepOrDone c' delay)"
  unfolding sleepOrDone_def by (intro sim_engine sim_ctx sim_emit refl) simp_all

section \<open>Persisting\<close>

definition same_run :: "string set \<Rightarrow> ('d, 'u) run_state \<Rightarrow> ctx \<Rightarrow> ctx \<Rightarrow> bool" where
  "same_run K rs c c' \<longleftrightarrow> harmless K (rs_def rs) \<and> held_by rs \<and> alike K c c'"

lemma same_runD:
  assumes "same_run K rs c c'"
  shows "harmless K (rs_def rs)" "alike K c c'"
    "Save (d_store (rs_def rs)) c' = Save (d_store (rs_def rs)) c"
    "locker rs = Some l \<Longrightarrow> Acquire l c' = Acquire l c"
    "locker rs = Some l \<Longrightarrow> Release l (WithoutCancel c') = Release l (WithoutCancel c)"
proof -
  show h: "harmless K (rs_def rs)" and a: "alike K c c'" using assms by (simp_all add: same_run_def)
  have b: "blind K (Save (d_store (rs_def rs)))" using h by (simp add: harmless_def blind_callbacks_def)
  show "Save (d_store (rs_def rs)) c' = Save (d_store (rs_def rs)) c" by (rule blind_alike [OF b a])
  assume "locker rs = Some l"
  then have "as_Locker (d_store (rs_def rs)) = Some l" using assms by (auto simp: same_run_def held_by_def)
  then have l: "blind K (Acquire l)" "blind K (Release l)"
    using h by (simp_all add: harmless_def blind_callbacks_def)
  show "Acquire l c' = Acquire l c" by (rule blind_alike [OF l(1) a])
  show "Release l (WithoutCancel c') = Release l (WithoutCancel c)"
    by (rule blind_alike [OF l(2) alike_same(4) [OF a]])
qed

lemma same_run_without: "same_run K rs c c' \<Longrightarrow> same_run K rs (WithoutCancel c) (WithoutCancel c')"
  by (simp add: same_run_def alike_same(4))

lemma sim_store_Save:
  assumes "Save (d_store d) c' = Save (d_store d) c"
  shows "sim unseen (=) (store_Save d c) (store_Save (unobserved d) c')"
  unfolding store_Save_def using assms
  by (intro sim_engine sim_emit sim_in_world_eq refl) simp_all

lemma sim_do_Acquire:
  assumes "Acquire l c' = Acquire l c"
  shows "sim unseen (=) (do_Acquire l c i own ttl) (do_Acquire l c' i own ttl)"
  unfolding do_Acquire_def using assms
  by (intro sim_engine sim_emit sim_in_world_eq sim_prod refl) simp_all

lemma sim_save:
  assumes "same_run K rs c c'"
  shows "sim unseen (=) (save rs c) (save (bare rs) c')"
proof -
  note d = same_runD [OF assms]
  have acq: "sim unseen (=) (do_Acquire l c i own ttl) (do_Acquire l c' i own ttl)"
    if "locker rs = Some l" for l i own ttl
    using d(4) [OF that] by (rule sim_do_Acquire)
  show ?thesis
    unfolding save_def bare_simps unobserved_simps
    by (intro sim_engine sim_prod acq sim_store_Save d(3) refl; assumption)
qed

lemma sim_transitions:
  assumes "same_run K rs c c'"
  shows "sim unseen (=) (transitionExec rs c to') (transitionExec (bare rs) c' to')"
    "sim unseen (=) (transitionStep rs c i ts) (transitionStep (bare rs) c' i ts)"
  unfolding transitionExec_def transitionStep_def
  by (intro sim_engine sim_save [OF assms] sim_notifyExec [OF same_runD(1) [OF assms]]
      sim_notifyStep [OF same_runD(1) [OF assms]] refl)+

lemma sim_release:
  assumes "same_run K rs c c'"
  shows "sim unseen (=) (release_lock rs c) (release_lock (bare rs) c')"
  unfolding release_lock_def bare_simps
  by (intro sim_engine sim_emit sim_in_world_eq refl) (simp_all add: same_runD(5) [OF assms])

section \<open>Calls and attempts\<close>

lemma bare_policy [simp]: "retryPolicyFor (bare rs) step = retryPolicyFor rs step"
  by (simp add: retryPolicyFor_def split: option.split)

lemma sim_run_action:
  assumes "alike K c c'" and "\<And>f. Action step = Some f \<Longrightarrow> blind K f"
  shows "sim unseen (=) (run_action step c data) (run_action step c' data)"
  unfolding run_action_def using assms blind_alike alike_same(2) [OF assms(1)]
  by (intro sim_engine sim_prod sim_emit sim_in_world_eq refl) (auto simp: alike_same(2) dest: blind_alike intro: sim_emit)

definition blind_step :: "string set \<Rightarrow> ('d, 'u) step_definition \<Rightarrow> bool" where
  "blind_step K st \<longleftrightarrow> (\<forall>f. Action st = Some f \<longrightarrow> blind K f)
     \<and> (\<forall>f. Compensate st = Some f \<longrightarrow> blind K f)"

lemma harmless_blind: "harmless K d \<Longrightarrow> st \<in> set (d_steps d) \<Longrightarrow> blind_step K st"
  by (simp add: harmless_def blind_callbacks_def blind_step_def)

lemma sim_callAction:
  assumes "same_run K rs c c'" and "blind_step K step"
  shows "sim unseen (=) (callAction rs c opID step timeout data) (callAction (bare rs) c' opID step timeout data)"
proof -
  note d = same_runD [OF assms(1)]
  have act: "sim unseen (=) (run_action step c data) (run_action step c' data)" if "alike K c c'" for c c'
    by (rule sim_run_action [OF that]) (use assms(2) in \<open>simp add: blind_step_def\<close>)
  show ?thesis
    unfolding callAction_def Let_def
  proof (rule sim_with_span [OF d(1) alike_same(5) [OF d(2)]])
    fix c1 c1' assume c1: "alike K c1 c1'"
    show "sim unseen (=)
      (if sint timeout \<le> 0 then run_action step c1 data
       else bind_go (in_world new_ref) (\<lambda>r. bind_go (in_world (context_WithTimeoutCause c1 timeout
              (StepTimeoutError r (Name step) timeout))) (\<lambda>actionCtx.
            bind_go (run_action step actionCtx data) (\<lambda>(out, err).
            bind_go (in_world (context_Cause actionCtx)) (\<lambda>cause.
              if errors_Is_opt cause (StepTimeoutError r (Name step) timeout)
              then ret (None, Some (StepTimeoutError r (Name step) timeout)) else ret (out, err))))))
      (if sint timeout \<le> 0 then run_action step c1' data
       else bind_go (in_world new_ref) (\<lambda>r. bind_go (in_world (context_WithTimeoutCause c1' timeout
              (StepTimeoutError r (Name step) timeout))) (\<lambda>actionCtx.
            bind_go (run_action step actionCtx data) (\<lambda>(out, err).
            bind_go (in_world (context_Cause actionCtx)) (\<lambda>cause.
              if errors_Is_opt cause (StepTimeoutError r (Name step) timeout)
              then ret (None, Some (StepTimeoutError r (Name step) timeout)) else ret (out, err))))))"
      by (intro sim_if refl act [OF c1] sim_bind_eq [OF sim_in_world] sim_bind [OF sim_deadline [OF c1]]
          sim_bind_eq [OF act] sim_prod sim_bind_eq [OF sim_ctx(2)] sim_ret)
  qed
qed

lemma sim_run_attempts:
  assumes "same_run K rs c c'" and "blind_step K step"
  shows "sim unseen (=) (run_attempts rs c ste opID i step data attempt)
    (run_attempts (bare rs) c' ste opID i step data attempt)"
proof (induction "nat (MaxAttempts (retryPolicyFor rs step) - attempt)" arbitrary: attempt
    rule: less_induct)
  case less
  note c = same_runD(2) [OF assms(1)]
  have again: "sim unseen (=) (run_attempts rs c ste opID i step data (attempt + 1))
      (run_attempts (bare rs) c' ste opID i step data (attempt + 1))"
    if "\<not> (isNonRetryable x \<or> MaxAttempts (retryPolicyFor rs step) \<le> attempt)" for x
    using that by (intro less.hyps) simp
  show ?case
    by (subst run_attempts.simps, subst run_attempts.simps [of "bare rs"], unfold bare_policy)
       (intro sim_engine sim_prod sim_ctx [OF c] sim_callAction [OF assms] sim_saga_expired [OF c]
         sim_sleepOrDone [OF c] refl; (assumption | rule again; assumption))
qed

lemma sim_invokeCompensate:
  assumes "same_run K rs c c'" and "blind K f"
  shows "sim unseen (=) (invokeCompensate rs c i f) (invokeCompensate (bare rs) c' i f)"
proof -
  note d = same_runD [OF assms(1)]
  have call: "sim unseen (=)
      (seq_go (emit (ObsCompensate n (OperationID c1) out)) (bind_go (in_world (f c1 out)) (\<lambda>err.
         seq_go (emit (ObsCompensateReturned n err)) (ret err))))
      (seq_go (emit (ObsCompensate n (OperationID c1') out)) (bind_go (in_world (f c1' out)) (\<lambda>err.
         seq_go (emit (ObsCompensateReturned n err)) (ret err))))"
    if "alike K c1 c1'" for n c1 c1' out
    unfolding alike_same(2) [OF that] blind_alike [OF assms(2) that]
    by (intro sim_engine sim_emit refl) simp_all
  show ?thesis
    unfolding invokeCompensate_def Let_def
    by (intro sim_bind_eq [OF sim_gets_exec(1)] sim_with_span [OF d(1) alike_same(5) [OF d(2)]] call)
qed

section \<open>The engine\<close>

lemma sim_comp_loop:
  assumes "same_run K rs c c'"
  shows "sim unseen (=) (comp_loop rs c i) (comp_loop (bare rs) c' i)"
proof (induction i)
  case 0
  then show ?case by (simp add: sim_ret)
next
  case (Suc i)
  have inv: "sim unseen (=) (invokeCompensate rs c i f) (invokeCompensate (bare rs) c' i f)"
    if "\<not> length (d_steps (rs_def rs)) \<le> i" "Compensate (d_steps (rs_def rs) ! i) = Some f" for f
  proof -
    have "d_steps (rs_def rs) ! i \<in> set (d_steps (rs_def rs))" using that(1) by simp
    then have "blind K f"
      using harmless_blind [OF same_runD(1) [OF assms]] that(2) by (auto simp: blind_step_def)
    then show ?thesis by (rule sim_invokeCompensate [OF assms])
  qed
  show ?case
    unfolding comp_loop.simps bare_simps unobserved_simps
    by (intro sim_engine sim_transitions [OF assms] Suc.IH inv refl; assumption)
qed

lemma sim_all_compensated: "sim unseen (=) (all_compensated i n) (all_compensated i n)"
  by (induction n arbitrary: i) (auto intro!: sim_engine)

lemma sim_finishCompensating:
  assumes "same_run K rs c c'"
  shows "sim unseen (=) (finishCompensating rs c k oe) (finishCompensating (bare rs) c' k oe)"
  unfolding finishCompensating_def compensate_def
  by (intro sim_engine sim_prod sim_comp_loop [OF same_run_without [OF assms]] sim_all_compensated
      sim_transitions [OF assms] refl)

lemma sim_abort:
  assumes "same_run K rs c c'"
  shows "sim unseen (=) (abort rs c k oe) (abort (bare rs) c' k oe)"
  unfolding abort_def
  by (intro sim_engine sim_transitions [OF assms] sim_finishCompensating [OF assms] refl)

lemma sim_forward:
  assumes "same_run K rs c c'" and "\<forall>st \<in> set steps. blind_step K st"
  shows "sim unseen (=) (forward rs c ste steps i data) (forward (bare rs) c' ste steps i data)"
  using assms(2)
proof (induction steps arbitrary: i data)
  case Nil
  show ?case unfolding forward.simps by (intro sim_engine sim_transitions [OF assms(1)])
next
  case (Cons step rest)
  have st: "blind_step K step" and rest: "\<forall>st \<in> set rest. blind_step K st" using Cons.prems by simp_all
  note c = same_runD(2) [OF assms(1)]
  show ?case
    unfolding forward.simps runStep_def
    by (intro sim_engine sim_prod sim_ctx [OF c] sim_transitions [OF assms(1)] sim_abort [OF assms(1)]
        sim_run_attempts [OF assms(1) st] Cons.IH [OF rest] sim_gets refl) simp_all
qed

lemma sim_dispatch:
  assumes "same_run K rs c c'"
  shows "sim unseen (=) (dispatch rs c ste) (dispatch (bare rs) c' ste)"
proof -
  have "\<forall>st \<in> set (drop n (d_steps (rs_def rs))). blind_step K st" for n
    using harmless_blind [OF same_runD(1) [OF assms]] by (auto dest: in_set_dropD)
  then have run: "sim unseen (=) (resumeRunning rs c ste) (resumeRunning (bare rs) c' ste)"
    unfolding resumeRunning_def bare_simps unobserved_simps
    by (intro sim_engine sim_prod sim_abort [OF assms] sim_forward [OF assms] refl)
  show ?thesis
    unfolding dispatch_def resumeCompensating_def
    by (intro sim_engine run sim_transitions [OF assms] sim_finishCompensating [OF assms] refl)
qed

lemma sim_start_timeout:
  assumes "alike K c c'"
  shows "sim unseen (\<lambda>p q. alike K (fst p) (fst q) \<and> snd p = snd q)
    (start_timeout d c) (start_timeout (unobserved d) c')"
  unfolding start_timeout_def Let_def unobserved_simps
  by (intro sim_if refl sim_bind_eq [OF sim_in_world] sim_bind [OF sim_deadline [OF assms]] sim_ret)
     (simp_all add: assms)

lemma sim_resume_held:
  assumes "same_run K rs c c'"
  shows "sim unseen (=) (resume_held rs c) (resume_held (bare rs) c')"
proof -
  note d = same_runD [OF assms]
  have span: "on_panic k (startSpan rs c n) = startSpan rs c n" for k n
    using d(1)
  proof (cases rule: startSpan_harmless [of K rs c n])
    case none
    then show ?thesis by (simp add: on_panic_def ret_def)
  next
    case (span t)
    have "\<exists>a t. startSpan rs c n s = (Ret a, t)" for s
    proof -
      obtain c1 fin where "StartSpan t c n (world s) = (Ret (c1, fin), world s)"
        using span(2) unfolding harmless_tracer_def by blast
      then show ?thesis
        using span(1) by (simp add: startSpan_def seq_go_def bind_go_def emit_def modify_def in_world_def
            zoom_def ret_def)
    qed
    then show ?thesis by (intro ext) (metis (mono_tags, lifting) case_prod_conv on_panic_def outcome.simps(5))
  qed
  have bare_span: "on_panic k (startSpan (bare rs) c' n) = startSpan (bare rs) c' n" for k n
    by (simp add: bare_observers on_panic_def ret_def)
  have body: "sim unseen (=) (deferred (release_lock rs c2) (deferred fin (dispatch rs c2 ste)))
      (deferred (release_lock (bare rs) c2') (deferred (ret ()) (dispatch (bare rs) c2' ste)))"
    if "alike K c2 c2'" "hidden unseen fin" for c2 c2' fin ste
  proof -
    have run: "same_run K rs c2 c2'" using that(1) assms by (simp add: same_run_def)
    show ?thesis
      by (intro sim_deferred [OF _ sim_release [OF run]] sim_deferred [OF _ hidden_unit [OF that(2)]]
          sim_dispatch [OF run])
  qed
  show ?thesis
    unfolding resume_held_def span bare_span bare_simps unobserved_simps(1)
  proof (rule sim_bind [OF sim_startSpan [OF d(1)]])
    fix p q :: "ctx \<times> ('a, 'b, unit) engine"
    assume pq: "quiet_span K c p \<and> q = (c', ret ())"
    then have a: "alike K (fst p) c'" using d(2) by (simp add: quiet_span_def alike_def)
    have rest: "sim unseen (=) (bind_go (start_timeout (rs_def rs) (fst p)) (\<lambda>(c2, ste).
          deferred (release_lock rs c2) (deferred (snd p) (dispatch rs c2 ste))))
        (bind_go (start_timeout (unobserved (rs_def rs)) c') (\<lambda>(c2, ste).
          deferred (release_lock (bare rs) c2) (deferred (ret ()) (dispatch (bare rs) c2 ste))))"
      by (rule sim_bind [OF sim_start_timeout [OF a]])
         (use pq in \<open>auto simp: quiet_span_def split_beta intro: body\<close>)
    then show "sim unseen (=)
        (case p of (c1, endSpan) \<Rightarrow> bind_go (start_timeout (rs_def rs) c1) (\<lambda>(c2, ste).
          deferred (release_lock rs c2) (deferred endSpan (dispatch rs c2 ste))))
        (case q of (c1, endSpan) \<Rightarrow> bind_go (start_timeout (unobserved (rs_def rs)) c1) (\<lambda>(c2, ste).
          deferred (release_lock (bare rs) c2) (deferred endSpan (dispatch (bare rs) c2 ste))))"
      using pq by (simp add: split_beta)
  qed
qed

lemma sim_resume:
  assumes "harmless K d"
  shows "sim unseen (=) (resume d c) (resume (unobserved d) c)"
proof -
  have held: "sim unseen (=) (resume_held \<lparr>rs_def = d, locker = l, lockOwner = own\<rparr> c)
      (resume_held \<lparr>rs_def = unobserved d, locker = l, lockOwner = own\<rparr> c)"
    if "l = None \<or> l = as_Locker (d_store d)" for l own
    using sim_resume_held [of K "\<lparr>rs_def = d, locker = l, lockOwner = own\<rparr>" c c] that assms
    by (simp add: same_run_def held_by_def bare_def)
  show ?thesis
    unfolding resume_def unobserved_simps
    by (intro sim_option sim_engine sim_prod sim_do_Acquire held refl) simp_all
qed

lemma unobserved_Freeze: "snd (Freeze (unobserved d)) = unobserved (snd (Freeze d))"
  by (simp add: Freeze_def modify_def unobserved_def)

lemma harmless_Freeze: "harmless K d \<Longrightarrow> harmless K (snd (Freeze d))"
  by (simp add: Freeze_def modify_def harmless_def blind_callbacks_def)

lemma sim_Execute:
  assumes "harmless K d"
  shows "sim unseen (\<lambda>p q. fst p = fst q \<and> unobserved (snd p) = snd q)
    (Execute d c input) (Execute (unobserved d) c input)"
proof -
  let ?d = "snd (Freeze d)"
  have new: "new_execution (unobserved ?d) i input now = new_execution ?d i input now" for i now
    by (simp add: new_execution_def)
  show ?thesis
    unfolding Execute_def Let_def unobserved_Freeze new
    by (intro sim_bind_eq [OF sim_in_world] sim_seq_eq [OF sim_upd_exec]
        sim_bind_eq [OF sim_store_Save] sim_option sim_bind_eq [OF sim_resume [OF harmless_Freeze [OF assms]]]
        sim_ret refl) simp_all
qed


text \<open>
  The witness: the order saga with observers of all four kinds, a publisher that panics and a tracer
  that puts a value into every context.
\<close>

definition watched :: "(unit, unit) definition_ \<Rightarrow> (unit, unit) definition_" where
  "watched d = d\<lparr>
     d_publisher := Some \<lparr>Publish = (\<lambda>c ev. panic ''publisher is broken'')\<rparr>,
     d_logger := Some \<lparr>Log = (\<lambda>c lv m a. ret ())\<rparr>,
     d_metrics := Some \<lparr>IncCounter = (\<lambda>n ls. ret ()), ObserveDuration = (\<lambda>n t ls. ret ())\<rparr>,
     d_tracer := Some \<lparr>StartSpan = (\<lambda>c n. ret (WithValue c (ForeignKey ''span'') n, ret ()))\<rparr>\<rparr>"

lemma watched_harmless: "harmless {''span''} (watched (order_saga f g))"
proof -
  have "blind_callbacks {''span''} (watched (order_saga f g))"
    by (auto simp: blind_callbacks_def watched_def order_saga_def Step_def order_action_def
        order_undo_def blind_def mem_store_ops_def mem_locker_def)
  then show ?thesis
    by (auto simp: harmless_def watched_def panic_def ret_def harmless_tracer_def alike_def)
qed


end
