(* ===== verification/Failure_Origin.thy ===== *)
theory Failure_Origin
  imports Engine_Outline
begin

text \<open>
  Where the errors of \<open>Execute\<close> come from. Every error it returns can be read off the trace and the
  definition: the answer of the store or the lease it could not persist with, or the failure that
  ended the forward run - the error of the action that returned last, a deadline of the step or of
  the saga, or the cause the caller's context ended with - as it is or wrapped because
  compensations failed too.
\<close>

section \<open>The origin of a failure\<close>

text \<open>The action that returned last, with its two results.\<close>

fun last_return :: "(string \<times> 'd any \<times> gerr option) option \<Rightarrow> 'd obs list
    \<Rightarrow> (string \<times> 'd any \<times> gerr option) option" where
  "last_return r [] = r"
| "last_return r (ObsActionReturned n out err # tr) = last_return (Some (n, out, err)) tr"
| "last_return r (x # tr) = last_return r tr"

fun is_return :: "'d obs \<Rightarrow> bool" where
  "is_return (ObsActionReturned n out err) = True"
| "is_return x = False"

lemma last_return_append [simp]: "last_return r (xs @ ys) = last_return (last_return r xs) ys"
  by (induction r xs rule: last_return.induct) auto

lemma last_return_same: "list_all (\<lambda>x. \<not> is_return x) tr \<Longrightarrow> last_return r tr = r"
  by (induction r tr rule: last_return.induct) auto

definition saga_timed_out :: "('d, 'u) definition_ \<Rightarrow> gerr \<Rightarrow> bool" where
  "saga_timed_out d y \<longleftrightarrow> 0 < sint (d_timeout d) \<and> (\<exists>r. y = SagaTimeoutError r (d_name d) (d_timeout d))"

text \<open>
  The failure \<open>x\<close> of a step named \<open>n\<close>: its action has just returned it, or its action has just
  returned and the step has a deadline, which is what \<open>x\<close> reports.
\<close>

definition step_failed :: "('d, 'u) definition_ \<Rightarrow> 'd obs list \<Rightarrow> string \<Rightarrow> gerr \<Rightarrow> bool" where
  "step_failed d tr n x \<longleftrightarrow> (\<exists>st \<in> set (d_steps d). Name st = n
     \<and> (\<exists>out err. last_return None tr = Some (n, out, err) \<and> (err = Some x
          \<or> 0 < sint (step_timeout st) \<and> (\<exists>r. x = StepTimeoutError r n (step_timeout st)))))"

definition origin :: "('d, 'u) definition_ \<Rightarrow> ctx \<Rightarrow> 'd obs list \<Rightarrow> gerr \<Rightarrow> bool" where
  "origin d c tr y \<longleftrightarrow> (\<exists>n x. y = StepError n (Some x) \<and> step_failed d tr n x)
     \<or> saga_timed_out d y \<or> (\<exists>w :: ('d, 'u) world. ended w c = Some y)"

lemma origin_append:
  "origin d c tr y \<Longrightarrow> list_all (\<lambda>x. \<not> is_return x) tr' \<Longrightarrow> origin d c (tr @ tr') y"
  by (simp add: origin_def step_failed_def last_return_same)

lemma origin_step: "step_failed d tr n x \<Longrightarrow> origin d c tr (StepError n (Some x))"
  by (simp add: origin_def)

section \<open>The assertions\<close>

definition since :: "'d obs list \<Rightarrow> ('d obs list \<Rightarrow> bool) \<Rightarrow> ('d, 'u) machine \<Rightarrow> bool" where
  "since t0 P t \<longleftrightarrow> (\<exists>tr. trace t = t0 @ tr \<and> P tr)"

text \<open>A context that ends only as \<open>c\<close> does; with the saga's own deadline it may also end then.\<close>

definition derived :: "('d, 'u) definition_ \<Rightarrow> ctx \<Rightarrow> ctx \<Rightarrow> bool" where
  "derived d c c' \<longleftrightarrow> (\<forall>w :: ('d, 'u) world. \<forall>y. ended w c' = Some y \<longrightarrow>
     (\<exists>w' :: ('d, 'u) world. ended w' c = Some y))"

definition within :: "('d, 'u) definition_ \<Rightarrow> ctx \<Rightarrow> ctx \<Rightarrow> gerr option \<Rightarrow> bool" where
  "within d c c' ste \<longleftrightarrow> (\<forall>w :: ('d, 'u) world. \<forall>y. ended w c' = Some y \<longrightarrow>
       saga_timed_out d y \<or> (\<exists>w' :: ('d, 'u) world. ended w' c = Some y))
     \<and> (\<forall>y. ste = Some y \<longrightarrow> saga_timed_out d y)"

text \<open>A tracer derives the contexts of its spans from the one it is given.\<close>

definition deriving :: "('d, 'u) definition_ \<Rightarrow> bool" where
  "deriving d \<longleftrightarrow> (\<forall>t c n w c' fin w'. d_tracer d = Some t \<longrightarrow>
     StartSpan t c n w = (Ret (c', fin), w') \<longrightarrow> derived d c c')"

definition explained :: "('d, 'u) definition_ \<Rightarrow> ctx \<Rightarrow> gerr option \<Rightarrow> 'd obs list \<Rightarrow> bool" where
  "explained d c err tr \<longleftrightarrow> (\<forall>z. err = Some z \<longrightarrow> unsaved tr z
     \<or> (\<exists>y. origin d c tr y \<and> (z = y \<or> z = compensation_error y)))"

definition fresh :: "'d execution \<Rightarrow> bool" where
  "fresh e \<longleftrightarrow> Status e \<in> {StatusPending, StatusRunning} \<and> set (map sStatus (Steps e)) \<subseteq> {StepStatusPending}"

text \<open>Facts that no later operation of the engine but the return of an action makes false.\<close>

definition lasting :: "('d obs list \<Rightarrow> bool) \<Rightarrow> bool" where
  "lasting P \<longleftrightarrow> (\<forall>tr tr'. P tr \<longrightarrow> list_all (\<lambda>x. \<not> is_return x) tr' \<longrightarrow> P (tr @ tr'))"

lemma lasting_facts [simp, intro]:
  "lasting (\<lambda>_. True)" "lasting (\<lambda>tr. origin d c tr y)" "lasting (\<lambda>tr. step_failed d tr n x)"
  "lasting (explained d c err)"
proof -
  show "lasting (\<lambda>_. True)" by (simp add: lasting_def)
  show o: "lasting (\<lambda>tr. origin d c tr y)" for y by (simp add: lasting_def origin_append)
  show "lasting (\<lambda>tr. step_failed d tr n x)" by (simp add: lasting_def step_failed_def last_return_same)
  show "lasting (explained d c err)"
    using o unsaved_mono unfolding lasting_def explained_def by (metis set_append sup_ge1)
qed

lemma lasting_imp [intro]: "(\<And>y. lasting (P y)) \<Longrightarrow> lasting (\<lambda>tr. \<forall>y. Q y \<longrightarrow> P y tr)"
  unfolding lasting_def by blast

lemma since_without:
  assumes "since t0 P s" and "lasting P" and "without is_return s t"
  shows "since t0 P t"
proof -
  obtain tr tr' where "trace s = t0 @ tr" "P tr" "trace t = trace s @ tr'" "list_all (\<lambda>x. \<not> is_return x) tr'"
    using assms(1,3) by (auto simp: since_def without_def)
  then show ?thesis using assms(2) by (auto simp: since_def lasting_def)
qed

lemma since_mono: "since t0 P s \<Longrightarrow> (\<And>tr. P tr \<Longrightarrow> Q tr) \<Longrightarrow> since t0 Q s"
  unfolding since_def by blast

lemma since_wp:
  assumes "keeps (without is_return) m" and "lasting P" and "since t0 P s"
  shows "wp m (\<lambda>_. since t0 P) (\<lambda>_. True) s"
proof -
  have "since t0 P (snd (m s))" using since_without [OF assms(3,2)] assms(1) by (simp add: keeps_def)
  then have "wp m (\<lambda>_. since t0 P) (since t0 P) s" by (simp add: wp_final)
  then show ?thesis by (rule wp_mono) simp_all
qed

lemma since_world [simp]: "since t0 P (s\<lparr>world := w\<rparr>) = since t0 P s"
  and since_exec [simp]: "since t0 P (s\<lparr>exec := e\<rparr>) = since t0 P s"
  by (simp_all add: since_def)

lemma aside_no_return: "aside x \<Longrightarrow> \<not> is_return x" and clerical_no_return: "clerical x \<Longrightarrow> \<not> is_return x"
  and span_no_return: "is_span x \<Longrightarrow> \<not> is_return x"
  by (cases x; simp add: clerical_def)+

lemma idle_without: "idle s t \<Longrightarrow> without is_return s t"
  using aside_no_return by (fastforce simp: idle_def without_def elim: list.pred_mono_strong)

lemma since_emits: "since t0 (\<lambda>_. True) t \<Longrightarrow> since t0 (\<lambda>_. True) (t\<lparr>trace := trace t @ [x]\<rparr>)"
  by (auto simp: since_def)

lemma since_stable: "lasting P \<Longrightarrow> stable (\<lambda>_. True) (since t0 P)"
  using since_without idle_without unfolding stable_def by blast

section \<open>Calls and attempts\<close>

lemma run_action_origin:
  assumes "since t0 (\<lambda>_. True) s"
  shows "wp (run_action step c data) (\<lambda>(out, err).
      since t0 (\<lambda>tr. last_return None tr = Some (Name step, out, err))) (\<lambda>_. True) s"
proof (cases "Action step")
  case None
  then show ?thesis by (simp add: run_action_def wp_panic)
next
  case (Some f)
  let ?s = "s\<lparr>trace := trace s @ [ObsAction (Name step) (OperationID c) data]\<rparr>"
  have "since t0 (\<lambda>_. True) ?s" using assms by (auto simp: since_def)
  then have "wp (in_world (f c data)) (\<lambda>_. since t0 (\<lambda>_. True)) (\<lambda>_. True) ?s"
    by (intro since_wp in_world_without) auto
  then show ?thesis
    unfolding run_action_def Some option.case wp_seq [of "emit x" for x] wp_emit wp_bind [of "in_world m" for m]
    by (rule wp_mono) (auto simp: wp_seq wp_emit wp_ret since_def)
qed

lemma callAction_origin:
  assumes "since t0 (\<lambda>_. True) s" and "step \<in> set (d_steps d)"
  shows "wp (callAction rs c opID step (step_timeout step) data)
    (\<lambda>p. since t0 (\<lambda>tr. \<forall>x. snd p = Some x \<longrightarrow> step_failed d tr (Name step) x)) (\<lambda>_. True) s"
proof -
  have own: "since t0 (\<lambda>tr. \<forall>x. err = Some x \<longrightarrow> step_failed d tr (Name step) x) t"
    if "since t0 (\<lambda>tr. last_return None tr = Some (Name step, out, err)) t" for out err t
    by (rule since_mono [OF that]) (use assms(2) in \<open>auto simp: step_failed_def\<close>)
  have late: "since t0 (\<lambda>tr. step_failed d tr (Name step)
      (StepTimeoutError r (Name step) (step_timeout step))) t"
    if "since t0 (\<lambda>tr. last_return None tr = Some (Name step, out, err)) t" "\<not> sint (step_timeout step) \<le> 0"
    for out err t r
    by (rule since_mono [OF that(1)]) (use assms(2) that(2) in \<open>force simp: step_failed_def\<close>)
  show ?thesis
    unfolding callAction_def Let_def
    by (rule span_wp [OF since_stable _ _ assms(1)])
       (auto simp: stable_def [of "\<lambda>_. True" "\<lambda>_. True"] wp_bind wp_in_world wp_new_ref wp_WithTimeoutCause wp_context_Cause wp_ret
          intro!: wp_mono [OF run_action_origin] since_stable intro: own late)
qed

section \<open>Transitions\<close>

lemma put_result_since:
  assumes "since t0 P s" and "lasting P" and "put_result s e err t"
  shows "unless_err (\<lambda>err. since t0 (explained d c err)) (since t0 P) err t"
proof -
  obtain tr tr' where tr: "trace s = t0 @ tr" "P tr" "trace t = trace s @ tr'" "list_all clerical tr'"
      "\<forall>y. err = Some y \<longrightarrow> unsaved tr' y"
    using assms(1,3) by (auto simp: since_def put_result_def split: option.splits)
  have "list_all (\<lambda>x. \<not> is_return x) tr'"
    using tr(4) clerical_no_return unfolding list_all_iff by blast
  then have "P (tr @ tr')" using assms(2) tr(2) by (simp add: lasting_def)
  moreover have "explained d c err (tr @ tr')"
    using tr(5) unsaved_mono [of tr' _ "tr @ tr'"] by (auto simp: explained_def)
  ultimately show ?thesis
    using tr(1,3) by (auto simp: unless_err_def since_def split: option.splits)
qed

lemma transition_since:
  assumes "since t0 P s" and "lasting P"
  shows "wp (transitionStep rs c' i ts)
      (unless_err (\<lambda>err. since t0 (explained d c err)) (since t0 P)) (\<lambda>_. True) s"
    and "wp (transitionExec rs c' st)
      (unless_err (\<lambda>err. since t0 (explained d c err)) (since t0 P)) (\<lambda>_. True) s"
  by (rule wp_mono [OF transitionStep_put] wp_mono [OF transitionExec_put];
      use put_result_since [OF assms] in blast)+

lemma last_transition_since:
  assumes "since t0 P s" and "\<And>tr. P tr \<Longrightarrow> explained d c (Some y) tr"
  shows "wp (transitionExec rs c' st) (unless_err (\<lambda>err. since t0 (explained d c err))
      (since t0 (explained d c (Some y)))) (\<lambda>_. True) s"
  using since_mono [OF assms] by (rule transition_since(2) [OF _ lasting_facts(4)])

lemma start_since:
  assumes "since t0 (\<lambda>_. True) s" and "fresh (exec s)"
  shows "wp (transitionExec rs c' StatusRunning) (unless_err (\<lambda>err. since t0 (explained d c err))
      (\<lambda>t. since t0 (\<lambda>_. True) t \<and> fresh (exec t) \<and> Status (exec t) = StatusRunning)) (\<lambda>_. True) s"
proof -
  have moved: "fresh e \<and> Status e = StatusRunning" if "moved_exec s StatusRunning e" for e
    using that assms(2) exec_transition_fields unfolding moved_exec_def fresh_def by fastforce
  have "unless_err (\<lambda>err. since t0 (explained d c err))
      (\<lambda>t. since t0 (\<lambda>_. True) t \<and> fresh (exec t) \<and> Status (exec t) = StatusRunning) err t"
    if "moved_exec s StatusRunning e" "put_result s e err t" for e err t
    using put_result_since [OF assms(1) _ that(2), of d c] moved [OF that(1)] that(2)
    by (auto simp: unless_err_def put_result_def split: option.splits)
  then show ?thesis by (intro wp_mono [OF transitionExec_put]) auto
qed

section \<open>The whole run\<close>

lemma fresh_idle: "fresh (exec s) \<Longrightarrow> idle s t \<Longrightarrow> fresh (exec t)"
  using core_same(1,5) [of "exec t" "exec s"] unfolding fresh_def idle_def by metis

lemma fresh_status: "fresh e \<Longrightarrow> Status e = StatusPending \<or> Status e = StatusRunning"
  by (simp add: fresh_def)

lemma fresh_not_failed: "fresh e \<Longrightarrow> find_failed i (Steps e) = None"
proof -
  have "set (map sStatus ss) \<subseteq> {StepStatusPending} \<Longrightarrow> find_failed i ss = None" for ss :: "'a step_execution list" and i
    by (induction ss arbitrary: i) auto
  then show "fresh e \<Longrightarrow> find_failed i (Steps e) = None" by (simp add: fresh_def)
qed

lemma startSpan_deriving:
  fixes d :: "('d, 'u) definition_"
  assumes "deriving d" and "derived d c0 c" and "rs_def rs = d" and "startSpan rs c n s = (Ret (c', fin), t)"
  shows "derived d c0 c'"
proof -
  have "wp (startSpan rs c n) (\<lambda>(c', fin) _. derived d c0 c') (\<lambda>_. True) s"
  proof (cases "d_tracer d")
    case None
    then show ?thesis using assms(2,3) by (simp add: startSpan_def wp_ret)
  next
    case (Some tc)
    have "derived d c0 c'" if "StartSpan tc c n w = (Ret (c', fin), w')" for c' fin w w'
      using assms(1,2) Some that unfolding deriving_def derived_def by blast
    then show ?thesis
      using assms(3) unfolding startSpan_def Some wp_seq [of "emit x" for x] wp_emit wp_in_world
        wp_bind [of "in_world m" for m]
      by (simp add: Some wp_bind wp_emit wp_seq wp_in_world) (rule wp_callback; auto simp: wp_ret)
  qed
  from wp_RetD [OF this assms(4)] show ?thesis by simp
qed

lemma within_derived:
  fixes d :: "('d, 'u) definition_"
  assumes "derived d c0 c"
  shows "within d c0 c None"
    and "0 < sint (d_timeout d) \<Longrightarrow> within d c0 (WithDeadline c at (SagaTimeoutError r (d_name d) (d_timeout d)))
      (Some (SagaTimeoutError r (d_name d) (d_timeout d)))"
proof -
  show "within d c0 c None" using assms by (auto simp: within_def derived_def)
  assume "0 < sint (d_timeout d)"
  moreover have "saga_timed_out d y \<or> (\<exists>w' :: ('d, 'u) world. ended w' c0 = Some y)"
    if "ended w (WithDeadline c at (SagaTimeoutError r (d_name d) (d_timeout d))) = Some y"
      "0 < sint (d_timeout d)" for w :: "('d, 'u) world" and y
  proof -
    have "\<exists>w' :: ('d, 'u) world. ended w' c0 = Some y" if "ended w c = Some y"
      using assms that unfolding derived_def by blast
    then show ?thesis
      using that unfolding ended_WithDeadline saga_timed_out_def by (auto split: option.splits if_splits)
  qed
  ultimately show "within d c0 (WithDeadline c at (SagaTimeoutError r (d_name d) (d_timeout d)))
      (Some (SagaTimeoutError r (d_name d) (d_timeout d)))"
    by (auto simp: within_def saga_timed_out_def)
qed

lemma lease_since:
  fixes s :: "('d, 'u) machine"
  assumes "since t0 (\<lambda>_. True) s" and "fresh (exec s)"
  shows "wp (do_Acquire l c eid own ttl) (\<lambda>(ok, err) t. case err of
        Some y \<Rightarrow> since t0 (explained d c0 (Some (acquire_error eid y))) t
      | None \<Rightarrow> if ok then since t0 (\<lambda>_. True) t \<and> fresh (exec t)
          else since t0 (explained d c0 (Some (ExecutionLockedError eid))) t) (\<lambda>_. True) s"
proof -
  have refused: "since t0 (explained d c0 (Some z)) t"
    if t: "trace t = trace s @ [ObsAcquire eid own, ObsAcquired False]"
      and z: "\<And>tr :: 'd obs list. ObsAcquired False \<in> set tr \<Longrightarrow> unsaved tr z" for t :: "('d, 'u) machine" and z
  proof -
    have "unsaved (tr @ [ObsAcquire eid own, ObsAcquired False]) z" for tr :: "'d obs list"
      by (rule z) simp
    then show ?thesis using t assms(1) by (auto simp: since_def explained_def)
  qed
  show ?thesis
    by (rule wp_mono [OF do_Acquire_said])
       (use assms refused in \<open>auto simp: since_def split: option.splits\<close>)
qed

lemma explained_None [simp]: "explained d c None = (\<lambda>_. True)"
  by (simp add: explained_def fun_eq_iff)

lemma explained_origin:
  "origin d c tr y \<Longrightarrow> explained d c (Some y) tr"
  "origin d c tr y \<Longrightarrow> explained d c (Some (compensation_error y)) tr"
  by (auto simp: explained_def)

lemma cancelled_origin:
  fixes s :: "('d, 'u) machine" and d :: "('d, 'u) definition_"
  assumes "since t0 (\<lambda>_. True) s" and "within d c0 c ste"
  shows "ended (world s) c = Some y \<Longrightarrow> since t0 (\<lambda>tr. origin d c0 tr y) s"
    and "ste = Some y \<Longrightarrow> since t0 (\<lambda>tr. origin d c0 tr y) s"
  by (rule since_mono [OF assms(1)]; use assms(2) in \<open>auto simp: within_def origin_def\<close>)+

lemma runStep_origin:
  fixes s :: "('d, 'u) machine" and d :: "('d, 'u) definition_"
  assumes "since t0 (\<lambda>_. True) s" and "i < length (d_steps d)" and "within d c0 c ste"
  shows "wp (runStep rs c ste eid i (d_steps d ! i) x) (\<lambda>(out, err). case err of
      None \<Rightarrow> since t0 (\<lambda>_. True) | Some y \<Rightarrow> since t0 (\<lambda>tr. origin d c0 tr y)) (\<lambda>_. True) s"
proof -
  let ?step = "d_steps d ! i"
  have step: "?step \<in> set (d_steps d)" using assms(2) by simp
  have call: "wp (callAction rs c opID ?step (step_timeout ?step) x) (\<lambda>p. case snd p of
      None \<Rightarrow> since t0 (\<lambda>_. True) | Some y \<Rightarrow> since t0 (\<lambda>tr. step_failed d tr (Name ?step) y)) (\<lambda>_. True) t"
    if "since t0 (\<lambda>_. True) t" for t :: "('d, 'u) machine" and opID
    by (rule wp_mono [OF callAction_origin [OF that step]])
       (auto split: option.split elim: since_mono)
  have "wp (run_attempts rs c ste opID i ?step x 1) (\<lambda>p. case snd p of
      None \<Rightarrow> since t0 (\<lambda>_. True) | Some y \<Rightarrow> since t0 (\<lambda>tr. origin d c0 tr y)) (\<lambda>_. True) s" for opID
    by (rule run_attempts_triple [where J = "since t0 (\<lambda>_. True)"
          and Bad = "\<lambda>y. since t0 (\<lambda>tr. step_failed d tr (Name ?step) y)"])
       (auto intro!: since_stable since_emits call assms(1) intro: cancelled_origin [OF _ assms(3)]
          elim: since_mono intro: origin_step)
  then show ?thesis by (simp add: runStep_def case_prod_unfold)
qed

lemma complete_since:
  assumes "since t0 (\<lambda>_. True) s"
  shows "wp (transitionExec rs c' st) (\<lambda>err. since t0 (explained d c err)) (\<lambda>_. True) s"
  by (rule wp_mono [OF transition_since(2) [OF assms]])
     (auto simp: unless_err_def split: option.splits)

lemma since_compensate:
  assumes "since t0 P s" and "lasting P"
  shows "wp (invokeCompensate rs c i f) (\<lambda>_. since t0 P) (\<lambda>_. True) s"
proof (rule since_wp [OF _ assms(2,1)])
  show "keeps (without is_return) (invokeCompensate rs c i f)"
    unfolding invokeCompensate_def Let_def
    by (rule wof.bind_frame [OF wof.gets_frame], rule with_span_without)
       (auto intro!: without_rules simp: span_no_return)
qed

interpretation blame: engine_outline d "\<lambda>c. deriving d \<and> derived d c0 c" "within d c0"
    "\<lambda>s. since t0 (\<lambda>_. True) s \<and> fresh (exec s)" "\<lambda>_. True"
    "\<lambda>_ _. since t0 (\<lambda>_. True)" "\<lambda>_ _. since t0 (\<lambda>_. True)" "\<lambda>_ _. since t0 (\<lambda>_. True)"
    "\<lambda>_ y. since t0 (\<lambda>tr. origin d c0 tr y)" "\<lambda>_ y. since t0 (\<lambda>tr. origin d c0 tr y)"
    "\<lambda>_ y. since t0 (\<lambda>tr. origin d c0 tr y)" "\<lambda>_ y. since t0 (\<lambda>tr. origin d c0 tr y)"
    "\<lambda>_ y _. since t0 (\<lambda>tr. origin d c0 tr y)" "\<lambda>err. since t0 (explained d c0 err)"
  for d :: "('d, 'u) definition_" and c0 t0
proof (unfold_locales, goal_cases)
  case 1
  show ?case
    using since_stable [of "\<lambda>_. True" t0] fresh_idle by (auto simp: stable_def)
qed (auto simp: stable_def [of _ "\<lambda>_. True"] fresh_not_failed within_derived wp_seq wp_upd_step wp_upd_exec
    intro!: since_stable transition_since complete_since since_compensate runStep_origin lease_since start_since
      last_transition_since explained_origin split del: if_split
    intro: cancelled_origin startSpan_deriving dest: fresh_status)

lemma unfrozen_facts:
  "deriving (snd (Freeze d)) = deriving d" "origin (snd (Freeze d)) = origin d"
  by (auto simp: deriving_def derived_def origin_def step_failed_def saga_timed_out_def Freeze_def' fun_eq_iff)

lemma Execute_explained:
  assumes "deriving d"
  shows "wp (Execute d c input) (\<lambda>(err, d'). since (trace s) (explained (snd (Freeze d)) c err)) (\<lambda>_. True) s"
proof -
  let ?d = "snd (Freeze d)" and ?T = "since (trace s) (\<lambda>_. True)"
  have first: "wp (store_Save ?d c) (unless_err (\<lambda>err. since (trace s) (explained ?d c err))
      (\<lambda>t. ?T t \<and> fresh (exec t))) (\<lambda>_. True) u"
    if u: "trace u = trace s" "exec u = new_execution ?d i input now" for u :: "('a, 'b) machine" and i now
  proof -
    have T: "?T u" using u by (simp add: since_def)
    have "fresh (exec u)" using u by (auto simp: fresh_def new_execution_def new_step_execution_def)
    then have "unless_err (\<lambda>err. since (trace s) (explained ?d c err)) (\<lambda>t. ?T t \<and> fresh (exec t)) err t"
      if "put_result u (exec u) err t" for err t
      using put_result_since [OF T _ that, of ?d c] that
      by (auto simp: unless_err_def put_result_def split: option.splits)
    then show ?thesis by (intro wp_mono [OF store_Save_put]) auto
  qed
  have "wp (Execute d c input) (\<lambda>(err, d') t. since (trace s) (explained ?d c err) t \<and> d' = ?d) (\<lambda>_. True) s"
    by (rule blame.Execute_outline [where c = c])
       (use assms in \<open>auto simp: unfrozen_facts derived_def intro!: first\<close>)
  then show ?thesis by (rule wp_mono) auto
qed



end
