(* ===== verification/Data_Flow.thy ===== *)
theory Data_Flow
  imports Engine_Outline
begin

text \<open>
  What goes from step to step. The observations of a run are read against the record that was last
  handed to the store: an action is called for the first step that has not succeeded, with the
  output recorded for the step before it (the input of the execution for the first); the output
  recorded for a step that has succeeded is what its action has just returned; a compensation is
  called with the output recorded for its step; and the output of a completed execution is that of
  its last step. Nothing else ever changes a recorded output.
\<close>

section \<open>Reading a trace\<close>

text \<open>
  The reader's state: before the first record, with the input given to \<open>Execute\<close>; later the last
  stored record and the result of the last action that returned without an error, if it was the
  last to return.
\<close>

datatype 'd reading = Before "'d any" | Holding "'d execution" "(string \<times> 'd any) option"

fun after :: "'d reading \<Rightarrow> 'd obs \<Rightarrow> 'd reading" where
  "after (Before inp) (ObsSave e) = Holding e None"
| "after (Holding e r) (ObsSave e') = Holding e' r"
| "after (Holding e r) (ObsActionReturned n out err) =
     Holding e (if err = None then Some (n, out) else None)"
| "after st x = st"

definition input_of :: "'d execution \<Rightarrow> nat \<Rightarrow> 'd any" where
  "input_of e i = (if i = 0 then Input e else sOutput (Steps e ! (i - 1)))"

definition called_for :: "'d execution \<Rightarrow> string \<Rightarrow> 'd any \<Rightarrow> bool" where
  "called_for e n x \<longleftrightarrow> (\<exists>i < length (Steps e). sName (Steps e ! i) = n
     \<and> sStatus (Steps e ! i) = StepStatusRunning \<and> (\<forall>j < i. sStatus (Steps e ! j) = StepStatusSucceeded)
     \<and> x = input_of e i)"

definition undone_for :: "'d execution \<Rightarrow> string \<Rightarrow> 'd any \<Rightarrow> bool" where
  "undone_for e n x \<longleftrightarrow> (\<exists>i < length (Steps e). sName (Steps e ! i) = n
     \<and> sStatus (Steps e ! i) = StepStatusCompensating \<and> x = sOutput (Steps e ! i))"

definition begins :: "'d any \<Rightarrow> 'd execution \<Rightarrow> bool" where
  "begins inp e \<longleftrightarrow> Input e = inp \<and> Output e = None \<and> (\<forall>s \<in> set (Steps e). sOutput s = None)"

text \<open>How a record may follow the last one, when \<open>r\<close> has just been returned.\<close>

definition passes_on :: "(string \<times> 'd any) option \<Rightarrow> 'd execution \<Rightarrow> 'd execution \<Rightarrow> bool" where
  "passes_on r e e' \<longleftrightarrow> Input e' = Input e \<and> map sName (Steps e') = map sName (Steps e)
     \<and> (\<forall>i < length (Steps e).
          if sStatus (Steps e' ! i) = StepStatusSucceeded \<and> sStatus (Steps e ! i) \<noteq> StepStatusSucceeded
          then r = Some (sName (Steps e ! i), sOutput (Steps e' ! i))
          else sOutput (Steps e' ! i) = sOutput (Steps e ! i))
     \<and> Output e' = (if Status e' = StatusCompleted \<and> Status e \<noteq> StatusCompleted
          then input_of e' (length (Steps e')) else Output e)"

fun fits :: "'d reading \<Rightarrow> 'd obs \<Rightarrow> bool" where
  "fits (Before inp) (ObsSave e) = begins inp e"
| "fits (Before inp) (ObsAction n k x) = False"
| "fits (Before inp) (ObsCompensate n k x) = False"
| "fits (Holding e r) (ObsSave e') = passes_on r e e'"
| "fits (Holding e r) (ObsAction n k x) = called_for e n x"
| "fits (Holding e r) (ObsCompensate n k x) = undone_for e n x"
| "fits st x = True"

fun flow :: "'d reading \<Rightarrow> 'd obs list \<Rightarrow> bool" where
  "flow st [] = True"
| "flow st (x # xs) = (fits st x \<and> flow (after st x) xs)"

lemma flow_append [simp]: "flow st (xs @ ys) \<longleftrightarrow> flow st xs \<and> flow (foldl after st xs) ys"
  by (induction st xs rule: flow.induct) auto

text \<open>The clerical work between two calls is read through the records saved.\<close>

lemma clerical_simps [simp]:
  "\<not> clerical (ObsAction n k x)" "\<not> clerical (ObsCompensate n k x)"
  "\<not> clerical (ObsActionReturned n y err)"
  by (simp_all add: clerical_def)

lemma clerical_flow:
  "list_all clerical tr \<Longrightarrow> flow (Holding e r) tr = legal_path (passes_on r) e (saves_of tr)
     \<and> foldl after (Holding e r) tr = Holding (last (e # saves_of tr)) r"
proof (induction tr arbitrary: e)
  case (Cons x tr)
  then show ?case by (cases x) auto
qed simp

lemma clerical_before: "list_all clerical tr \<Longrightarrow> saves_of tr = [] \<Longrightarrow> flow (Before inp) tr"
  by (induction tr rule: saves_of.induct) (auto simp: clerical_def)

lemma clerical_begin:
  "list_all clerical tr \<Longrightarrow> saves_of tr = [e] \<Longrightarrow> begins inp e \<Longrightarrow>
   flow (Before inp) tr \<and> foldl after (Before inp) tr = Holding e None"
proof (induction tr)
  case (Cons x tr)
  then show ?case using clerical_flow [of tr e None] by (cases x) auto
qed simp

text \<open>Observations that say nothing about the data.\<close>

fun dull :: "'d obs \<Rightarrow> bool" where
  "dull (ObsSave e) = False"
| "dull (ObsAction n k x) = False"
| "dull (ObsActionReturned n y err) = False"
| "dull (ObsCompensate n k x) = False"
| "dull x = True"

lemma dull_flow: "list_all dull tr \<Longrightarrow> flow st tr \<and> foldl after st tr = st"
proof (induction tr)
  case (Cons x tr)
  then show ?case by (cases st; cases x) auto
qed simp

lemma aside_dull: "aside x \<Longrightarrow> dull x" and span_dull: "is_span x \<Longrightarrow> dull x"
  by (cases x; simp)+

section \<open>The assertions\<close>

definition data_of :: "'d execution \<Rightarrow> status \<times> 'd any \<times> 'd any \<times> (string \<times> step_status \<times> 'd any) list" where
  "data_of e = (Status e, Input e, Output e, map (\<lambda>s. (sName s, sStatus s, sOutput s)) (Steps e))"

lemma data_of_core: "core e = core f \<Longrightarrow> data_of e = data_of f"
proof -
  have data: "data_of (core g) = data_of g" for g :: "'b execution"
    by (simp add: data_of_def core_def comp_def)
  show "core e = core f \<Longrightarrow> data_of e = data_of f" using data by metis
qed

lemma data_of_same:
  assumes "data_of e = data_of f"
  shows "Status e = Status f" "Input e = Input f" "Output e = Output f" "length (Steps e) = length (Steps f)"
    "map sName (Steps e) = map sName (Steps f)" "statuses e = statuses f"
    "i < length (Steps f) \<Longrightarrow> sStatus (Steps e ! i) = sStatus (Steps f ! i)"
    "i < length (Steps f) \<Longrightarrow> sName (Steps e ! i) = sName (Steps f ! i)"
    "i < length (Steps f) \<Longrightarrow> sOutput (Steps e ! i) = sOutput (Steps f ! i)"
proof -
  let ?g = "\<lambda>s. (sName s, sStatus s, sOutput s)"
  show simple: "Status e = Status f" "Input e = Input f" "Output e = Output f" using assms by (simp_all add: data_of_def)
  have m: "map ?g (Steps e) = map ?g (Steps f)" using assms by (simp add: data_of_def)
  show len: "length (Steps e) = length (Steps f)" using m by (rule map_eq_imp_length_eq)
  have at: "?g (Steps e ! i) = ?g (Steps f ! i)" if "i < length (Steps f)" for i
    using m that len by (metis (no_types, lifting) nth_map)
  show nth: "i < length (Steps f) \<Longrightarrow> sStatus (Steps e ! i) = sStatus (Steps f ! i)"
    "i < length (Steps f) \<Longrightarrow> sName (Steps e ! i) = sName (Steps f ! i)"
    "i < length (Steps f) \<Longrightarrow> sOutput (Steps e ! i) = sOutput (Steps f ! i)" for i
    using at by simp_all
  show "map sName (Steps e) = map sName (Steps f)" "statuses e = statuses f"
    using nth len by (auto simp: statuses_def intro: nth_equalityI)
qed

definition reads :: "'d reading \<Rightarrow> 'd obs list \<Rightarrow> 'd execution \<Rightarrow> (string \<times> 'd any) option
    \<Rightarrow> ('d, 'u) machine \<Rightarrow> bool" where
  "reads st0 t0 e r t \<longleftrightarrow> (\<exists>tr. trace t = t0 @ tr \<and> flow st0 tr \<and> foldl after st0 tr = Holding e r)"

definition flowing :: "'d reading \<Rightarrow> 'd obs list \<Rightarrow> ('d, 'u) machine \<Rightarrow> bool" where
  "flowing st0 t0 t \<longleftrightarrow> (\<exists>tr. trace t = t0 @ tr \<and> flow st0 tr)"

text \<open>The stored record has the data of the current one, which satisfies \<open>P\<close>.\<close>

definition on :: "'d reading \<Rightarrow> 'd obs list \<Rightarrow> ((string \<times> 'd any) option \<Rightarrow> 'd execution \<Rightarrow> bool)
    \<Rightarrow> ('d, 'u) machine \<Rightarrow> bool" where
  "on st0 t0 P t \<longleftrightarrow> (\<exists>e r. reads st0 t0 e r t \<and> data_of e = data_of (exec t) \<and> P r (exec t))"

definition about_data :: "(('r \<Rightarrow> 'd execution \<Rightarrow> bool)) \<Rightarrow> bool" where
  "about_data P \<longleftrightarrow> (\<forall>r e f. data_of e = data_of f \<longrightarrow> P r e \<longrightarrow> P r f)"

lemma reads_flowing: "reads st0 t0 e r t \<Longrightarrow> flowing st0 t0 t"
  and on_flowing: "on st0 t0 P t \<Longrightarrow> flowing st0 t0 t"
  by (auto simp: on_def reads_def flowing_def)

lemma reads_dull: "reads st0 t0 e r s \<Longrightarrow> without (\<lambda>x. \<not> dull x) s t \<Longrightarrow> reads st0 t0 e r t"
  using dull_flow by (fastforce simp: reads_def without_def)

lemma flowing_dull: "flowing st0 t0 s \<Longrightarrow> without (\<lambda>x. \<not> dull x) s t \<Longrightarrow> flowing st0 t0 t"
  using dull_flow by (fastforce simp: flowing_def without_def)

lemma idle_dull: "idle s t \<Longrightarrow> without (\<lambda>x. \<not> dull x) s t"
  using aside_dull by (fastforce simp: idle_def without_def elim: list.pred_mono_strong)

lemma stable_flowing: "stable (flowing st0 t0) (flowing st0 t0)"
  using flowing_dull idle_dull unfolding stable_def by blast

lemma on_idle:
  assumes "on st0 t0 P s" and "about_data P" and "idle s t"
  shows "on st0 t0 P t"
  using assms reads_dull [OF _ idle_dull [OF assms(3)]] data_of_core [of "exec t" "exec s"]
  unfolding on_def about_data_def idle_def by metis

lemma stable_on: "about_data P \<Longrightarrow> stable (flowing st0 t0) (on st0 t0 P)"
  using on_idle on_flowing unfolding stable_def by blast

section \<open>Transitions\<close>

lemma passes_on_data:
  assumes "data_of e = data_of f"
  shows "passes_on r e g = passes_on r f g"
  unfolding passes_on_def data_of_same(1-5) [OF assms] using data_of_same(7-9) [OF assms] by auto

lemma put_result_reads:
  assumes "reads st0 t0 e r s" and "passes_on r e e'"
  shows "put s e' t \<Longrightarrow> flowing st0 t0 t"
    and "put_result s e' None t \<Longrightarrow> reads st0 t0 e' r t \<and> exec t = e'"
proof -
  obtain tr where tr: "trace s = t0 @ tr" "flow st0 tr" "foldl after st0 tr = Holding e r"
    using assms(1) by (auto simp: reads_def)
  show "flowing st0 t0 t" if p: "put s e' t"
  proof -
    obtain tr' where "trace t = trace s @ tr'" "list_all clerical tr'" "saves_of tr' \<in> {[], [e']}"
      using p unfolding put_def by blast
    then show ?thesis using tr assms(2) clerical_flow [of tr' e r] by (auto simp: flowing_def)
  qed
  show "reads st0 t0 e' r t \<and> exec t = e'" if p: "put_result s e' None t"
  proof -
    obtain tr' where "trace t = trace s @ tr'" "list_all clerical tr'" "saves_of tr' = [e']" "exec t = e'"
      using p by (auto simp: put_result_def)
    then show ?thesis using tr assms(2) clerical_flow [of tr' e r] by (auto simp: reads_def)
  qed
qed

lemma moves_on:
  assumes "reads st0 t0 e r s" and "passes_on r e e' \<and> Q r e'"
  shows "put s e' t \<Longrightarrow> flowing st0 t0 t"
    and "put_result s e' err t \<Longrightarrow> unless_err (\<lambda>_. flowing st0 t0) (on st0 t0 Q) err t"
proof -
  show fl: "flowing st0 t0 t" if "put s e' t" for t
    using put_result_reads(1) [OF assms(1)] assms(2) that by blast
  show "unless_err (\<lambda>_. flowing st0 t0) (on st0 t0 Q) err t" if "put_result s e' err t"
  proof (cases err)
    case None
    then show ?thesis using put_result_reads(2) [OF assms(1)] assms(2) that by (auto simp: on_def)
  next
    case (Some y)
    then show ?thesis using fl [OF put_result_put [OF that]] by simp
  qed
qed

lemma unmoved_flowing: "reads st0 t0 e r s \<Longrightarrow> unmoved s t \<Longrightarrow> flowing st0 t0 t"
  by (auto simp: reads_def flowing_def unmoved_def)

lemma transitionStep_reads:
  assumes "reads st0 t0 e r s" and "\<And>e'. moved_step s i ts e' \<Longrightarrow> passes_on r e e' \<and> Q r e'"
  shows "wp (transitionStep rs c i ts) (unless_err (\<lambda>_. flowing st0 t0) (on st0 t0 Q)) (flowing st0 t0) s"
  by (rule wp_mono [OF transitionStep_put])
     (use moves_on [OF assms(1)] assms(2) unmoved_flowing [OF assms(1)] in blast)+

lemma transitionExec_reads:
  assumes "reads st0 t0 e r s" and "\<And>e'. moved_exec s to' e' \<Longrightarrow> passes_on r e e' \<and> Q r e'"
  shows "wp (transitionExec rs c to') (unless_err (\<lambda>_. flowing st0 t0) (on st0 t0 Q)) (flowing st0 t0) s"
  by (rule wp_mono [OF transitionExec_put])
     (use moves_on [OF assms(1)] assms(2) unmoved_flowing [OF assms(1)] in blast)+

section \<open>Calls\<close>

text \<open>Between two transitions nothing but attempt counts, messages and dull observations.\<close>

definition dozes :: "('d, 'u) machine \<Rightarrow> ('d, 'u) machine \<Rightarrow> bool" where
  "dozes s t \<longleftrightarrow> data_of (exec t) = data_of (exec s) \<and> without (\<lambda>x. \<not> dull x) s t"

interpretation doze: body_frame dozes dull
proof unfold_locales
  fix s :: "('a, 'b) machine" and i
  show "dozes s (s\<lparr>exec := (exec s)\<lparr>Steps := (Steps (exec s))
      [i := (Steps (exec s) ! i)\<lparr>sAttempts := sAttempts (Steps (exec s) ! i) + 1\<rparr>]\<rparr>\<rparr>)"
    using data_of_core [OF core_simps(3)] by (simp add: dozes_def without_def)
qed (auto simp: dozes_def without_def)

lemma on_dozes: "on st0 t0 P s \<Longrightarrow> about_data P \<Longrightarrow> dozes s t \<Longrightarrow> on st0 t0 P t"
  using reads_dull unfolding on_def about_data_def dozes_def by metis

lemma doze_wp:
  assumes "keeps dozes m" and "about_data P" and "on st0 t0 P s"
  shows "wp m (\<lambda>_. on st0 t0 P) (flowing st0 t0) s"
proof -
  have "on st0 t0 P (snd (m s))" using on_dozes assms unfolding keeps_def by blast
  then have "wp m (\<lambda>_. on st0 t0 P) (on st0 t0 P) s" by (simp add: wp_final)
  then show ?thesis by (rule wp_mono) (auto intro: on_flowing)
qed

text \<open>At step \<open>i\<close>, whose input is \<open>x\<close>; while it runs; when its action has returned \<open>y\<close>.\<close>

definition ready_at :: "('d, 'u) definition_ \<Rightarrow> nat \<Rightarrow> 'd any \<Rightarrow> 'd execution \<Rightarrow> bool" where
  "ready_at d i x e \<longleftrightarrow> map sName (Steps e) = map Name (d_steps d) \<and> Status e = StatusRunning
     \<and> forward_at i (statuses e) \<and> (i < length (Steps e) \<longrightarrow> sStatus (Steps e ! i) \<noteq> StepStatusFailed)
     \<and> x = input_of e i"

definition running_step :: "('d, 'u) definition_ \<Rightarrow> nat \<Rightarrow> 'd any \<Rightarrow> 'd execution \<Rightarrow> bool" where
  "running_step d i x e \<longleftrightarrow> ready_at d i x e \<and> i < length (Steps e)
     \<and> sStatus (Steps e ! i) = StepStatusRunning"

definition answered :: "('d, 'u) definition_ \<Rightarrow> nat \<Rightarrow> 'd any \<Rightarrow> (string \<times> 'd any) option
    \<Rightarrow> (string \<times> 'd any) option \<Rightarrow> 'd execution \<Rightarrow> bool" where
  "answered d i x y r e \<longleftrightarrow> running_step d i x e \<and> (y \<noteq> None \<longrightarrow> r = y)"

lemma input_of_same: "data_of e = data_of f \<Longrightarrow> i \<le> length (Steps f) \<Longrightarrow> input_of e i = input_of f i"
  using data_of_same(2) [of e f] data_of_same(9) [of e f "i - 1"] by (auto simp: input_of_def)

lemma ready_at_data:
  assumes "data_of e = data_of f" and "ready_at d i x e"
  shows "ready_at d i x f"
proof -
  have i: "i \<le> length (Steps f)"
    using assms(2) data_of_same(4) [OF assms(1)] by (simp add: ready_at_def forward_at_def)
  then show ?thesis
    using assms(2) data_of_same [OF assms(1)] input_of_same [OF assms(1) i] by (simp add: ready_at_def)
qed

lemma running_step_data: "data_of e = data_of f \<Longrightarrow> running_step d i x e \<Longrightarrow> running_step d i x f"
  using ready_at_data [of e f d i x] data_of_same(4,7) [of e f] unfolding running_step_def by metis

lemma about_steps [simp, intro]:
  "about_data (\<lambda>_. ready_at d i x)" "about_data (\<lambda>_. running_step d i x)" "about_data (answered d i x y)"
  using ready_at_data running_step_data unfolding about_data_def answered_def by fast+

lemma about_triv [simp, intro]: "about_data (\<lambda>_ _. True)"
  by (simp add: about_data_def)

lemma called_for_running:
  assumes "running_step d i x e"
  shows "called_for e (Name (d_steps d ! i)) x"
proof -
  have i: "i < length (Steps e)" "map sName (Steps e) = map Name (d_steps d)"
    using assms by (simp_all add: running_step_def ready_at_def)
  then have "sName (Steps e ! i) = Name (d_steps d ! i)" by (metis length_map nth_map)
  moreover have "sStatus (Steps e ! j) = StepStatusSucceeded" if "j < i" for j
    using assms that i(1) by (auto simp: running_step_def ready_at_def forward_at_def)
  ultimately show ?thesis
    using assms i(1) unfolding called_for_def running_step_def ready_at_def by blast
qed

lemma reads_emit:
  "reads st0 t0 e r s \<Longrightarrow> fits (Holding e r) x \<Longrightarrow> after (Holding e r) x = Holding e' r' \<Longrightarrow>
   reads st0 t0 e' r' (s\<lparr>trace := trace s @ [x]\<rparr>)"
  by (auto simp: reads_def)

lemma run_action_flow:
  assumes "on st0 t0 (\<lambda>_. running_step d i x) s"
  shows "wp (run_action (d_steps d ! i) c x) (\<lambda>p. on st0 t0
      (answered d i x (if snd p = None then Some (Name (d_steps d ! i), fst p) else None)))
      (flowing st0 t0) s"
proof (cases "Action (d_steps d ! i)")
  case None
  then show ?thesis using on_flowing [OF assms] by (simp add: run_action_def wp_panic)
next
  case (Some f)
  let ?n = "Name (d_steps d ! i)"
  let ?s = "s\<lparr>trace := trace s @ [ObsAction ?n (OperationID c) x]\<rparr>"
  obtain e r where e: "reads st0 t0 e r s" "data_of e = data_of (exec s)" "running_step d i x (exec s)"
    using assms by (auto simp: on_def)
  have "called_for e ?n x" using called_for_running running_step_data [OF e(2) [symmetric] e(3)] by blast
  then have "reads st0 t0 e r ?s" using e(1) by (intro reads_emit) simp_all
  then have "on st0 t0 (\<lambda>_. running_step d i x) ?s" using e(2,3) by (auto simp: on_def)
  then have call: "wp (in_world (f c x)) (\<lambda>_. on st0 t0 (\<lambda>_. running_step d i x)) (flowing st0 t0) ?s"
    by (intro doze_wp doze.in_world_keeps) auto
  show ?thesis
    unfolding run_action_def Some option.case wp_seq [of "emit x" for x] wp_emit wp_bind [of "in_world m" for m]
  proof (rule wp_mono [OF call], goal_cases)
    case (1 p t)
    obtain e r where e: "reads st0 t0 e r t" "data_of e = data_of (exec t)" "running_step d i x (exec t)"
      using 1 by (auto simp: on_def)
    have "reads st0 t0 e (if snd p = None then Some (?n, fst p) else None)
        (t\<lparr>trace := trace t @ [ObsActionReturned ?n (fst p) (snd p)]\<rparr>)" using e(1) by (rule reads_emit) simp_all
    then have "on st0 t0 (answered d i x (if snd p = None then Some (?n, fst p) else None))
        (t\<lparr>trace := trace t @ [ObsActionReturned ?n (fst p) (snd p)]\<rparr>)"
      using e(2) running_step_data [OF refl e(3)] by (auto simp: on_def answered_def)
    then show ?case by (simp add: case_prod_unfold wp_seq wp_emit wp_ret)
  qed simp
qed

lemma answered_less: "on st0 t0 (answered d i x y) t \<Longrightarrow> on st0 t0 (answered d i x None) t"
  and answered_running: "on st0 t0 (answered d i x y) t \<Longrightarrow> on st0 t0 (\<lambda>_. running_step d i x) t"
  by (auto simp: on_def answered_def)

lemma on_world: "on st0 t0 P (s\<lparr>world := w\<rparr>) = on st0 t0 P s"
  by (simp add: on_def reads_def)

lemma on_slept: "on st0 t0 P s \<Longrightarrow> on st0 t0 P (s\<lparr>trace := trace s @ [ObsSleep delay]\<rparr>)"
  using reads_dull [where s = s and t = "s\<lparr>trace := trace s @ [ObsSleep delay]\<rparr>"]
  by (fastforce simp: on_def without_def)

lemma callAction_flow:
  assumes "on st0 t0 (\<lambda>_. running_step d i x) s"
  shows "wp (callAction rs c opID (d_steps d ! i) timeout x) (\<lambda>p. on st0 t0
      (answered d i x (if snd p = None then Some (Name (d_steps d ! i), fst p) else None)))
      (flowing st0 t0) s"
  unfolding callAction_def Let_def
  by (rule span_wp [OF stable_on stable_on stable_flowing assms])
     (auto simp: wp_bind wp_in_world wp_new_ref wp_WithTimeoutCause wp_context_Cause wp_ret on_world
       intro!: run_action_flow wp_mono [OF run_action_flow] intro: answered_less)

lemma running_context:
  assumes "on st0 t0 (\<lambda>_. running_step d i x) s"
  shows "wp (runStep rs c ste eid i (d_steps d ! i) x) (\<lambda>(out, err). case err of
      None \<Rightarrow> on st0 t0 (answered d i x (Some (Name (d_steps d ! i), out)))
    | Some y \<Rightarrow> on st0 t0 (\<lambda>_. running_step d i x)) (flowing st0 t0) s"
proof -
  let ?step = "d_steps d ! i" and ?J = "on st0 t0 (\<lambda>_. running_step d i x)"
  have call: "wp (callAction rs c opID ?step (step_timeout ?step) x) (\<lambda>p. case snd p of
      None \<Rightarrow> on st0 t0 (answered d i x (Some (Name ?step, fst p))) | Some y \<Rightarrow> ?J) (flowing st0 t0) t"
    if "?J t" for t :: "('a, 'b) machine" and opID
    by (rule wp_mono [OF callAction_flow [OF that]])
       (auto split: option.split dest: answered_running)
  have "wp (run_attempts rs c ste opID i ?step x 1) (\<lambda>p. case snd p of
      None \<Rightarrow> on st0 t0 (answered d i x (Some (Name ?step, fst p))) | Some y \<Rightarrow> ?J) (flowing st0 t0) s" for opID
    by (rule run_attempts_triple [where J = ?J and Bad = "\<lambda>_. ?J"])
       (use call assms in \<open>auto intro: stable_on on_slept dest: answered_running\<close>)
  then show ?thesis by (simp add: runStep_def case_prod_unfold)
qed

section \<open>Compensations\<close>

definition reverting_step :: "nat \<Rightarrow> 'd execution \<Rightarrow> bool" where
  "reverting_step i e \<longleftrightarrow> i < length (Steps e) \<and> sStatus (Steps e ! i) = StepStatusCompensating"

lemma about_reverting [simp, intro]: "about_data (\<lambda>_. reverting_step i)"
  unfolding about_data_def reverting_step_def using data_of_same(4,7) by metis

lemma invokeCompensate_flow:
  assumes "on st0 t0 (\<lambda>_. reverting_step i) s"
  shows "wp (invokeCompensate rs c i f) (\<lambda>_. on st0 t0 (\<lambda>_ _. True)) (flowing st0 t0) s"
proof -
  let ?s = "Steps (exec s) ! i"
  let ?P = "\<lambda>(_ :: (string \<times> 'a any) option) e. reverting_step i e \<and> data_of e = data_of (exec s)"
  have about: "about_data ?P" using about_reverting [of i] unfolding about_data_def by metis
  have start: "on st0 t0 ?P s" using assms by (auto simp: on_def)
  have body: "wp (seq_go (emit (ObsCompensate (sName ?s) (OperationID c') (sOutput ?s)))
      (bind_go (in_world (f c' (sOutput ?s))) (\<lambda>err. seq_go (emit (ObsCompensateReturned (sName ?s) err)) (ret err))))
      (\<lambda>_. on st0 t0 (\<lambda>_ _. True)) (flowing st0 t0) t" if t: "on st0 t0 ?P t" for c' t
  proof -
    obtain e r where e: "reads st0 t0 e r t" "data_of e = data_of (exec t)" "?P r (exec t)"
      using t by (auto simp: on_def)
    have same: "data_of e = data_of (exec s)" "reverting_step i (exec s)"
      using e(2,3) about_reverting [of i] unfolding about_data_def by metis+
    then have "undone_for e (sName ?s) (sOutput ?s)"
      using data_of_same(4,7-9) [OF same(1)] unfolding undone_for_def reverting_step_def by metis
    then have "reads st0 t0 e r (t\<lparr>trace := trace t @ [ObsCompensate (sName ?s) (OperationID c') (sOutput ?s)]\<rparr>)"
      using e(1) by (intro reads_emit) simp_all
    then have called: "on st0 t0 (\<lambda>_ _. True)
        (t\<lparr>trace := trace t @ [ObsCompensate (sName ?s) (OperationID c') (sOutput ?s)]\<rparr>)"
      using e(2) by (auto simp: on_def)
    have "keeps dozes (bind_go (in_world (f c' (sOutput ?s)))
        (\<lambda>err. seq_go (emit (ObsCompensateReturned (sName ?s) err)) (ret err)))"
      by (intro doze.body_rules) simp
    from doze_wp [OF this about_triv called] show ?thesis by (simp add: wp_seq [of "emit x" for x] wp_emit)
  qed
  show ?thesis
    unfolding invokeCompensate_def Let_def wp_bind [of "gets f" for f] wp_gets
    by (rule span_wp [OF stable_on [OF about] stable_on stable_flowing start body]) auto
qed

section \<open>The moves of the engine\<close>

lemma step_passes:
  assumes "moved_step s i ts e'" and "ts \<noteq> StepStatusSucceeded"
  shows "passes_on r (exec s) e'"
proof -
  obtain now x where x: "step_transition (Steps (exec s) ! i) ts now = Inr x"
      "e' = (exec s)\<lparr>Steps := (Steps (exec s))[i := x]\<rparr>" "i < length (Steps (exec s))"
    using assms(1) by (auto simp: moved_step_def)
  note f = step_transition_fields [OF x(1)]
  have names: "map sName ((Steps (exec s))[i := x]) = map sName (Steps (exec s))"
    using f(2) x(3) by (intro nth_equalityI) (auto simp: nth_list_update)
  show ?thesis using f assms(2) x(2,3) names by (auto simp: passes_on_def nth_list_update)
qed

lemma exec_passes:
  assumes "moved_exec s to' e'"
  shows "to' \<noteq> StatusCompleted \<Longrightarrow> passes_on r (exec s) e'"
    and "exec s = f\<lparr>CurrentStep := [], Output := input_of f (length (Steps f))\<rparr> \<Longrightarrow>
      to' = StatusCompleted \<Longrightarrow> Status f \<noteq> StatusCompleted \<Longrightarrow> passes_on r f e'"
proof -
  obtain now where "exec_transition (exec s) to' now = Inr e'" using assms by (auto simp: moved_exec_def)
  note f = exec_transition_fields [OF this]
  show "to' \<noteq> StatusCompleted \<Longrightarrow> passes_on r (exec s) e'" using f by (simp add: passes_on_def)
  show "exec s = f\<lparr>CurrentStep := [], Output := input_of f (length (Steps f))\<rparr> \<Longrightarrow>
      to' = StatusCompleted \<Longrightarrow> Status f \<noteq> StatusCompleted \<Longrightarrow> passes_on r f e'"
    using f by (simp add: passes_on_def input_of_def)
qed

lemma succeeds_passes:
  assumes "moved_step (s\<lparr>exec := f\<lparr>Steps := (Steps f)[i := (Steps f ! i)\<lparr>sOutput := x\<rparr>]\<rparr>\<rparr>) i
      StepStatusSucceeded e'"
    and "i < length (Steps f)" and "r = Some (sName (Steps f ! i), x)"
    and "sStatus (Steps f ! i) \<noteq> StepStatusSucceeded"
  shows "passes_on r f e' \<and> sOutput (Steps e' ! i) = x
    \<and> statuses e' = (statuses f)[i := StepStatusSucceeded] \<and> Status e' = Status f"
proof -
  obtain now y where y: "step_transition ((Steps f ! i)\<lparr>sOutput := x\<rparr>) StepStatusSucceeded now = Inr y"
      "e' = f\<lparr>Steps := (Steps f)[i := y]\<rparr>"
    using assms(1,2) by (auto simp: moved_step_def)
  note g = step_transition_fields [OF y(1)]
  have names: "map sName ((Steps f)[i := y]) = map sName (Steps f)"
    using g(2) assms(2) by (intro nth_equalityI) (auto simp: nth_list_update)
  show ?thesis using g assms(2-4) y(2) names by (auto simp: passes_on_def nth_list_update)
qed

text \<open>The same from a stored record with the data of the current one.\<close>

lemma on_step:
  assumes "on st0 t0 P s" and "ts \<noteq> StepStatusSucceeded" and "\<And>e'. moved_step s i ts e' \<Longrightarrow> Q e'"
  shows "wp (transitionStep rs c i ts) (unless_err (\<lambda>_. flowing st0 t0) (on st0 t0 (\<lambda>_. Q))) (flowing st0 t0) s"
proof -
  obtain e r where e: "reads st0 t0 e r s" "data_of e = data_of (exec s)" using assms(1) by (auto simp: on_def)
  show ?thesis
    by (rule transitionStep_reads [OF e(1)])
       (use assms(2,3) step_passes passes_on_data [OF e(2)] in blast)
qed

lemma on_exec:
  assumes "on st0 t0 P s" and "to' \<noteq> StatusCompleted" and "\<And>e'. moved_exec s to' e' \<Longrightarrow> Q e'"
  shows "wp (transitionExec rs c to') (unless_err (\<lambda>_. flowing st0 t0) (on st0 t0 (\<lambda>_. Q))) (flowing st0 t0) s"
proof -
  obtain e r where e: "reads st0 t0 e r s" "data_of e = data_of (exec s)" using assms(1) by (auto simp: on_def)
  show ?thesis
    by (rule transitionExec_reads [OF e(1)])
       (use assms(2,3) exec_passes(1) passes_on_data [OF e(2)] in blast)
qed

lemma unless_flowing:
  assumes "wp m (unless_err (\<lambda>_. flowing st0 t0) (on st0 t0 P)) (flowing st0 t0) s"
  shows "wp m (\<lambda>_. flowing st0 t0) (flowing st0 t0) s"
    and "wp m (unless_err (\<lambda>_. flowing st0 t0) (flowing st0 t0)) (flowing st0 t0) s"
  by (rule wp_mono [OF assms]; auto simp: unless_err_def on_flowing split: option.splits)+

lemma on_failing:
  "on st0 t0 P s \<Longrightarrow> on st0 t0 (\<lambda>_ _. True)
    (s\<lparr>exec := (exec s)\<lparr>Steps := (Steps (exec s))[i := (Steps (exec s) ! i)\<lparr>sError := m\<rparr>]\<rparr>\<rparr>)"
  by (cases "i < length (Steps (exec s))")
     (auto simp: on_def reads_def data_of_def map_update_same list_update_beyond)

section \<open>Where a record is taken up\<close>

lemma about_record [simp, intro]: "about_data (\<lambda>_. record_ok d)"
  unfolding about_data_def record_ok_def using data_of_same(1,5,6) by metis

lemma record_ok_ready:
  assumes "record_ok d e" and "Status e = StatusRunning" and "find_failed 0 (Steps e) = None"
    and "skip_succeeded 0 (Input e) (Steps e) = (i, x)"
  shows "ready_at d i x e"
proof -
  obtain k where k: "forward_at k (statuses e)" using assms(1,2) by (auto simp: record_ok_def)
  let ?p = "\<lambda>s. sStatus s = StepStatusSucceeded"
  have i: "i = k" using forward_at_start [OF k, of "Input e"] assms(4) by simp
  have len: "k \<le> length (Steps e)" using k by (simp add: forward_at_def)
  have "i = length (takeWhile ?p (Steps e))" using skip_succeeded_fst [of 0 "Input e" "Steps e"] assms(4) by simp
  then have taken: "takeWhile ?p (Steps e) = take i (Steps e)" by (metis takeWhile_eq_take)
  have "x = (case take i (Steps e) of [] \<Rightarrow> Input e | xs \<Rightarrow> sOutput (last xs))"
    using skip_succeeded_snd [of 0 "Input e" "Steps e"] assms(4) by (simp add: taken)
  also have "\<dots> = (if i = 0 then Input e else sOutput (last (take i (Steps e))))"
    using len i by (cases "take i (Steps e)") auto
  finally have "x = input_of e i"
    using len i last_conv_nth [of "take i (Steps e)"]
    by (cases "Steps e = []") (auto simp: input_of_def split: if_splits)
  moreover have "sStatus (Steps e ! i) \<noteq> StepStatusFailed" if "i < length (Steps e)"
    using that assms(3) by (simp add: find_failed_None)
  ultimately show ?thesis using assms(1,2) k i by (simp add: ready_at_def record_ok_def)
qed

lemma record_ok_start:
  assumes "record_ok d (exec s)" and "Status (exec s) = StatusPending" and "moved_exec s StatusRunning e'"
  shows "record_ok d e' \<and> Status e' = StatusRunning"
proof -
  obtain now where "exec_transition (exec s) StatusRunning now = Inr e'"
    using assms(3) by (auto simp: moved_exec_def)
  note f = exec_transition_fields [OF this] statuses_transition [OF this]
  have "forward_at 0 (statuses e')"
    using assms(1,2) f by (auto simp: record_ok_def forward_at_def unfinished_def)
  then show ?thesis using assms(1) f by (auto simp: record_ok_def)
qed

lemma record_ok_Valid: "record_ok d e \<Longrightarrow> Valid (Status e)"
  by (metis Valid_iff record_ok_def shape_ok.simps(8))

section \<open>The whole run\<close>

lemma begin_flow:
  assumes "on st0 t0 (\<lambda>_. ready_at d i x) s" and "i < length (Steps (exec s))"
  shows "wp (transitionStep rs c i StepStatusRunning)
    (unless_err (\<lambda>_. flowing st0 t0) (on st0 t0 (\<lambda>_. running_step d i x))) (flowing st0 t0) s"
proof (rule on_step [OF assms(1)])
  fix e' assume m: "moved_step s i StepStatusRunning e'"
  have r: "ready_at d i x (exec s)" using assms(1) by (auto simp: on_def)
  obtain now y where y: "step_transition (Steps (exec s) ! i) StepStatusRunning now = Inr y"
      "e' = (exec s)\<lparr>Steps := (Steps (exec s))[i := y]\<rparr>"
    using m by (auto simp: moved_step_def)
  note f = step_transition_fields [OF y(1)]
  have "map sName ((Steps (exec s))[i := y]) = map sName (Steps (exec s))"
    using f(2) assms(2) by (intro nth_equalityI) (auto simp: nth_list_update)
  then show "running_step d i x e'"
    using r f y(2) assms(2) forward_at_update [of i "statuses (exec s)" StepStatusRunning]
    by (auto simp: running_step_def ready_at_def input_of_def unfinished_def)
qed simp

lemma resume_step:
  assumes "on st0 t0 (\<lambda>_. ready_at d i x) s" and "i < length (Steps (exec s))"
    and "sStatus (Steps (exec s) ! i) \<noteq> StepStatusPending"
  shows "on st0 t0 (\<lambda>_. running_step d i x) s"
  using assms by (auto simp: on_def running_step_def ready_at_def forward_at_def unfinished_def)

lemma success_flow:
  assumes "on st0 t0 (\<lambda>r e. \<exists>x. answered d i x (Some (Name (d_steps d ! i), y)) r e) s"
  shows "wp (seq_go (upd_step i (\<lambda>s. s\<lparr>sOutput := y\<rparr>)) (transitionStep rs c i StepStatusSucceeded))
    (unless_err (\<lambda>_. flowing st0 t0) (on st0 t0 (\<lambda>_. ready_at d (Suc i) y))) (flowing st0 t0) s"
proof -
  obtain e r x where e: "reads st0 t0 e r s" "data_of e = data_of (exec s)" "running_step d i x (exec s)"
      "r = Some (Name (d_steps d ! i), y)"
    using assms by (auto simp: on_def answered_def)
  let ?f = "exec s"
  have i: "i < length (Steps ?f)" and names: "map sName (Steps ?f) = map Name (d_steps d)"
    and fwd: "forward_at i (statuses ?f)" and st: "sStatus (Steps ?f ! i) = StepStatusRunning"
      "Status ?f = StatusRunning"
    using e(3) by (simp_all add: running_step_def ready_at_def)
  have at: "Name (d_steps d ! i) = sName (Steps ?f ! i)" using i names by (metis length_map nth_map)
  let ?s = "s\<lparr>exec := ?f\<lparr>Steps := (Steps ?f)[i := (Steps ?f ! i)\<lparr>sOutput := y\<rparr>]\<rparr>\<rparr>"
  have "passes_on r e e' \<and> ready_at d (Suc i) y e'" if m: "moved_step ?s i StepStatusSucceeded e'" for e'
  proof -
    have p: "passes_on r ?f e'" "sOutput (Steps e' ! i) = y" "Status e' = StatusRunning"
        "statuses e' = (statuses ?f)[i := StepStatusSucceeded]"
      using succeeds_passes [OF m i, of r] e(4) at st by simp_all
    have "forward_at (Suc i) (statuses e')" using forward_at_advance [OF fwd] i p(4) by simp
    moreover have "sStatus (Steps e' ! Suc i) \<noteq> StepStatusFailed" if "Suc i < length (Steps e')"
    proof -
      have "length (Steps e') = length (Steps ?f)" using p(4) by (metis length_list_update statuses_simps(1))
      then have "statuses e' ! Suc i = StepStatusPending" using fwd p(4) that by (simp add: forward_at_def)
      then show ?thesis using that by simp
    qed
    moreover have "map sName (Steps e') = map Name (d_steps d)" using p(1) names by (simp add: passes_on_def)
    ultimately have "ready_at d (Suc i) y e'" using p by (simp add: ready_at_def input_of_def)
    then show ?thesis using p(1) passes_on_data [OF e(2)] by simp
  qed
  moreover have "reads st0 t0 e r ?s" using e(1) by (simp add: reads_def)
  ultimately show ?thesis
    using transitionStep_reads [where s = ?s] by (auto simp: wp_seq wp_upd_step i)
qed

lemma failure_flow:
  assumes "on st0 t0 P s" and "ts \<noteq> StepStatusSucceeded"
  shows "wp (seq_go (upd_step i (\<lambda>s. s\<lparr>sError := m\<rparr>)) (transitionStep rs c i ts))
    (unless_err (\<lambda>_. flowing st0 t0) (on st0 t0 (\<lambda>_ _. True))) (flowing st0 t0) s"
proof -
  have "on st0 t0 (\<lambda>_ _. True) s" using assms(1) by (auto simp: on_def)
  from on_step [OF on_failing [OF this] assms(2)] show ?thesis
    by (auto simp: wp_seq wp_upd_step on_flowing [OF assms(1)])
qed

lemma complete_flow:
  assumes "on st0 t0 (\<lambda>_. ready_at d i x) s" and "length (d_steps d) \<le> i"
  shows "wp (seq_go (upd_exec (\<lambda>e. e\<lparr>CurrentStep := [], Output := x\<rparr>)) (transitionExec rs c StatusCompleted))
    (\<lambda>_. flowing st0 t0) (flowing st0 t0) s"
proof -
  obtain e r where e: "reads st0 t0 e r s" "data_of e = data_of (exec s)" "ready_at d i x (exec s)"
    using assms(1) by (auto simp: on_def)
  let ?s = "s\<lparr>exec := (exec s)\<lparr>CurrentStep := [], Output := x\<rparr>\<rparr>"
  have "length (Steps (exec s)) = length (d_steps d)" using e(3) by (metis ready_at_def length_map)
  then have "i = length (Steps (exec s))" using e(3) assms(2) by (simp add: ready_at_def forward_at_def)
  then have "x = input_of (exec s) (length (Steps (exec s)))" "Status (exec s) \<noteq> StatusCompleted"
    using e(3) by (simp_all add: ready_at_def)
  then have "passes_on r e e' \<and> True" if "moved_exec ?s StatusCompleted e'" for e'
    using exec_passes(2) [OF that, of "exec s"] passes_on_data [OF e(2)] by simp
  moreover have "reads st0 t0 e r ?s" using e(1) by (simp add: reads_def)
  ultimately show ?thesis
    using unless_flowing(1) [OF transitionExec_reads [where s = ?s and Q = "\<lambda>_ _. True"]]
    by (simp add: wp_seq wp_upd_exec)
qed

lemma attempts_flow:
  assumes "on st0 t0 (\<lambda>_. running_step d i x) s"
  shows "wp (runStep rs c ste eid i (d_steps d ! i) x) (\<lambda>(out, err). case err of
      None \<Rightarrow> on st0 t0 (\<lambda>r e. \<exists>x. answered d i x (Some (Name (d_steps d ! i), out)) r e)
    | Some y \<Rightarrow> on st0 t0 (\<lambda>_ _. True)) (flowing st0 t0) s"
  by (rule wp_mono [OF running_context [OF assms]]) (auto simp: on_def split: option.splits prod.splits)

lemma start_flow:
  assumes "on st0 t0 (\<lambda>_. record_ok d) s" and "Status (exec s) = StatusPending"
  shows "wp (transitionExec rs c StatusRunning) (unless_err (\<lambda>_. flowing st0 t0)
    (\<lambda>t. on st0 t0 (\<lambda>_. record_ok d) t \<and> Status (exec t) = StatusRunning)) (flowing st0 t0) s"
proof -
  have "record_ok d (exec s)" using assms(1) by (auto simp: on_def)
  then have "wp (transitionExec rs c StatusRunning) (unless_err (\<lambda>_. flowing st0 t0)
      (on st0 t0 (\<lambda>_ e. record_ok d e \<and> Status e = StatusRunning))) (flowing st0 t0) s"
    using assms record_ok_start by (intro on_exec) auto
  then show ?thesis by (rule wp_mono) (auto simp: unless_err_def on_def split: option.splits)
qed

lemma on_any: "on st0 t0 P s \<Longrightarrow> on st0 t0 (\<lambda>_ _. True) s"
  by (auto simp: on_def)

lemma on_now: "on st0 t0 (\<lambda>_. P) s \<Longrightarrow> P (exec s)"
  by (auto simp: on_def)

lemma on_record: "on st0 t0 (\<lambda>_. record_ok d) s \<Longrightarrow> P (exec s) \<Longrightarrow> on st0 t0 (\<lambda>_. P) s"
  by (auto simp: on_def)

lemma on_reverting:
  "on st0 t0 P s \<Longrightarrow> i < length (Steps (exec s)) \<Longrightarrow>
   sStatus (Steps (exec s) ! i) = StepStatusCompensating \<Longrightarrow> on st0 t0 (\<lambda>_. reverting_step i) s"
  by (auto simp: on_def reverting_step_def)

lemma on_Valid: "on st0 t0 (\<lambda>_. record_ok d) s \<Longrightarrow> Status (exec s) \<noteq> OtherStatus x"
  using record_ok_Valid [OF on_now] by fastforce

lemma lease_flow:
  assumes "on st0 t0 (\<lambda>_. record_ok d) s"
  shows "wp (do_Acquire l c eid own ttl) (\<lambda>(ok, err) t. case err of
        Some y \<Rightarrow> flowing st0 t0 t
      | None \<Rightarrow> if ok then on st0 t0 (\<lambda>_. record_ok d) t else flowing st0 t0 t) (flowing st0 t0) s"
  by (rule wp_mono [OF idle_wp [OF stable_on [OF about_record] idle_acquire assms]])
     (auto simp: on_flowing split: option.split)

lemma undo_flow:
  assumes "on st0 t0 P s"
  shows "wp (transitionStep rs c i StepStatusCompensating)
    (unless_err (\<lambda>_. flowing st0 t0) (on st0 t0 (\<lambda>_. reverting_step i))) (flowing st0 t0) s"
proof (rule on_step [OF assms])
  fix e' assume "moved_step s i StepStatusCompensating e'"
  then show "reverting_step i e'"
    using step_transition_fields(1) [of "Steps (exec s) ! i"]
    by (auto simp: moved_step_def reverting_step_def)
qed simp

lemma settle_flow:
  assumes "on st0 t0 P s"
  shows "ts \<noteq> StepStatusSucceeded \<Longrightarrow> wp (transitionStep rs c i ts)
      (unless_err (\<lambda>_. flowing st0 t0) (on st0 t0 (\<lambda>_ _. True))) (flowing st0 t0) s"
    and "to' \<noteq> StatusCompleted \<Longrightarrow> wp (transitionExec rs c to')
      (unless_err (\<lambda>_. flowing st0 t0) (on st0 t0 (\<lambda>_ _. True))) (flowing st0 t0) s"
    and "to' \<noteq> StatusCompleted \<Longrightarrow> wp (transitionExec rs c to')
      (unless_err (\<lambda>_. flowing st0 t0) (flowing st0 t0)) (flowing st0 t0) s"
  using on_step [OF assms, of ts i "\<lambda>_. True" rs c] on_exec [OF assms, of to' "\<lambda>_. True" rs c]
    unless_flowing(2) [OF on_exec [OF assms, of to' "\<lambda>_. True" rs c]] by simp_all

lemma about_answered [simp, intro]: "about_data (\<lambda>r e. \<exists>x. answered d i x y r e)"
  using about_steps(3) unfolding about_data_def by metis

interpretation course: engine_outline d "\<lambda>_. True" "\<lambda>_ _. True" "on st0 t0 (\<lambda>_. record_ok d)" "flowing st0 t0"
    "\<lambda>i x. on st0 t0 (\<lambda>_. ready_at d i x)" "\<lambda>i x. on st0 t0 (\<lambda>_. running_step d i x)"
    "\<lambda>i y. on st0 t0 (\<lambda>r e. \<exists>x. answered d i x (Some (Name (d_steps d ! i), y)) r e)"
    "\<lambda>_ _. on st0 t0 (\<lambda>_ _. True)" "\<lambda>_ _. on st0 t0 (\<lambda>_ _. True)" "\<lambda>_ _. on st0 t0 (\<lambda>_ _. True)"
    "\<lambda>i _. on st0 t0 (\<lambda>_. reverting_step i)" "\<lambda>_ _ _. on st0 t0 (\<lambda>_ _. True)" "\<lambda>_. flowing st0 t0"
  for d :: "('d, 'u) definition_" and st0 t0
proof (unfold_locales, goal_cases)
qed (auto intro!: stable_on stable_flowing lease_flow start_flow begin_flow attempts_flow success_flow
    failure_flow complete_flow invokeCompensate_flow undo_flow settle_flow
  intro: on_flowing on_any resume_step record_ok_ready on_record on_now on_reverting
  dest: on_Valid split del: if_split)

lemma first_flow:
  assumes "trace u = t0" and "begins inp (exec u)" and "record_ok d (exec u)"
  shows "wp (store_Save d' c) (unless_err (\<lambda>_. flowing (Before inp) t0) (on (Before inp) t0 (\<lambda>_. record_ok d)))
    (flowing (Before inp) t0) u"
proof -
  have reads: "reads (Before inp) t0 (exec u) None t \<and> exec t = exec u" if "put_result u (exec u) None t" for t
    using that clerical_begin [OF _ _ assms(2)] assms(1) by (auto simp: put_result_def reads_def)
  have fl: "flowing (Before inp) t0 t" if "put u (exec u) t" for t
  proof -
    obtain tr where tr: "trace t = t0 @ tr" "list_all clerical tr" "saves_of tr \<in> {[], [exec u]}"
      using \<open>put u (exec u) t\<close> assms(1) by (auto simp: put_def)
    have "flow (Before inp) tr"
    proof (cases "saves_of tr = []")
      case True
      then show ?thesis using clerical_before tr(2) by blast
    next
      case False
      then show ?thesis using clerical_begin [OF tr(2) _ assms(2)] tr(3) by auto
    qed
    then show ?thesis using tr(1) by (auto simp: flowing_def)
  qed
  have "unless_err (\<lambda>_. flowing (Before inp) t0) (on (Before inp) t0 (\<lambda>_. record_ok d)) err t"
    if "put_result u (exec u) err t" for err t
    using that reads [of t] fl [OF put_result_put [OF that]] assms(3)
    by (cases err) (auto simp: on_def)
  then show ?thesis using fl by (intro wp_mono [OF store_Save_put]) auto
qed

lemma new_execution_begins:
  "begins input (new_execution d i input now)" "record_ok d (new_execution d i input now)"
  by (auto simp: begins_def record_ok_def new_execution_def new_step_execution_def statuses_def)

text \<open>
  C17: the data flow of \<open>Execute\<close>, read off its trace: an action is called, attempt after attempt,
  with the output recorded for the step before it, or with the input of the execution; the output
  recorded for a step is what its successful attempt returned and never changes afterwards; a
  compensation is called with the output of its step; a completed execution has the output of its
  last step, any other none.
\<close>

theorem data_flow:
  "\<exists>tr. trace (snd (Execute d c input s)) = trace s @ tr \<and> flow (Before input) tr"
proof -
  have "wp (Execute d c input) (\<lambda>_. flowing (Before input) (trace s)) (flowing (Before input) (trace s)) s"
    by (rule wp_mono [OF course.Execute_outline [OF refl, where c = c and ?t0.0 = "trace s" and ?st0.0 = "Before input"]])
       (auto simp: flowing_def intro!: first_flow new_execution_begins)
  then show ?thesis by (simp add: wp_final flowing_def)
qed

text \<open>
  C15: a resumed execution goes on with the data of the record it was resumed from: its steps are
  fed from the outputs recorded before the crash.
\<close>

theorem resumed_data_flow:
  assumes "record_ok d (exec s)"
  shows "\<exists>tr. trace (snd (resume d c s)) = trace s @ tr \<and> flow (Holding (exec s) None) tr"
proof -
  have "on (Holding (exec s) None) (trace s) (\<lambda>_. record_ok d) s"
    using assms by (auto simp: on_def reads_def)
  then have "wp (resume d c) (\<lambda>_. flowing (Holding (exec s) None) (trace s))
      (flowing (Holding (exec s) None) (trace s)) s"
    by (intro course.resume_outline [where c = c]) auto
  then show ?thesis by (simp add: wp_final flowing_def)
qed

theorem resumed_data_flow_witness:
  "\<exists>tr. trace (snd (resume (order_saga None None) (Root 0) ((order_start (order_saga None None))\<lparr>exec :=
        (new_execution (order_saga None None) ''e1'' None 0)\<lparr>Status := StatusRunning\<rparr>\<rparr>))) = tr
     \<and> flow (Holding ((new_execution (order_saga None None) ''e1'' None 0)\<lparr>Status := StatusRunning\<rparr>) None) tr"
proof -
  let ?d = "order_saga None None" and ?e = "(new_execution (order_saga None None) ''e1'' None 0)\<lparr>Status := StatusRunning\<rparr>"
  have "forward_at 0 (statuses ?e)"
    by (auto simp: forward_at_def statuses_def new_execution_def new_step_execution_def unfinished_def)
  then have "record_ok ?d ?e"
    by (auto simp: record_ok_def new_execution_def new_step_execution_def)
  then have ok: "record_ok ?d (exec ((order_start ?d)\<lparr>exec := ?e\<rparr>))" by simp
  show ?thesis using resumed_data_flow [OF ok, of "Root 0"] by (simp add: order_start_def)
qed

end
