(* ===== verification/Event_History.thy ===== *)
theory Event_History
  imports Saga_Refinement
begin

text \<open>
  The stream of published events is the history of the stored records: each record that the store
  accepts is compared with the one accepted before it, and the change of status between the two is
  published, with what the new record says of it, before the next record is handed over. Nothing else
  is published.
\<close>

section \<open>The history of a trace\<close>

text \<open>Events without their time.\<close>

definition saga_event :: "'d execution \<Rightarrow> event_type \<Rightarrow> event" where
  "saga_event e ty = \<lparr>ev_Type = ty, ev_ExecutionID = ID e, ev_SagaName = SagaName e, ev_Step = [],
     ev_Error = Error e, ev_At = 0\<rparr>"

definition step_event :: "'d execution \<Rightarrow> 'd step_execution \<Rightarrow> event_type \<Rightarrow> event" where
  "step_event e x ty = \<lparr>ev_Type = ty, ev_ExecutionID = ID e, ev_SagaName = SagaName e, ev_Step = sName x,
     ev_Error = sError x, ev_At = 0\<rparr>"

fun option_list :: "'a option \<Rightarrow> 'a list" where
  "option_list None = []"
| "option_list (Some x) = [x]"

fun step_events :: "'d execution \<Rightarrow> step_status list \<Rightarrow> 'd step_execution list \<Rightarrow> event list" where
  "step_events e (st # sts) (x # xs) = (if sStatus x = st then []
     else map (step_event e x) (option_list (stepEventType (sStatus x)))) @ step_events e sts xs"
| "step_events e _ _ = []"

text \<open>What has to be published when a record follows one with the statuses \<open>q\<close>.\<close>

definition due :: "saga_state \<Rightarrow> 'd execution \<Rightarrow> event list" where
  "due q e = (if Status e \<noteq> fst q then map (saga_event e) (option_list (sagaEventType (Status e)))
     else step_events e (snd q) (Steps e))"

text \<open>
  \<open>history q p evs tr\<close> reads a trace from a point where the record accepted last has the statuses \<open>q\<close>,
  the record \<open>p\<close> is being saved and \<open>evs\<close> are due; it ends in such a point, unless the trace publishes
  anything else or saves a record before everything due is published.
\<close>

fun history :: "saga_state \<Rightarrow> 'd execution option \<Rightarrow> event list \<Rightarrow> 'd obs list
    \<Rightarrow> (saga_state \<times> 'd execution option \<times> event list) option" where
  "history q p evs [] = Some (q, p, evs)"
| "history q p evs (ObsSave e # tr) = (if evs = [] then history q (Some e) [] tr else None)"
| "history q p evs (ObsSaved r # tr) = (case (p, r) of
     (Some e, None) \<Rightarrow> history (abs_state e) None (due q e) tr | _ \<Rightarrow> history q None evs tr)"
| "history q p evs (ObsPublish ev # tr) = (case evs of
     [] \<Rightarrow> None | e # es \<Rightarrow> if ev\<lparr>ev_At := 0\<rparr> = e then history q p es tr else None)"
| "history q p evs (_ # tr) = history q p evs tr"

lemma history_append:
  "history q p evs (xs @ ys) = (case history q p evs xs of None \<Rightarrow> None | Some (q', p', evs') \<Rightarrow> history q' p' evs' ys)"
  by (induction q p evs xs rule: history.induct) (auto split: option.split list.split)

fun neutral :: "'d obs \<Rightarrow> bool" where
  "neutral (ObsSave e) = False"
| "neutral (ObsSaved r) = False"
| "neutral (ObsPublish ev) = False"
| "neutral _ = True"

lemma history_neutral: "list_all neutral tr \<Longrightarrow> history q p evs tr = Some (q, p, evs)"
proof (induction tr)
  case (Cons x tr)
  then show ?case by (cases x) simp_all
qed simp

lemma spans_and_calls_neutral: "is_span x \<or> is_callback x \<Longrightarrow> neutral x"
  by (cases x) auto

section \<open>What is due after a transition\<close>

lemma due_unchanged: "abs_state e = q \<Longrightarrow> due q e = []"
proof -
  have "step_events e (map sStatus xs) xs = []" for xs :: "'a step_execution list"
    by (induction xs) auto
  then show "abs_state e = q \<Longrightarrow> due q e = []" by (auto simp: due_def abs_state_def statuses_def)
qed

lemma due_exec:
  assumes "exec_transition e to' now = Inr e'"
  shows "due (abs_state e) e' = map (saga_event e') (option_list (sagaEventType to'))"
proof -
  have "canTransitionStatus (Status e) to'" using assms exec_transition_Inr_iff by blast
  then have "Status e \<noteq> to'" by (auto simp: canTransitionStatus_def elim: statusTransitions.elims)
  then show ?thesis using exec_transition_fields(1) [OF assms] by (simp add: due_def abs_state_def)
qed

lemma step_events_update:
  "i < length xs \<Longrightarrow> sStatus x \<noteq> sStatus (xs ! i) \<Longrightarrow>
   step_events e (map sStatus xs) (xs[i := x]) = map (step_event e x) (option_list (stepEventType (sStatus x)))"
proof (induction xs arbitrary: i)
  case (Cons y ys)
  have "step_events e (map sStatus xs) xs = []" for xs :: "'a step_execution list"
    by (induction xs) auto
  then show ?case using Cons by (cases i) auto
qed simp

lemma due_step:
  assumes "step_transition (Steps e ! i) to' now = Inr x" and "i < length (Steps e)"
  shows "due (abs_state e) (e\<lparr>Steps := (Steps e)[i := x]\<rparr>) =
    map (step_event (e\<lparr>Steps := (Steps e)[i := x]\<rparr>) x) (option_list (stepEventType to'))"
proof -
  have "canTransitionStepStatus (sStatus (Steps e ! i)) to'" using assms(1) step_transition_Inr_iff by blast
  then have "to' \<noteq> sStatus (Steps e ! i)" by (auto simp: canTransitionStepStatus_def elim: stepStatusTransitions.elims)
  then show ?thesis
    using step_transition_fields(1) [OF assms(1)] assms(2) step_events_update [of i "Steps e" x]
    by (simp add: due_def abs_state_def statuses_def)
qed

section \<open>Saving and telling\<close>

text \<open>
  Read from the statuses \<open>q\<close> on, the trace since \<open>T\<close> ends with a record of the statuses \<open>q'\<close> accepted
  and \<open>evs\<close> due (\<open>owing\<close>), or breaks off in a save (\<open>told_by\<close>).
\<close>

definition owing :: "saga_state \<Rightarrow> 'd obs list \<Rightarrow> saga_state \<Rightarrow> event list \<Rightarrow> ('d, 'u) machine \<Rightarrow> bool" where
  "owing q T q' evs t \<longleftrightarrow> (\<exists>tr. trace t = T @ tr \<and> history q None [] tr = Some (q', None, evs))"

definition told_by :: "saga_state \<Rightarrow> 'd obs list \<Rightarrow> ('d, 'u) machine \<Rightarrow> bool" where
  "told_by q T t \<longleftrightarrow> (\<exists>tr q' p. trace t = T @ tr \<and> history q None [] tr = Some (q', p, []))"

definition up_to_date :: "saga_state \<Rightarrow> 'd obs list \<Rightarrow> ('d, 'u) machine \<Rightarrow> bool" where
  "up_to_date q T t \<longleftrightarrow> owing q T (abs_state (exec t)) [] t"

lemma owing_told: "owing q T q' [] t \<Longrightarrow> told_by q T t"
  by (auto simp: owing_def told_by_def)

lemma up_to_date_told: "up_to_date q T t \<Longrightarrow> told_by q T t"
  unfolding up_to_date_def by (rule owing_told)

lemma owing_more:
  "owing q T q' evs s \<Longrightarrow> trace t = trace s @ tr \<Longrightarrow> history q' None evs tr = Some (q'', None, evs') \<Longrightarrow>
   owing q T q'' evs' t"
  by (auto simp: owing_def history_append)

definition silent :: "('d, 'u) machine \<Rightarrow> ('d, 'u) machine \<Rightarrow> bool" where
  "silent s t \<longleftrightarrow> abs_state (exec t) = abs_state (exec s) \<and> (\<exists>tr. trace t = trace s @ tr \<and> list_all neutral tr)"

interpretation silent_body: body_frame silent neutral
proof unfold_locales
  fix s :: "('a, 'b) machine" and x :: "'a obs"
  assume "neutral x"
  then show "silent s (s\<lparr>trace := trace s @ [x]\<rparr>)" by (simp add: silent_def)
qed (auto simp: silent_def abs_state_def statuses_same simp del: statuses_simps)

lemma silent_owing: "owing q T q' evs s \<Longrightarrow> silent s t \<Longrightarrow> owing q T q' evs t"
  by (auto simp: silent_def intro: owing_more history_neutral)

lemma silent_told: "told_by q T s \<Longrightarrow> silent s t \<Longrightarrow> told_by q T t"
  by (fastforce simp: told_by_def silent_def history_append history_neutral)

lemma silent_up_to_date: "up_to_date q T s \<Longrightarrow> silent s t \<Longrightarrow> up_to_date q T t"
  using silent_owing [of q T _ "[]"] by (simp add: up_to_date_def silent_def)

lemma up_to_date_wp:
  assumes "keeps silent m" and "up_to_date q T s"
  shows "wp m (\<lambda>_. up_to_date q T) (told_by q T) s"
proof -
  have "up_to_date q T (snd (m s))" using assms silent_up_to_date unfolding keeps_def by blast
  then have "wp m (\<lambda>_. up_to_date q T) (up_to_date q T) s" by (simp add: wp_final)
  then show ?thesis by (rule wp_mono) (auto intro: up_to_date_told)
qed

text \<open>A save that is answered without an error makes the change due.\<close>

definition accepted :: "saga_state \<Rightarrow> 'd obs list \<Rightarrow> saga_state \<Rightarrow> 'd execution \<Rightarrow> gerr option
    \<Rightarrow> ('d, 'u) machine \<Rightarrow> bool" where
  "accepted q T q' e err t \<longleftrightarrow> exec t = e
     \<and> (case err of None \<Rightarrow> owing q T (abs_state e) (due q' e) t | Some x \<Rightarrow> owing q T q' [] t)"

lemma store_Save_accepted:
  assumes "owing q T q' [] s"
  shows "wp (store_Save d c) (accepted q T q' (exec s)) (told_by q T) s"
proof -
  have "owing q T (abs_state (exec s)) (due q' (exec s)) t" if "trace t = trace s @ [ObsSave (exec s), ObsSaved None]"
    for t :: "('a, 'b) machine" using owing_more [OF assms that] by simp
  moreover have "owing q T q' [] t" if "trace t = trace s @ [ObsSave (exec s), ObsSaved (Some x)]"
    for x and t :: "('a, 'b) machine" using owing_more [OF assms that] by simp
  moreover have "told_by q T t" if "trace t = trace s @ [ObsSave (exec s)]" for t :: "('a, 'b) machine"
    using assms that by (force simp: owing_def told_by_def history_append)
  ultimately show ?thesis
    unfolding store_Save_def
    by (auto simp: wp_bind [of "gets f" for f] wp_gets wp_seq wp_emit wp_bind [of "in_world m" for m]
        wp_in_world wp_ret accepted_def intro!: wp_callback split: option.split)
qed

lemma save_accepted:
  assumes "owing q T q' [] s"
  shows "wp (save rs c) (accepted q T q' (exec s)) (told_by q T) s"
proof (cases "locker rs")
  case None
  then show ?thesis using store_Save_accepted [OF assms] by (simp add: save_def)
next
  case (Some l)
  have no: "owing q T q' [] t" if "trace t = trace s @ tr" "list_all neutral tr" for tr and t :: "('a, 'b) machine"
    using owing_more [OF assms that(1)] history_neutral [OF that(2)] by blast
  have go: "wp (case err of Some x \<Rightarrow> ret (Some (renew_error i x))
        | None \<Rightarrow> if \<not> ok then ret (Some (ExecutionLockedError i)) else store_Save (rs_def rs) c)
      (accepted q T q' (exec s)) (told_by q T) t"
    if t: "exec t = exec s" "trace t = trace s @ [ObsAcquire i own, ObsAcquired b]" for i own b ok err and t :: "('a, 'b) machine"
  proof -
    have o: "owing q T q' [] t" by (rule no [OF t(2)]) simp
    show ?thesis
      using o t(1) store_Save_accepted [OF o] by (auto simp: wp_ret accepted_def split: option.split)
  qed
  show ?thesis
    unfolding save_def Some option.case wp_bind [of "gets f" for f] wp_gets
      wp_bind [of "do_Acquire l c i own ttl" for i own ttl]
  proof (rule wp_mono [OF do_Acquire_said [of l c _ _ _ s]], goal_cases)
    case (1 p t)
    then show ?case using go [where err = "snd p" and ok = "fst p"] by (auto simp: case_prod_unfold)
  next
    case (2 t)
    then show ?case using owing_told [OF no] by fastforce
  qed
qed

section \<open>The transitions\<close>

lemma publish_pays:
  assumes "owing q T q' [ev\<lparr>ev_At := 0\<rparr>] s" and "d_publisher (rs_def rs) \<noteq> None"
  shows "wp (publish rs c ev) (\<lambda>_ t. exec t = exec s \<and> owing q T q' [] t) (\<lambda>_. False) s"
proof -
  have "owing q T q' [] t" if "trace t = trace s @ [ObsPublish ev]" for t :: "('a, 'b) machine"
    using owing_more [OF assms(1) that] by simp
  moreover have said: "wp (in_world m) (\<lambda>_ t. exec t = exec s \<and> trace t = trace s @ [ObsPublish ev])
      (\<lambda>t. exec t = exec s \<and> trace t = trace s @ [ObsPublish ev]) (s\<lparr>trace := trace s @ [ObsPublish ev]\<rparr>)" for m
    unfolding wp_in_world by (rule wp_callback) simp_all
  ultimately show ?thesis
    using assms(2) by (auto simp: publish_def wp_seq wp_emit wp_recovered intro!: wp_mono [OF said])
qed

text \<open>The notifications publish what is due, and then only speak to the other observers.\<close>

lemma others_silent:
  "keeps silent (logEvent rs c ev)" "keeps silent (incEventCounter rs ev)" "keeps silent (observeDuration rs n k ls)"
  unfolding logEvent_def incEventCounter_def observeDuration_def Let_def
  by (intro silent_body.body_rules; simp)+

lemma publish_then:
  assumes "owing q T (abs_state (exec s)) [ev\<lparr>ev_At := 0\<rparr>] s" and "d_publisher (rs_def rs) \<noteq> None" and "keeps silent m"
  shows "wp (seq_go (publish rs c ev) m) (\<lambda>_. up_to_date q T) (told_by q T) s"
  unfolding wp_seq
  by (rule wp_mono [OF publish_pays [OF assms(1,2)]]) (auto simp: up_to_date_def intro!: up_to_date_wp [OF assms(3)])

lemma notifyExec_pays:
  assumes "owing q T (abs_state (exec s)) (map (saga_event (exec s)) (option_list (sagaEventType to'))) s"
    and "d_publisher (rs_def rs) \<noteq> None"
  shows "wp (notifyExec rs c to') (\<lambda>_. up_to_date q T) (told_by q T) s"
proof (cases "sagaEventType to'")
  case None
  then show ?thesis using assms(1) by (simp add: notifyExec_def wp_ret up_to_date_def)
next
  case (Some ty)
  let ?s = "s\<lparr>world := tick (world s)\<rparr>"
  let ?ev = "\<lambda>at. \<lparr>ev_Type = ty, ev_ExecutionID = ID (exec s), ev_SagaName = SagaName (exec s),
      ev_Step = [], ev_Error = Error (exec s), ev_At = at\<rparr>"
  have "owing q T (abs_state (exec ?s)) [(?ev at)\<lparr>ev_At := 0\<rparr>] ?s" for at
    using assms(1) Some by (simp add: owing_def saga_event_def)
  note pay = publish_then [OF this assms(2)]
  show ?thesis
    using Some
    by (simp add: notifyExec_def Let_def wp_bind [of "gets f" for f] wp_gets wp_bind [of "in_world m" for m] wp_in_world
        wp_time_Now)
      (intro pay silent_body.body_rules others_silent;
       auto split: option.split bool.split intro!: silent_body.body_rules others_silent)
qed

lemma notifyStep_pays:
  assumes "owing q T (abs_state (exec s)) (map (step_event (exec s) (Steps (exec s) ! i)) (option_list (stepEventType ts))) s"
    and "d_publisher (rs_def rs) \<noteq> None"
  shows "wp (notifyStep rs c i ts) (\<lambda>_. up_to_date q T) (told_by q T) s"
proof (cases "stepEventType ts")
  case None
  then show ?thesis using assms(1) by (simp add: notifyStep_def wp_ret up_to_date_def)
next
  case (Some ty)
  let ?s = "s\<lparr>world := tick (world s)\<rparr>"
  let ?ev = "\<lambda>at. \<lparr>ev_Type = ty, ev_ExecutionID = ID (exec s), ev_SagaName = SagaName (exec s),
      ev_Step = sName (Steps (exec s) ! i), ev_Error = sError (Steps (exec s) ! i), ev_At = at\<rparr>"
  have "owing q T (abs_state (exec ?s)) [(?ev at)\<lparr>ev_At := 0\<rparr>] ?s" for at
    using assms(1) Some by (simp add: owing_def step_event_def)
  note pay = publish_then [OF this assms(2)]
  show ?thesis
    using Some
    by (simp add: notifyStep_def publishAndLog_def wp_bind [of "gets f" for f] wp_gets wp_bind [of "in_world m" for m]
        wp_in_world wp_time_Now)
      (intro pay silent_body.body_rules others_silent)
qed

lemma save_and_pay:
  assumes "owing q T q' [] s" and "\<And>t. exec t = exec s \<Longrightarrow> owing q T (abs_state (exec t)) (due q' (exec t)) t \<Longrightarrow>
    wp m (\<lambda>_. up_to_date q T) (told_by q T) t"
    and "\<And>t. exec t = exec s \<Longrightarrow> wp m (\<lambda>_ u. Status (exec u) = Status (exec s)) (\<lambda>_. True) t"
  shows "wp (bind_go (save rs c) (\<lambda>err. case err of Some x \<Rightarrow> ret (Some x) | None \<Rightarrow> seq_go m (ret None)))
    (unless_err (\<lambda>_. told_by q T) (\<lambda>t. up_to_date q T t \<and> Status (exec t) = Status (exec s))) (told_by q T) s"
proof -
  have tell: "wp m (\<lambda>_ t. up_to_date q T t \<and> Status (exec t) = Status (exec s)) (told_by q T) t"
    if "exec t = exec s" "owing q T (abs_state (exec t)) (due q' (exec t)) t" for t
    by (rule wp_mono [OF wp_conj [OF assms(2) [OF that] assms(3) [OF that(1)]]]) auto
  then show ?thesis
    unfolding wp_bind
    by (intro wp_mono [OF save_accepted [OF assms(1)]])
       (auto simp: accepted_def wp_ret wp_seq intro!: wp_mono [OF tell] owing_told split: option.splits)
qed

definition at_status :: "saga_state \<Rightarrow> 'd obs list \<Rightarrow> status \<Rightarrow> ('d, 'u) machine \<Rightarrow> bool" where
  "at_status q T st t \<longleftrightarrow> up_to_date q T t \<and> Status (exec t) = st"

abbreviation arrives :: "saga_state \<Rightarrow> 'd obs list \<Rightarrow> status \<Rightarrow> gerr option \<Rightarrow> ('d, 'u) machine \<Rightarrow> bool" where
  "arrives q T st \<equiv> unless_err (\<lambda>_. told_by q T) (at_status q T st)"

lemma at_status_told: "at_status q T st t \<Longrightarrow> told_by q T t"
  by (simp add: at_status_def up_to_date_told)

lemma quiet_status: "keeps quiet m \<Longrightarrow> Status (exec t) = st \<Longrightarrow> wp m (\<lambda>_ u. Status (exec u) = st) (\<lambda>_. True) t"
  by (auto simp: keeps_def quiet_def wp_def split: prod.split outcome.split) (metis snd_conv)

lemma transitionExec_arrives:
  assumes "at_status q T st s" and "d_publisher (rs_def rs) \<noteq> None"
  shows "wp (transitionExec rs c to') (arrives q T to') (told_by q T) s"
proof (cases "exec_transition (exec s) to' (clock (tick (world s)))")
  case (Inl err)
  then show ?thesis using at_status_told [OF assms(1)] by (simp add: transitionExec_def wp_simps told_by_def)
next
  case (Inr e)
  let ?s = "s\<lparr>world := tick (world s), exec := e\<rparr>"
  have o: "owing q T (abs_state (exec s)) [] ?s" using assms(1) by (simp add: at_status_def up_to_date_def owing_def)
  have "wp (bind_go (save rs c) (\<lambda>err. case err of
      Some x \<Rightarrow> ret (Some x) | None \<Rightarrow> seq_go (notifyExec rs c to') (ret None)))
      (unless_err (\<lambda>_. told_by q T) (\<lambda>t. up_to_date q T t \<and> Status (exec t) = Status (exec ?s))) (told_by q T) ?s"
    by (rule save_and_pay [OF o])
       (use due_exec [OF Inr] assms(2) in \<open>auto intro: notifyExec_pays quiet_status [OF notifyExec_quiet]\<close>)
  then show ?thesis
    using Inr exec_transition_fields(1) [OF Inr]
    by (simp add: transitionExec_def wp_bind [of "in_world m" for m] wp_in_world wp_time_Now
        wp_bind [of "gets f" for f] wp_gets wp_seq wp_upd_exec at_status_def [abs_def])
qed

lemma transitionStep_arrives:
  assumes "at_status q T st s" and "d_publisher (rs_def rs) \<noteq> None"
  shows "wp (transitionStep rs c i ts) (arrives q T st) (told_by q T) s"
proof (cases "i < length (Steps (exec s))")
  case i: True
  show ?thesis
  proof (cases "step_transition (Steps (exec s) ! i) ts (clock (tick (world s)))")
    case (Inl err)
    then show ?thesis using at_status_told [OF assms(1)] i by (simp add: transitionStep_def wp_simps told_by_def)
  next
    case (Inr x)
    let ?s = "s\<lparr>world := tick (world s), exec := (exec s)\<lparr>Steps := (Steps (exec s))[i := x]\<rparr>\<rparr>"
    have o: "owing q T (abs_state (exec s)) [] ?s" using assms(1) by (simp add: at_status_def up_to_date_def owing_def)
    have "wp (bind_go (save rs c) (\<lambda>err. case err of
        Some x \<Rightarrow> ret (Some x) | None \<Rightarrow> seq_go (notifyStep rs c i ts) (ret None)))
        (unless_err (\<lambda>_. told_by q T) (\<lambda>t. up_to_date q T t \<and> Status (exec t) = Status (exec ?s))) (told_by q T) ?s"
      by (rule save_and_pay [OF o])
         (use due_step [OF Inr i] assms(2) i in \<open>auto intro: notifyStep_pays quiet_status [OF notifyStep_quiet]\<close>)
    then show ?thesis
      using Inr i assms(1)
      by (simp add: transitionStep_def wp_bind [of "in_world m" for m] wp_in_world wp_time_Now
          wp_bind [of "step_at i"] wp_step_at wp_seq wp_upd_step at_status_def [abs_def])
  qed
next
  case False
  then show ?thesis using at_status_told [OF assms(1)] by (simp add: transitionStep_def wp_simps told_by_def)
qed

section \<open>The engine\<close>

lemma at_status_exec [simp]:
  "abs_state e = abs_state (exec s) \<Longrightarrow> at_status q T st (s\<lparr>exec := e\<rparr>) = at_status q T st s"
  by (simp add: at_status_def up_to_date_def owing_def) (auto simp: abs_state_def)

lemma aside_neutral: "aside x \<Longrightarrow> neutral x"
  by (cases x) auto

lemma idle_silent: "idle s t \<Longrightarrow> silent s t"
  using core_abs_state aside_neutral by (fastforce simp: idle_def silent_def elim: list.pred_mono_strong)

lemma silent_at_status: "at_status q T st s \<Longrightarrow> silent s t \<Longrightarrow> at_status q T st t"
  using silent_up_to_date [of q T s t] by (simp add: at_status_def silent_def abs_state_def)

lemma at_status_wp:
  assumes "keeps silent m" and "at_status q T st s"
  shows "wp m (\<lambda>_. at_status q T st) (told_by q T) s"
proof -
  have "at_status q T st (snd (m s))" using assms silent_at_status unfolding keeps_def by blast
  then have "wp m (\<lambda>_. at_status q T st) (at_status q T st) s" by (simp add: wp_final)
  then show ?thesis by (rule wp_mono) (auto intro: at_status_told)
qed

definition known_status :: "saga_state \<Rightarrow> 'd obs list \<Rightarrow> ('d, 'u) machine \<Rightarrow> bool" where
  "known_status q T s \<longleftrightarrow> up_to_date q T s \<and> Valid (Status (exec s))"

lemma known_at_status: "known_status q T s \<Longrightarrow> Status (exec s) = st \<Longrightarrow> at_status q T st s"
  "at_status q T st s \<Longrightarrow> Valid st \<Longrightarrow> known_status q T s \<and> Status (exec s) = st"
  by (auto simp: known_status_def at_status_def)

lemma known_told: "known_status q T s \<Longrightarrow> told_by q T s"
  by (simp add: known_status_def up_to_date_told)

lemma known_Valid: "known_status q T s \<Longrightarrow> Valid (Status (exec s))"
  by (simp add: known_status_def)

lemma transitionExec_tells:
  assumes "at_status q T st s" and "d_publisher (rs_def rs) \<noteq> None"
  shows "wp (transitionExec rs c to') (\<lambda>_. told_by q T) (told_by q T) s"
    and "wp (transitionExec rs c to') (unless_err (\<lambda>_. told_by q T) (told_by q T)) (told_by q T) s"
  by (rule wp_mono [OF transitionExec_arrives [OF assms]];
      auto simp: unless_err_def at_status_told split: option.splits)+

lemma stories_stable:
  "stable (told_by q T) (at_status q T st)" "stable (told_by q T) (told_by q T)" "stable (told_by q T) (known_status q T)"
  using idle_silent silent_at_status silent_told at_status_told known_told silent_up_to_date core_same(1)
  unfolding stable_def known_status_def idle_def by metis+

lemma events_outline:
  assumes "d_publisher d \<noteq> None"
  shows "engine_outline d (\<lambda>_. True) (\<lambda>_ _. True) (known_status q T) (told_by q T)
    (\<lambda>_ _. at_status q T StatusRunning) (\<lambda>_ _. at_status q T StatusRunning)
    (\<lambda>_ _. at_status q T StatusRunning) (\<lambda>_ _. at_status q T StatusRunning)
    (\<lambda>_ _. at_status q T StatusRunning) (\<lambda>_ _. at_status q T StatusCompensating)
    (\<lambda>_ _. at_status q T StatusCompensating) (\<lambda>_ _ _. at_status q T StatusCompensating) (\<lambda>_. told_by q T)"
proof (unfold_locales, goal_cases)
  case (7 c rs n s c' fin t)
  then show ?case by simp
next
  case (9 c y r at)
  then show ?case by simp
next
  case (10 s l c eid own ttl)
  show ?case
    using wp_mono [OF idle_wp [OF stories_stable(3) idle_acquire 10]]
    by (auto simp: known_told split: option.split)
next
  case (13 s rs c)
  show ?case
    using 13 assms known_at_status(2) [of q T StatusRunning]
    by (intro wp_mono [OF transitionExec_arrives [OF known_at_status(1) [OF 13(1,2)]]])
       (auto simp: unless_err_def split: option.splits)
qed (use assms in \<open>auto simp: stories_stable at_status_told known_told spans_and_calls_neutral
       wp_seq wp_upd_step wp_upd_exec intro!: transitionStep_arrives transitionExec_arrives
       transitionExec_tells wp_mono [OF at_status_wp [OF silent_body.runStep_keeps]]
       at_status_wp silent_body.invokeCompensate_keeps intro: known_at_status(1) dest: known_Valid split: option.split\<close>)

lemma new_execution_history:
  assumes "d_publisher d \<noteq> None" and "trace s = T"
  shows "wp (store_Save d c) (unless_err (\<lambda>_. told_by (saga_start (length (d_steps d))) T)
      (known_status (saga_start (length (d_steps d))) T)) (told_by (saga_start (length (d_steps d))) T)
    (s\<lparr>world := w, exec := new_execution d i input now\<rparr>)"
proof -
  let ?s = "s\<lparr>world := w, exec := new_execution d i input now\<rparr>" and ?q = "saga_start (length (d_steps d))"
  have st: "abs_state (exec ?s) = ?q" "Valid (Status (exec ?s))"
    using abs_state_new [of d i input now] by (simp_all add: new_execution_def)
  have "owing ?q T ?q [] ?s" using assms(2) by (simp add: owing_def)
  from store_Save_accepted [OF this, of d c] show ?thesis
    by (rule wp_mono)
       (use st due_unchanged [OF st(1)] in \<open>auto simp: accepted_def unless_err_def known_status_def up_to_date_def
         intro: owing_told split: option.splits\<close>)
qed

text \<open>
  C11: with a publisher, the stream of events \<open>Execute\<close> publishes is exactly the history of the records
  the store accepted, however the run goes and ends. Between two records accepted one after the other,
  the one status that has changed is published, once, with the identity and the message the new record
  carries - for the execution if its status has changed, for the step otherwise - and before the next
  record is handed to the store; the change to \<open>COMPENSATING\<close> has no event; and nothing is published that
  is not such a change.
\<close>

theorem events_are_the_history:
  assumes "d_publisher d \<noteq> None"
  shows "\<exists>tr q p. trace (snd (Execute d c input s)) = trace s @ tr
    \<and> history (saga_start (length (d_steps d))) None [] tr = Some (q, p, [])"
proof -
  let ?d = "snd (Freeze d)" and ?q = "saga_start (length (d_steps d))"
  have d: "d_publisher ?d \<noteq> None" "length (d_steps ?d) = length (d_steps d)"
    using assms by (simp_all add: Freeze_def')
  have before: "told_by ?q (trace s) (s\<lparr>world := w\<rparr>)" for w
    by (auto simp: told_by_def)
  have "wp (Execute d c input) (\<lambda>(err, d') t. told_by ?q (trace s) t \<and> d' = ?d) (told_by ?q (trace s)) s"
    by (rule engine_outline.Execute_outline [OF events_outline [OF d(1)] refl TrueI before])
       (use new_execution_history [OF d(1) refl] d(2) in simp)
  then have "wp (Execute d c input) (\<lambda>_. told_by ?q (trace s)) (told_by ?q (trace s)) s"
    by (rule wp_mono) (auto split: prod.splits)
  then show ?thesis unfolding wp_final told_by_def .
qed

definition published_saga :: "(unit, unit) definition_" where
  "published_saga = (order_saga (Some Canceled) None)\<lparr>d_publisher := Some \<lparr>Publish = (\<lambda>c ev. panic ''down'')\<rparr>\<rparr>"

theorem events_are_the_history_witness:
  "\<exists>tr q p. trace (snd (Execute published_saga (Root 0) None (order_start published_saga))) = tr
    \<and> history (saga_start 2) None [] tr = Some (q, p, [])"
proof -
  have "d_publisher published_saga \<noteq> None" "length (d_steps published_saga) = 2"
    by (simp_all add: published_saga_def order_saga_def)
  moreover have "trace (order_start published_saga) = []" by (simp add: order_start_def)
  ultimately show ?thesis
    using events_are_the_history [of published_saga "Root 0" None "order_start published_saga"] by simp
qed

end
