(* ===== verification/Float64.thy ===== *)
theory Float64
  imports Complex_Main "HOL-Library.Log_Nat"
begin

text \<open>
  Go's \<open>float64\<close> as far as \<open>retry.go\<close> computes with it: the finite values as rationals, infinities and
  the NaN; sums, products and conversions from integers rounded to the nearest value of 53 bits
  (ties to even), subnormal values included. The two zeros are one value here: the code compares
  and converts, which does not tell them apart. Rounding is executable, monotone, the identity on
  the values of the type, and off by half a unit in the last place at most.
\<close>

section \<open>Rounding to an integer\<close>

definition round_even :: "rat \<Rightarrow> int" where
  "round_even x = (let n = \<lfloor>x\<rfloor>; r = x - of_int n in
     if r < 1 / 2 then n else if 1 / 2 < r then n + 1 else if even n then n else n + 1)"

lemma round_even_error: "\<bar>of_int (round_even x) - x\<bar> \<le> 1 / 2"
proof -
  have "of_int \<lfloor>x\<rfloor> \<le> x" "x < of_int \<lfloor>x\<rfloor> + 1" by linarith+
  then show ?thesis by (auto simp: round_even_def Let_def abs_le_iff)
qed

lemma round_even_int [simp]: "round_even (of_int n) = n"
  by (simp add: round_even_def)

lemma round_even_bounds: "\<lfloor>x\<rfloor> \<le> round_even x" "round_even x \<le> \<lfloor>x\<rfloor> + 1"
  by (auto simp: round_even_def Let_def)

lemma round_even_mono:
  assumes "x \<le> y"
  shows "round_even x \<le> round_even y"
proof (cases "\<lfloor>x\<rfloor> = \<lfloor>y\<rfloor>")
  case True
  then show ?thesis using assms by (auto simp: round_even_def Let_def)
next
  case False
  then have "\<lfloor>x\<rfloor> + 1 \<le> \<lfloor>y\<rfloor>" using floor_mono [OF assms] by simp
  then show ?thesis using round_even_bounds(2) [of x] round_even_bounds(1) [of y] by linarith
qed

lemma round_even_minus: "round_even (- x) = - round_even x"
proof (cases "x = of_int \<lfloor>x\<rfloor>")
  case True
  then have "- x = of_int (- \<lfloor>x\<rfloor>)" by simp
  then show ?thesis using True round_even_int by metis
next
  case False
  define n r where "n = \<lfloor>x\<rfloor>" and "r = x - of_int n"
  have "\<lfloor>- x\<rfloor> = - n - 1" using False unfolding n_def by linarith
  moreover have "- x - of_int (- n - 1) = 1 - r" by (simp add: r_def)
  ultimately have "round_even (- x) = (if 1 - r < 1 / 2 then - n - 1 else if 1 / 2 < 1 - r then - n
      else if even (- n - 1) then - n - 1 else - n)"
    by (simp add: round_even_def Let_def)
  moreover have "round_even x = (if r < 1 / 2 then n else if 1 / 2 < r then n + 1 else if even n then n else n + 1)"
    by (simp add: round_even_def Let_def n_def r_def)
  moreover have "1 - r < 1 / 2 \<longleftrightarrow> 1 / 2 < r" "1 / 2 < 1 - r \<longleftrightarrow> r < 1 / 2" by linarith+
  moreover have "even (- n - 1) \<longleftrightarrow> odd n" by simp
  ultimately show ?thesis by (simp only: split: if_split) auto
qed

section \<open>Binades\<close>

definition pow2 :: "int \<Rightarrow> rat" where
  "pow2 e = (if 0 \<le> e then 2 ^ nat e else 1 / 2 ^ nat (- e))"

lemma pow2_powr: "pow2 e = 2 powi e"
  by (simp add: pow2_def power_int_def inverse_eq_divide power_one_over)

lemma pow2_pos [simp]: "0 < pow2 e" "pow2 e \<noteq> 0" "0 \<le> pow2 e"
  by (simp_all add: pow2_powr)

lemma pow2_add: "pow2 (a + b) = pow2 a * pow2 b"
  by (simp add: pow2_powr power_int_add)

lemma pow2_nat: "pow2 (int n) = 2 ^ n"
  by (simp add: pow2_def)

lemma pow2_less [simp]: "pow2 a < pow2 b \<longleftrightarrow> a < b" and pow2_le [simp]: "pow2 a \<le> pow2 b \<longleftrightarrow> a \<le> b"
proof -
  have less: "pow2 m < pow2 n" if "m < n" for m n
    using power_int_strict_increasing [OF that, of "2 :: rat"] by (simp add: pow2_powr)
  show "pow2 a < pow2 b \<longleftrightarrow> a < b" "pow2 a \<le> pow2 b \<longleftrightarrow> a \<le> b"
    using less [of a b] less [of b a] by (cases a b rule: linorder_cases; force)+
qed

text \<open>The binade of a positive value: the exponent of its leading bit.\<close>

definition binade :: "rat \<Rightarrow> int" where
  "binade x = (case quotient_of x of (p, q) \<Rightarrow>
     let k = bitlen p - bitlen q in if pow2 k \<le> x then k else k - 1)"

lemma bitlen_within:
  assumes "0 < p"
  shows "pow2 (bitlen p - 1) \<le> of_int p" "of_int p < pow2 (bitlen p)"
proof -
  have b: "2 ^ nat (bitlen p - 1) \<le> p" "p < 2 ^ nat (bitlen p)" "0 < bitlen p"
    using bitlen_bounds [OF assms] bitlen_eq_zero_iff [of p] bitlen_nonneg [of p] assms by simp_all
  have "(of_int (2 ^ nat (bitlen p - 1)) :: rat) \<le> of_int p" "(of_int p :: rat) < of_int (2 ^ nat (bitlen p))"
    using b(1,2) by (simp_all only: of_int_le_iff of_int_less_iff)
  then show "pow2 (bitlen p - 1) \<le> of_int p" "of_int p < pow2 (bitlen p)"
    using b(3) by (simp_all add: pow2_def)
qed

lemma binade_bounds:
  assumes "0 < x"
  shows "pow2 (binade x) \<le> x" "x < pow2 (binade x + 1)"
proof -
  obtain p q where q: "quotient_of x = (p, q)" by (cases "quotient_of x")
  have x: "x = of_int p / of_int q" "0 < q" using q quotient_of_div quotient_of_denom_pos by blast+
  then have p: "0 < p" using assms by (simp add: zero_less_divide_iff)
  let ?k = "bitlen p - bitlen q"
  have "pow2 (bitlen p - 1) / pow2 (bitlen q) \<le> x"
    using bitlen_within [OF p] bitlen_within [OF x(2)] p x(2) unfolding x(1)
    by (intro frac_le) simp_all
  moreover have "x < pow2 (bitlen p) / pow2 (bitlen q - 1)"
    using bitlen_within [OF p] bitlen_within [OF x(2)] p x(2) unfolding x(1)
    by (intro frac_less) simp_all
  ultimately have "pow2 (?k - 1) \<le> x" "x < pow2 (?k + 1)"
    using pow2_add [of "?k - 1" "bitlen q"] pow2_add [of "?k + 1" "bitlen q - 1"]
    by (simp_all add: field_simps)
  then show "pow2 (binade x) \<le> x" "x < pow2 (binade x + 1)"
    by (auto simp: binade_def q Let_def)
qed

lemma binade_le:
  assumes "0 < x" and "x < pow2 e"
  shows "binade x < e"
  using binade_bounds(1) [OF assms(1)] assms(2) pow2_less by (meson le_less_trans)

lemma binade_ge:
  assumes "pow2 e \<le> x"
  shows "e \<le> binade x"
proof -
  have "0 < x" using assms pow2_pos(1) by (meson less_le_trans)
  from binade_bounds(2) [OF this] assms have "pow2 e < pow2 (binade x + 1)" by (rule le_less_trans [rotated])
  then show ?thesis by simp
qed

section \<open>Rounding to 53 bits\<close>

text \<open>The exponent of the last bit, and the rounded value, before a check for overflow.\<close>

definition last_bit :: "rat \<Rightarrow> int" where
  "last_bit x = max (- 1074) (binade \<bar>x\<bar> - 52)"

definition rd :: "rat \<Rightarrow> rat" where
  "rd x = (if x = 0 then 0 else of_int (round_even (x / pow2 (last_bit x))) * pow2 (last_bit x))"

lemma rd_zero [simp]: "rd 0 = 0"
  by (simp add: rd_def)

lemma rd_minus: "rd (- x) = - rd x"
proof -
  have "last_bit (- x) = last_bit x" by (simp add: last_bit_def)
  then show ?thesis using round_even_minus [of "x / pow2 (last_bit x)"] by (simp add: rd_def)
qed

lemma rd_nonneg:
  assumes "0 \<le> x"
  shows "0 \<le> rd x"
proof -
  have "round_even 0 \<le> round_even (x / pow2 (last_bit x))" using assms by (intro round_even_mono) simp
  then show ?thesis using round_even_int [of 0] by (simp add: rd_def)
qed

lemma rd_pos_mono:
  assumes "0 < x" and "x \<le> y"
  shows "rd x \<le> rd y"
proof -
  have y: "0 < y" using assms by simp
  let ?a = "last_bit x" and ?b = "last_bit y"
  have "binade x \<le> binade y" using binade_ge binade_bounds(1) [OF assms(1)] assms(2) order.trans by blast
  then have ab: "?a \<le> ?b" using assms(1) y by (simp add: last_bit_def)
  show ?thesis
  proof (cases "?a = ?b")
    case True
    have "round_even (x / pow2 ?b) \<le> round_even (y / pow2 ?b)"
      using assms(2) by (intro round_even_mono divide_right_mono) simp_all
    then show ?thesis using assms(1) y True by (simp add: rd_def)
  next
    case False
    then have b: "?b = binade y - 52" using ab y assms(1) by (auto simp: last_bit_def)
    have "x < pow2 (binade x + 1)" by (rule binade_bounds(2) [OF assms(1)])
    also have "\<dots> \<le> pow2 (53 + ?a)" using assms(1) by (simp add: last_bit_def)
    finally have "x / pow2 ?a \<le> of_int (2 ^ 53)"
      using pow2_add [of 53 ?a] pow2_nat [of 53] by (simp add: field_simps)
    from round_even_mono [OF this] have "rd x \<le> of_int (2 ^ 53) * pow2 ?a"
      using assms(1) unfolding rd_def round_even_int by (simp del: of_int_power)
    also have "\<dots> = pow2 (53 + ?a)" using pow2_nat [of 53] by (simp add: pow2_add)
    also have "\<dots> \<le> pow2 (52 + ?b)" using ab False by simp
    also have "\<dots> = of_int (2 ^ 52) * pow2 ?b" using pow2_nat [of 52] by (simp add: pow2_add)
    also have "\<dots> \<le> rd y"
    proof -
      have "of_int (2 ^ 52) \<le> y / pow2 ?b"
        using binade_bounds(1) [OF y] b pow2_add [of 52 ?b] pow2_nat [of 52] by (simp add: field_simps)
      from round_even_mono [OF this] show ?thesis using y unfolding rd_def round_even_int by simp
    qed
    finally show ?thesis .
  qed
qed

lemma rd_mono:
  assumes "x \<le> y"
  shows "rd x \<le> rd y"
proof (cases "0 < x")
  case True
  then show ?thesis using assms rd_pos_mono by blast
next
  case False
  have neg: "rd z \<le> 0" if "z \<le> 0" for z using rd_nonneg [of "- z"] that by (simp add: rd_minus)
  show ?thesis
  proof (cases "y < 0")
    case True
    then have "rd (- y) \<le> rd (- x)" using assms by (intro rd_pos_mono) simp_all
    then show ?thesis by (simp add: rd_minus)
  next
    case False
    then show ?thesis using neg [of x] rd_nonneg [of y] \<open>\<not> 0 < x\<close> by simp
  qed
qed

lemma rd_exact:
  assumes "\<bar>m\<bar> < 2 ^ 53" and "- 1074 \<le> e"
  shows "rd (of_int m * pow2 e) = of_int m * pow2 e"
proof (cases "m = 0")
  case False
  let ?x = "of_int m * pow2 e :: rat"
  have "\<bar>?x\<bar> < pow2 (53 + e)"
  proof -
    have "(of_int \<bar>m\<bar> :: rat) < of_int (2 ^ 53)" using assms(1) by (simp only: of_int_less_iff)
    then have "of_int \<bar>m\<bar> * pow2 e < pow2 53 * pow2 e" using pow2_nat [of 53] by simp
    then show ?thesis by (simp add: pow2_add abs_mult)
  qed
  then have "binade \<bar>?x\<bar> < 53 + e" using False by (intro binade_le) simp_all
  then have le: "last_bit ?x \<le> e" using assms(2) by (simp add: last_bit_def)
  define l k where "l = last_bit ?x" and "k = nat (e - l)"
  have "pow2 e = 2 ^ k * pow2 l"
    using le pow2_add [of "int k" l] pow2_nat [of k] by (simp add: k_def l_def)
  then have "?x / pow2 l = of_int (m * 2 ^ k)" by simp
  then have "of_int (round_even (?x / pow2 l)) * pow2 l = ?x"
    by (metis nonzero_eq_divide_eq pow2_pos(2) round_even_int)
  then show ?thesis using False by (simp add: rd_def l_def)
qed simp

lemma rd_int: "\<bar>n\<bar> < 2 ^ 53 \<Longrightarrow> rd (of_int n) = of_int n"
  using rd_exact [of n 0] pow2_nat [of 0] by simp

lemma rd_idem: "rd (rd x) = rd x"
proof (cases "x = 0")
  case False
  let ?l = "last_bit x" and ?m = "round_even (x / pow2 (last_bit x))"
  have l: "- 1074 \<le> ?l" by (simp add: last_bit_def)
  have "\<bar>x\<bar> < pow2 (binade \<bar>x\<bar> + 1)" using False by (intro binade_bounds(2)) simp
  also have "\<dots> \<le> pow2 (53 + ?l)" by (simp add: last_bit_def)
  finally have "\<bar>x\<bar> < 2 ^ 53 * pow2 ?l" using pow2_nat [of 53] by (simp add: pow2_add)
  then have "x / pow2 ?l \<le> of_int (2 ^ 53)" "of_int (- (2 ^ 53)) \<le> x / pow2 ?l"
    by (simp_all add: field_simps abs_less_iff)
  then have "?m \<le> 2 ^ 53" "- (2 ^ 53) \<le> ?m"
    using round_even_mono [of "x / pow2 ?l" "of_int (2 ^ 53)"] round_even_mono [of "of_int (- (2 ^ 53))" "x / pow2 ?l"]
    unfolding round_even_int by blast+
  then consider "\<bar>?m\<bar> < 2 ^ 53" | "\<bar>?m\<bar> = 2 ^ 53" by linarith
  then show ?thesis
  proof cases
    case 1
    then show ?thesis using rd_exact [OF 1 l] False by (simp add: rd_def [of x])
  next
    case 2
    then obtain n :: int where n: "?m = 2 * n" "\<bar>n\<bar> < 2 ^ 53"
      by (auto simp: abs_if split: if_splits intro: that [of "2 ^ 52"] that [of "- (2 ^ 52)"])
    have "of_int ?m * pow2 ?l = of_int n * pow2 (1 + ?l)"
      using pow2_add [of 1 ?l] pow2_nat [of 1] unfolding n(1) by simp
    then show ?thesis using rd_exact [OF n(2), of "1 + ?l"] l False by (simp add: rd_def [of x])
  qed
qed simp

lemma rd_error:
  assumes "\<bar>x\<bar> < 2 ^ 53"
  shows "\<bar>rd x - x\<bar> \<le> 1 / 2"
proof (cases "x = 0")
  case False
  let ?l = "last_bit x"
  have "\<bar>x\<bar> < pow2 53" using assms pow2_nat [of 53] by simp
  then have "binade \<bar>x\<bar> < 53" using False by (intro binade_le) simp_all
  then have l: "?l \<le> 0" by (simp add: last_bit_def)
  have "rd x - x = (of_int (round_even (x / pow2 ?l)) - x / pow2 ?l) * pow2 ?l"
    using False by (simp add: rd_def algebra_simps)
  then have "\<bar>rd x - x\<bar> \<le> 1 / 2 * pow2 ?l"
    using mult_right_mono [OF round_even_error [of "x / pow2 ?l"], of "pow2 ?l"] by (simp add: abs_mult)
  also have "\<dots> \<le> 1 / 2 * pow2 0" using l by (intro mult_left_mono) simp_all
  also have "\<dots> = 1 / 2" using pow2_nat [of 0] by simp
  finally show ?thesis .
qed simp

section \<open>The type and its operations\<close>

datatype float64 = NaN | Infinite bool | Finite rat

text \<open>The argument of \<open>Infinite\<close> says whether it is negative. Results that are too large overflow.\<close>

definition f64 :: "rat \<Rightarrow> float64" where
  "f64 x = (let y = rd x in if \<bar>y\<bar> < pow2 1024 then Finite y else Infinite (y < 0))"

fun f64_neg :: "float64 \<Rightarrow> float64" where
  "f64_neg NaN = NaN"
| "f64_neg (Infinite b) = Infinite (\<not> b)"
| "f64_neg (Finite x) = Finite (- x)"

fun f64_add :: "float64 \<Rightarrow> float64 \<Rightarrow> float64" where
  "f64_add (Finite x) (Finite y) = f64 (x + y)"
| "f64_add (Infinite b) (Infinite c) = (if b = c then Infinite b else NaN)"
| "f64_add (Infinite b) (Finite y) = Infinite b"
| "f64_add (Finite x) (Infinite c) = Infinite c"
| "f64_add x y = NaN"

definition f64_sub :: "float64 \<Rightarrow> float64 \<Rightarrow> float64" where
  "f64_sub x y = f64_add x (f64_neg y)"

fun f64_mult :: "float64 \<Rightarrow> float64 \<Rightarrow> float64" where
  "f64_mult (Finite x) (Finite y) = f64 (x * y)"
| "f64_mult (Infinite b) (Infinite c) = Infinite (b \<noteq> c)"
| "f64_mult (Infinite b) (Finite y) = (if y = 0 then NaN else Infinite (b \<noteq> (y < 0)))"
| "f64_mult (Finite x) (Infinite c) = (if x = 0 then NaN else Infinite (c \<noteq> (x < 0)))"
| "f64_mult x y = NaN"

fun f64_less :: "float64 \<Rightarrow> float64 \<Rightarrow> bool" where
  "f64_less (Finite x) (Finite y) = (x < y)"
| "f64_less (Infinite b) (Infinite c) = (b \<and> \<not> c)"
| "f64_less (Infinite b) (Finite y) = b"
| "f64_less (Finite x) (Infinite c) = (\<not> c)"
| "f64_less x y = False"

definition trunc :: "rat \<Rightarrow> int" where
  "trunc x = (if x < 0 then \<lceil>x\<rceil> else \<lfloor>x\<rfloor>)"

lemma f64_small:
  assumes "\<bar>x\<bar> < 2 ^ 53"
  shows "f64 x = Finite (rd x)"
proof -
  have "\<bar>rd x\<bar> \<le> 2 ^ 53"
    using rd_mono [of x "2 ^ 53"] rd_mono [of "- (2 ^ 53)" x] rd_exact [of "2 ^ 52" 1] pow2_nat [of 1] assms
    by (simp add: rd_minus abs_le_iff abs_less_iff)
  also have "\<dots> = pow2 53" using pow2_nat [of 53] by simp
  also have "\<dots> < pow2 1024" by (simp del: One_nat_def)
  finally show ?thesis by (simp add: f64_def)
qed

end
