(* ===== verification/Jitter.thy ===== *)
theory Jitter
  imports Retry Float64
begin

text \<open>
  \<open>WithJitter\<close> (\<open>retry.go\<close>): a policy whose delays are those of another, moved up or down by a random
  part of at most the given fraction. It computes in \<open>float64\<close>, each operation rounded by itself.
  Two things are parameters: \<open>rnd\<close>, the random source \<open>rand.Float64\<close>, and \<open>conv\<close>, what the
  conversion to \<open>time.Duration\<close> gives for values outside its range, which Go leaves to the
  implementation.
\<close>

section \<open>The policy\<close>

definition f64_of_int64 :: "duration \<Rightarrow> float64" where
  "f64_of_int64 d = f64 (of_int (sint d))"

fun int64_of_f64 :: "(float64 \<Rightarrow> duration) \<Rightarrow> float64 \<Rightarrow> duration" where
  "int64_of_f64 conv (Finite x) =
     (if - (2 ^ 63) \<le> trunc x \<and> trunc x < 2 ^ 63 then word_of_int (trunc x) else conv (Finite x))"
| "int64_of_f64 conv x = conv x"

definition jitter :: "(float64 \<Rightarrow> duration) \<Rightarrow> duration \<Rightarrow> float64 \<Rightarrow> float64 \<Rightarrow> duration" where
  "jitter conv base fraction u = (let
     spread = f64_mult (f64_of_int64 base) fraction;
     offset = f64_mult (f64_sub (f64_mult u (Finite 2)) (Finite 1)) spread;
     result = f64_add (f64_of_int64 base) offset;
     result = (if f64_less result (Finite 0) then Finite 0 else result)
   in int64_of_f64 conv result)"

definition jitterPolicy :: "(('d, 'u) world, float64) go \<Rightarrow> (float64 \<Rightarrow> duration)
    \<Rightarrow> ('d, 'u) retry_policy \<Rightarrow> float64 \<Rightarrow> ('d, 'u) retry_policy" where
  "jitterPolicy rnd conv policy fraction =
     \<lparr>MaxAttempts = MaxAttempts policy,
      Delay = (\<lambda>attempt. bind_go (Delay policy attempt) (\<lambda>base.
        if sint base \<le> 0 then ret base
        else bind_go rnd (\<lambda>u. ret (jitter conv base fraction u))))\<rparr>"

definition clamp :: "float64 \<Rightarrow> float64" where
  "clamp fraction = (let f = (if f64_less fraction (Finite 0) then Finite 0 else fraction)
     in if f64_less (Finite 1) f then Finite 1 else f)"

definition WithJitter :: "(('d, 'u) world, float64) go \<Rightarrow> (float64 \<Rightarrow> duration)
    \<Rightarrow> ('d, 'u) retry_policy \<Rightarrow> float64 \<Rightarrow> ('d, 'u) retry_policy" where
  "WithJitter rnd conv policy fraction = jitterPolicy rnd conv policy (clamp fraction)"

text \<open>Jitter keeps what the engine relies on.\<close>

lemma jitter_contract:
  assumes "retry_contract policy" and "never_panics rnd"
  shows "retry_contract (WithJitter rnd conv policy fraction)"
proof -
  have "\<exists>a t. Delay policy n w = (Ret a, t)" "\<exists>u t. rnd w = (Ret u, t)" for n w
    using assms by (auto simp: retry_contract_def never_panics_def)
  then have "never_panics (Delay (WithJitter rnd conv policy fraction) n)" for n
    unfolding never_panics_def WithJitter_def jitterPolicy_def bind_go_def ret_def
    by (auto split: prod.splits outcome.splits) (metis outcome.distinct(1) prod.inject)+
  then show ?thesis using assms(1) by (simp add: retry_contract_def WithJitter_def jitterPolicy_def)
qed

interpretation jittered_backoff: retry_contract
    "WithJitter (gets g) conv (ExponentialBackoff base maxDelay maxAttempts) fraction"
  for g conv base maxDelay maxAttempts fraction
  by (rule jitter_contract [OF backoff.retry_contract_axioms]) (simp add: never_panics_def gets_def)

section \<open>How far the delays stray\<close>

lemma f64_int: "\<bar>n\<bar> < 2 ^ 53 \<Longrightarrow> f64 (of_int n) = Finite (of_int n)"
proof -
  assume n: "\<bar>n\<bar> < 2 ^ 53"
  then have "(of_int \<bar>n\<bar> :: rat) < of_int (2 ^ 53)" by (simp only: of_int_less_iff)
  then show ?thesis using f64_small [of "of_int n"] rd_int [OF n] by simp
qed

lemma rd_within: "\<bar>x\<bar> \<le> y \<Longrightarrow> rd y = y \<Longrightarrow> \<bar>rd x\<bar> \<le> y"
  using rd_mono [of x y] rd_mono [of "- y" x] by (simp add: rd_minus abs_le_iff)

lemma rd_ints [simp]: "rd 1 = 1" "rd 2 = 2"
  using rd_int [of 1] rd_int [of 2] by simp_all

text \<open>The sum of the delay and its offset, for a delay that is a \<open>float64\<close> exactly.\<close>

lemma jitter_sum:
  fixes b f u :: rat
  assumes b: "0 < b" "b < 2 ^ 52" "rd b = b" "rd (2 * b) = 2 * b" and f: "0 \<le> f" "f \<le> 1"
    and u: "0 \<le> u" "u \<le> 1"
  defines "offset \<equiv> rd (rd (rd (u * 2) - 1) * rd (b * f))"
  shows "\<bar>b * f\<bar> < 2 ^ 53" "\<bar>rd (u * 2) - 1\<bar> \<le> 1" "\<bar>rd (rd (u * 2) - 1) * rd (b * f)\<bar> \<le> b" "\<bar>b + offset\<bar> < 2 ^ 53"
    "\<bar>rd (b + offset) - b\<bar> \<le> b * f + 1" "0 \<le> rd (b + offset)" "rd (b + offset) \<le> 2 * b"
proof -
  have bf: "0 \<le> b * f" "b * f \<le> b" using b f by (simp_all add: mult_left_le)
  then show small: "\<bar>b * f\<bar> < 2 ^ 53" using b(2) by simp
  have spread: "0 \<le> rd (b * f)" "rd (b * f) \<le> b" "\<bar>rd (b * f) - b * f\<bar> \<le> 1 / 2"
    using rd_nonneg [OF bf(1)] rd_mono [OF bf(2)] b(3) rd_error [of "b * f"] small by (simp_all only: abs_of_nonneg)
  have "0 \<le> rd (u * 2)" "rd (u * 2) \<le> 2" using rd_nonneg [of "u * 2"] rd_mono [of "u * 2" 2] u by simp_all
  then show v: "\<bar>rd (u * 2) - 1\<bar> \<le> 1" by (simp add: abs_le_iff)
  then have "\<bar>rd (rd (u * 2) - 1)\<bar> \<le> 1" by (intro rd_within) simp_all
  then have prod: "\<bar>rd (rd (u * 2) - 1) * rd (b * f)\<bar> \<le> rd (b * f)"
    using spread(1) by (simp add: abs_mult mult_left_le_one_le)
  then show "\<bar>rd (rd (u * 2) - 1) * rd (b * f)\<bar> \<le> b" using spread(2) by simp
  have off: "\<bar>offset\<bar> \<le> rd (b * f)" unfolding offset_def using prod by (rule rd_within) (rule rd_idem)
  then have le: "\<bar>offset\<bar> \<le> b" using spread(2) by simp
  then show "\<bar>b + offset\<bar> < 2 ^ 53" using b(1,2) by (simp add: abs_le_iff abs_less_iff)
  then show "\<bar>rd (b + offset) - b\<bar> \<le> b * f + 1" using rd_error [of "b + offset"] off spread(3) by linarith
  show "0 \<le> rd (b + offset)" "rd (b + offset) \<le> 2 * b"
    using le rd_nonneg [of "b + offset"] rd_mono [of "b + offset" "2 * b"] b(4) by (simp_all add: abs_le_iff)
qed

lemma sint_small: "0 \<le> z \<Longrightarrow> z < 2 ^ 63 \<Longrightarrow> sint (word_of_int z :: duration) = z"
  by (simp add: sint_sbintrunc' signed_take_bit_int_eq_self)

lemma clamp_Finite: "clamp (Finite f) = Finite (max 0 (min 1 f))"
  by (auto simp: clamp_def)

text \<open>
  C37: for a delay of less than 2^52 nanoseconds (52 days), whatever the random source yields in
  [0, 1], the jittered delay differs from it by at most the clamped fraction of it and two
  nanoseconds (of rounding), is never negative and never more than twice as long; the number of
  attempts is that of the policy.
\<close>

theorem jitter_within_fraction:
  assumes "Delay policy n w = (Ret base, w1)" and "rnd w1 = (Ret (Finite u), w2)"
    and "0 < sint base" and "sint base < 2 ^ 52" and "0 \<le> u" and "u \<le> 1"
  shows "\<exists>r. Delay (WithJitter rnd conv policy (Finite fraction)) n w = (Ret r, w2)
     \<and> \<bar>of_int (sint r - sint base)\<bar> \<le> of_int (sint base) * max 0 (min 1 fraction) + 2
     \<and> 0 \<le> sint r \<and> sint r \<le> 2 * sint base
     \<and> MaxAttempts (WithJitter rnd conv policy (Finite fraction)) = MaxAttempts policy"
proof -
  define k b f where "k = sint base" and "b = (of_int k :: rat)" and "f = max 0 (min 1 fraction)"
  have f: "0 \<le> f" "f \<le> 1" by (simp_all add: f_def)
  have k: "0 < k" "k < 2 ^ 52" using assms(3,4) by (simp_all add: k_def)
  have "b < of_int (2 ^ 52)" using k(2) unfolding b_def by (simp only: of_int_less_iff)
  then have b: "0 < b" "b < 2 ^ 52" "rd b = b" "rd (2 * b) = 2 * b"
    using k rd_int [of k] rd_int [of "2 * k"] by (simp_all add: b_def)
  define offset where "offset = rd (rd (rd (u * 2) - 1) * rd (b * f))"
  define r where "r = rd (b + offset)"
  note sum = jitter_sum [OF b f assms(5,6), folded offset_def, folded r_def]
  have "f64_of_int64 base = Finite b"
    using k f64_int [of k] by (simp add: f64_of_int64_def b_def k_def [symmetric])
  moreover have "f64 (b * f) = Finite (rd (b * f))" "f64 (u * 2) = Finite (rd (u * 2))"
      "f64 (rd (u * 2) - 1) = Finite (rd (rd (u * 2) - 1))" "f64 (b + offset) = Finite r"
      "f64 (rd (rd (u * 2) - 1) * rd (b * f)) = Finite offset"
    unfolding r_def offset_def using sum(1-4) assms(5,6) b(2)
    by (intro f64_small; simp add: offset_def)+
  moreover have whole: "0 \<le> \<lfloor>r\<rfloor>" "\<lfloor>r\<rfloor> \<le> 2 * k"
    using sum(6,7) by (auto simp: b_def le_floor_iff floor_le_iff)
  moreover have near: "\<bar>of_int (\<lfloor>r\<rfloor> - k)\<bar> \<le> b * f + 2"
    using sum(5) floor_correct [of r] unfolding b_def of_int_diff by linarith
  ultimately have "jitter conv base (Finite f) (Finite u) = word_of_int \<lfloor>r\<rfloor>"
    using sum(6,7) b(2) by (simp add: jitter_def f64_sub_def trunc_def)
  moreover have "sint (word_of_int \<lfloor>r\<rfloor> :: duration) = \<lfloor>r\<rfloor>"
    using whole(1) le_less_trans [OF whole(2), of "2 ^ 63"] k by (intro sint_small) simp_all
  ultimately show ?thesis
    using whole near assms(1-3) k_def f_def
    by (simp add: WithJitter_def jitterPolicy_def clamp_Finite bind_go_def ret_def b_def del: of_int_sint)
qed

theorem jitter_within_fraction_witness:
  "\<forall>conv w. \<exists>r. Delay (WithJitter (ret (Finite (1 / 4))) conv (FixedDelay 1000000000 3) (Finite (1 / 2))) 2 w = (Ret r, w)
     \<and> \<bar>of_int (sint r - 1000000000)\<bar> \<le> (500000002 :: rat)"
proof (intro allI)
  fix conv :: "float64 \<Rightarrow> duration" and w :: "('d, 'u) world"
  have "Delay (FixedDelay 1000000000 3) 2 w = (Ret 1000000000, w)"
    by (simp add: FixedDelay_def fixedDelayPolicy_def ret_def)
  from jitter_within_fraction [OF this, of "ret (Finite (1 / 4))" "1 / 4" w conv "1 / 2"]
  obtain r where "Delay (WithJitter (ret (Finite (1 / 4))) conv (FixedDelay 1000000000 3) (Finite (1 / 2))) 2 w
      = (Ret r, w)" "\<bar>of_int (sint r - 1000000000)\<bar> \<le> (500000002 :: rat)" by (auto simp: ret_def)
  then show "\<exists>r. Delay (WithJitter (ret (Finite (1 / 4))) conv (FixedDelay 1000000000 3) (Finite (1 / 2))) 2 w = (Ret r, w)
     \<and> \<bar>of_int (sint r - 1000000000)\<bar> \<le> (500000002 :: rat)" by blast
qed

section \<open>Where the conversion is left to the implementation\<close>

lemma rd_max_int64: "rd (2 ^ 63 - 1) = 2 ^ 63"
proof -
  let ?x = "2 ^ 63 - 1 :: rat"
  have "62 \<le> binade ?x" using pow2_nat [of 62] by (intro binade_ge) simp
  moreover have "binade ?x < 63" using pow2_nat [of 63] by (intro binade_le) simp_all
  ultimately have "binade \<bar>?x\<bar> = 62" by simp
  then have l: "last_bit ?x = 10" by (simp only: last_bit_def)
  have p: "pow2 10 = 1024" using pow2_nat [of 10] by simp
  have f: "\<lfloor>?x / 1024\<rfloor> = 9007199254740991" by (rule floor_unique) simp_all
  then have "round_even (?x / 1024) = 9007199254740992" by (simp add: round_even_def Let_def)
  then show ?thesis unfolding rd_def l p by simp
qed

text \<open>
  Two policies whose delays are what the implementation makes of a value that is no duration,
  although the underlying delay is one: a fraction that is not a number passes the clamp, and the
  largest duration rounds up to 2^63 when it becomes a \<open>float64\<close>, even with a fraction of 0.
\<close>

lemma jitter_undefined:
  "Delay (WithJitter (ret (Finite u)) conv (FixedDelay 1000000000 k) NaN) n w = (Ret (conv NaN), w)
   \<and> Delay (WithJitter (ret (Finite (1 / 2))) conv (FixedDelay (2 ^ 63 - 1) k) (Finite 0)) n w
       = (Ret (conv (Finite (2 ^ 63))), w)"
proof
  have "clamp NaN = NaN" by (simp add: clamp_def)
  moreover have "f64_mult (f64 x) NaN = NaN" "f64_add (f64 x) NaN = NaN" "f64_mult y NaN = NaN" for x y
    by (cases "f64 x"; cases y; simp)+
  ultimately show "Delay (WithJitter (ret (Finite u)) conv (FixedDelay 1000000000 k) NaN) n w = (Ret (conv NaN), w)"
    by (simp add: WithJitter_def jitterPolicy_def FixedDelay_def fixedDelayPolicy_def bind_go_def ret_def
        jitter_def f64_of_int64_def)
next
  have rd: "rd (2 ^ 63 - 1) = 2 ^ 63" "rd (2 ^ 63) = 2 ^ 63" using rd_max_int64 rd_idem [of "2 ^ 63 - 1"] by simp_all
  have "(2 :: rat) ^ 63 = pow2 63" using pow2_nat [of 63] by simp
  also have "\<dots> < pow2 1024" by (simp del: One_nat_def)
  finally have small: "(2 :: rat) ^ 63 < pow2 1024" .
  have "of_int (sint (2 ^ 63 - 1 :: duration)) = (2 ^ 63 - 1 :: rat)" by simp
  then have base: "f64_of_int64 (2 ^ 63 - 1) = Finite (2 ^ 63)"
    unfolding f64_of_int64_def using rd(1) small by (simp only: f64_def Let_def) simp
  have ints: "f64 0 = Finite 0" "f64 1 = Finite 1" using f64_int [of 0] f64_int [of 1] by simp_all
  moreover have "f64 (2 ^ 63) = Finite (2 ^ 63)" unfolding f64_def rd(2) Let_def using small by simp
  ultimately have "jitter conv (2 ^ 63 - 1) (Finite 0) (Finite (1 / 2)) = conv (Finite (2 ^ 63))"
    unfolding jitter_def base by (simp add: f64_sub_def trunc_def)
  then show "Delay (WithJitter (ret (Finite (1 / 2))) conv (FixedDelay (2 ^ 63 - 1) k) (Finite 0)) n w
       = (Ret (conv (Finite (2 ^ 63))), w)"
    by (simp add: WithJitter_def jitterPolicy_def FixedDelay_def fixedDelayPolicy_def bind_go_def ret_def clamp_def)
qed

end
