(* ===== verification/Built_Definitions.thy ===== *)
theory Built_Definitions
  imports Engine_Rules
begin

text \<open>
  The definitions a program can come by: made by \<open>New\<close> from options, then given steps, frozen and
  executed, in any order and however these calls end. The fields of \<open>Definition\<close> are not exported, so
  there are no others. Such definitions are well-formed, and so are the records their runs produce.
\<close>

text \<open>The options of \<open>options.go\<close>: what its functions return.\<close>

inductive from_options :: "('d, 'u) saga_option \<Rightarrow> bool" where
  "WithStore x () = (Ret opt, ()) \<Longrightarrow> from_options opt"
| "WithRetryPolicy p () = (Ret opt, ()) \<Longrightarrow> from_options opt"
| "from_options (WithTimeout k)"
| "from_options (WithLockTTL k)"
| "WithEventPublisher ep () = (Ret opt, ()) \<Longrightarrow> from_options opt"
| "WithLogger l () = (Ret opt, ()) \<Longrightarrow> from_options opt"
| "WithMetrics m () = (Ret opt, ()) \<Longrightarrow> from_options opt"
| "WithTracer tr () = (Ret opt, ()) \<Longrightarrow> from_options opt"

inductive built :: "('d, 'u) definition_ \<Rightarrow> bool" where
  built_New: "New name opts () = (Ret d, ()) \<Longrightarrow> list_all from_options opts \<Longrightarrow> built d"
| built_AddStep: "built d \<Longrightarrow> AddStep step d = (r, d') \<Longrightarrow> built d'"
| built_Freeze: "built d \<Longrightarrow> Freeze d = (r, d') \<Longrightarrow> built d'"
| built_Execute: "built d \<Longrightarrow> Execute d c input s = (Ret (err, d'), t) \<Longrightarrow> built d'"

definition well_formed :: "('d, 'u) definition_ \<Rightarrow> bool" where
  "well_formed d \<longleftrightarrow> def_inv d \<and> TrimSpace (d_name d) \<noteq> []"

section \<open>Preservation\<close>

text \<open>Options leave alone what \<open>well_formed\<close> speaks of.\<close>

definition same_shape :: "('d, 'u) definition_ \<Rightarrow> ('d, 'u) definition_ \<Rightarrow> bool" where
  "same_shape d d' \<longleftrightarrow> d_name d' = d_name d \<and> d_steps d' = d_steps d \<and> stepSet d' = stepSet d \<and> d_frozen d' = d_frozen d"

lemma same_shape_well_formed: "same_shape d d' \<Longrightarrow> well_formed d' = well_formed d"
  by (simp add: same_shape_def well_formed_def def_inv_def)

lemma from_options_shape: "from_options opt \<Longrightarrow> same_shape d (opt d)"
  by (induction rule: from_options.induct)
     (auto simp: same_shape_def WithStore_def WithRetryPolicy_def WithTimeout_def WithLockTTL_def WithEventPublisher_def
       WithLogger_def WithMetrics_def WithTracer_def ret_def panic_def split: option.splits)

lemma apply_opts_shape: "list_all from_options opts \<Longrightarrow> same_shape d (apply_opts opts d)"
proof (induction opts arbitrary: d)
  case (Cons opt opts)
  then have "same_shape d (opt d)" "same_shape (opt d) (apply_opts opts (opt d))"
    by (simp_all add: from_options_shape)
  then show ?case by (simp add: same_shape_def)
qed (simp add: same_shape_def)

lemma New_well_formed:
  assumes "New name opts () = (Ret d, ())" and "list_all from_options opts"
  shows "well_formed d"
proof -
  obtain d0 where d0: "TrimSpace name \<noteq> []" "well_formed d0" "d = apply_opts opts d0"
    using assms(1) by (force simp: New_def ret_def panic_def well_formed_def def_inv_def flag_at_def split: if_splits)
  show ?thesis using d0 same_shape_well_formed [OF apply_opts_shape [OF assms(2)]] by simp
qed

lemma AddStep_well_formed:
  assumes "well_formed d" and "AddStep step d = (r, d')"
  shows "well_formed d'"
proof -
  have "wp (AddStep step) (\<lambda>_. well_formed) well_formed d"
    using assms(1) by (auto simp: AddStep_def wp_simps well_formed_def def_inv_def flag_at_def split: option.splits)
  then show ?thesis using assms(2) by (cases r) (auto dest: wp_RetD wp_PanicD)
qed

lemma Execute_freezes:
  "wp (Execute d c input) (\<lambda>p t. snd p = d\<lparr>d_frozen := True\<rparr>
     \<and> (\<exists>i now. exec_evolves (new_execution (d\<lparr>d_frozen := True\<rparr>) i input now) (exec t))) (\<lambda>_. True) s"
proof -
  let ?d = "d\<lparr>d_frozen := True\<rparr>"
  have fz: "snd (Freeze d) = ?d" by (simp add: Freeze_def modify_def)
  let ?Q = "\<lambda>i now p t. snd p = ?d \<and> exec_evolves (new_execution ?d i input now) (exec t)"
  have on: "wp m (\<lambda>_ t. exec_evolves e (exec t)) (\<lambda>_. True) u"
    if "keeps evolves m" "exec_evolves e (exec u)" for u e and m :: "('a, 'b, 'c) engine"
  proof -
    have "exec_evolves e (exec (snd (m u)))"
      using that exec_evolves_trans unfolding keeps_def evolves_def by blast
    then show ?thesis by (auto simp: wp_def split: prod.split outcome.split)
  qed
  have resumed: "wp (bind_go (resume ?d c) (\<lambda>err. ret (err, ?d))) (?Q i now) (\<lambda>_. True) u"
    if "exec_evolves (new_execution ?d i input now) (exec u)" for i now u
    unfolding wp_bind by (rule wp_mono [OF on [OF resume_evolves that]]) (simp_all add: wp_ret)
  have saved: "wp (bind_go (store_Save ?d c) (\<lambda>err. case err of Some x \<Rightarrow> ret (Some x, ?d)
      | None \<Rightarrow> bind_go (resume ?d c) (\<lambda>err. ret (err, ?d)))) (?Q i now) (\<lambda>_. True) u"
    if "exec_evolves (new_execution ?d i input now) (exec u)" for i now u
    unfolding wp_bind [of "store_Save ?d c"]
    by (rule wp_mono [OF on [OF store_Save_evolves that]])
       (auto simp: wp_ret intro: resumed split: option.split)
  have start: "wp (bind_go (store_Save ?d c) (\<lambda>err. case err of Some x \<Rightarrow> ret (Some x, ?d)
      | None \<Rightarrow> bind_go (resume ?d c) (\<lambda>err. ret (err, ?d)))) (\<lambda>p t. snd p = ?d
        \<and> (\<exists>i now. exec_evolves (new_execution ?d i input now) (exec t))) (\<lambda>_. True)
      (u\<lparr>exec := new_execution ?d i input now\<rparr>)" for i now u
    by (rule wp_mono [OF saved [of i now]]) auto
  show ?thesis
    unfolding Execute_def Let_def fz
    by (simp add: wp_bind [of "in_world m" for m] wp_in_world wp_time_Now wp_seq [of "upd_exec f" for f] wp_upd_exec)
      (rule wp_callback, use start in simp_all)
qed

lemma Freeze_well_formed: "well_formed (d\<lparr>d_frozen := b\<rparr>) = well_formed d"
  by (simp add: well_formed_def def_inv_def)

lemma built_well_formed: "built d \<Longrightarrow> well_formed d"
proof (induction rule: built.induct)
  case (built_New name opts d)
  then show ?case by (rule New_well_formed)
next
  case (built_AddStep d step r d')
  then show ?case using AddStep_well_formed by blast
next
  case (built_Freeze d r d')
  then show ?case by (auto simp: Freeze_def modify_def Freeze_well_formed)
next
  case (built_Execute d c input s err d' t)
  then show ?case using wp_RetD [OF Execute_freezes built_Execute.hyps(2)] by (simp add: Freeze_well_formed)
qed

section \<open>The property\<close>

text \<open>
  C35: every definition a program can come by - by \<open>New\<close> with any options, \<open>AddStep\<close> whether it returns
  or panics, \<open>Freeze\<close>, \<open>Execute\<close> - has a name that is not blank and steps with actions and with names
  that are distinct and not blank; and every \<open>Execute\<close> of it that returns freezes it, so that every
  further \<open>AddStep\<close> panics and changes nothing, and leaves a record with exactly one entry for each step,
  in order, under the names of the saga and of the steps.
\<close>

theorem definitions_well_formed:
  assumes "built d"
  shows "TrimSpace (d_name d) \<noteq> [] \<and> distinct (map Name (d_steps d))
    \<and> (\<forall>step \<in> set (d_steps d). TrimSpace (Name step) \<noteq> [] \<and> Action step \<noteq> None)
    \<and> (\<forall>c input s. case Execute d c input s of
        (Panic p, t) \<Rightarrow> True
      | (Ret (err, d'), t) \<Rightarrow> SagaName (exec t) = d_name d \<and> Input (exec t) = input
          \<and> map sName (Steps (exec t)) = map Name (d_steps d)
          \<and> d_steps d' = d_steps d \<and> (\<forall>step. \<exists>p. AddStep step d' = (Panic p, d')))"
proof -
  have wf: "well_formed d" using built_well_formed [OF assms] .
  have names: "map sName (Steps e) = map sName (Steps e')" if "exec_evolves e' e" for e e' :: "'a execution"
    using that by (auto simp: exec_evolves_def step_evolves_def list_all2_conv_all_nth intro!: nth_equalityI)
  have run: "case Execute d c input s of
        (Panic p, t) \<Rightarrow> True
      | (Ret (err, d'), t) \<Rightarrow> SagaName (exec t) = d_name d \<and> Input (exec t) = input
          \<and> map sName (Steps (exec t)) = map Name (d_steps d)
          \<and> d_steps d' = d_steps d \<and> (\<forall>step. \<exists>p. AddStep step d' = (Panic p, d'))" for c input s
  proof (cases "Execute d c input s")
    case (Pair r t)
    show ?thesis
    proof (cases r)
      case (Ret p)
      then obtain i now where ran: "snd p = d\<lparr>d_frozen := True\<rparr>"
          "exec_evolves (new_execution (d\<lparr>d_frozen := True\<rparr>) i input now) (exec t)"
        using wp_RetD [OF Execute_freezes] Pair by blast
      have "map sName (Steps (exec t)) = map Name (d_steps d)"
        using names [OF ran(2)] by (simp add: new_execution_def new_step_execution_def comp_def)
      then show ?thesis
        using ran Pair Ret
        by (auto simp: exec_evolves_def new_execution_def AddStep_def bind_go_def gets_def panic_def split: prod.split)
    qed (simp add: Pair)
  qed
  show ?thesis using wf run by (auto simp: well_formed_def def_inv_def list_all_iff)
qed

theorem definitions_well_formed_witness:
  "\<exists>d :: (unit, unit) definition_. built d \<and> map Name (d_steps d) = [''pay''] \<and> TrimSpace (d_name d) \<noteq> []"
proof -
  let ?a = "Step ''pay'' (Some (\<lambda>c x. ret (x, None))) None [] :: (unit, unit) step_definition"
  obtain d :: "(unit, unit) definition_" where d: "New ''order'' [WithTimeout 7] () = (Ret d, ())"
    by (simp add: New_def TrimSpace_def is_space_def ret_def)
  then have new: "built d" by (intro built_New) (auto intro: from_options.intros)
  obtain d' u where add: "AddStep ?a d = (Ret u, d')" "map Name (d_steps d') = [''pay'']"
    using d by (auto simp: New_def TrimSpace_def is_space_def ret_def AddStep_def bind_go_def gets_def modify_def
        flag_at_def Step_def WithTimeout_def)
  have built: "built d'" using built_AddStep [OF new add(1)] .
  have "TrimSpace (d_name d') \<noteq> []" using definitions_well_formed [OF built] by (rule conjunct1)
  with built add(2) show ?thesis by (intro exI [of _ d'] conjI)
qed

end
