(* ===== verification/Console.thy ===== *)
theory Console
  imports Order_Saga Float64
begin

text \<open>
  What the programs under \<open>examples\<close> share: output through \<open>fmt\<close> and \<open>slog\<close>, recorded call by call
  with its arguments (the text that they make of them is not modelled), the assertion
  \<open>data.(T)\<close>, and a definition as the variable of a \<open>main\<close> function.
\<close>

datatype 'd arg = ArgString string | ArgInt int | ArgFloat float64 | ArgError gerr | ArgAny "'d any"
datatype 'd printed = Formatted string "'d arg list" | Line string | Logged log_level string "string list"

record 'd console =
  stdout :: "'d printed list"

definition Printf :: "string \<Rightarrow> 'd arg list \<Rightarrow> (('d, ('d, 'z) console_scheme) world, unit) go" where
  "Printf format args = modify (\<lambda>w. w\<lparr>user := (user w)\<lparr>stdout := stdout (user w) @ [Formatted format args]\<rparr>\<rparr>)"

definition Println :: "string \<Rightarrow> (('d, ('d, 'z) console_scheme) world, unit) go" where
  "Println text = modify (\<lambda>w. w\<lparr>user := (user w)\<lparr>stdout := stdout (user w) @ [Line text]\<rparr>\<rparr>)"

definition conversion_panic :: string where
  "conversion_panic = ''interface conversion: interface {} is nil''"

text \<open>\<open>data.(T)\<close>: the only value of the type \<open>any\<close> that is no \<open>T\<close> here is \<open>nil\<close>.\<close>

definition assert_type :: "'d any \<Rightarrow> ('s, 'd) go" where
  "assert_type data = (case data of None \<Rightarrow> panic conversion_panic | Some x \<Rightarrow> ret x)"

text \<open>A method of a definition, called on the definition a variable holds.\<close>

definition on_def :: "(('d, 'u) definition_, unit) go \<Rightarrow> ('d, 'u) definition_ \<Rightarrow> ('s, ('d, 'u) definition_) go" where
  "on_def m d = (case m d of (Ret _, d') \<Rightarrow> ret d' | (Panic p, _) \<Rightarrow> panic p)"

section \<open>Evaluation in an arbitrary calm world\<close>

text \<open>A world in which the random source works and nobody cancels the background context.\<close>

definition calm_world :: "('d, 'u) world \<Rightarrow> bool" where
  "calm_world w \<longleftrightarrow> (\<forall>i. entropy w i \<noteq> None) \<and> cancel_at w 0 = None"

lemma idgen_New_ok:
  assumes "\<forall>i. entropy w i \<noteq> None"
  shows "idgen_New w = (Ret (hex_EncodeToString (map (the \<circ> entropy w) [0..<16])),
    w\<lparr>entropy := (\<lambda>i. entropy w (i + 16))\<rparr>)"
  using assms
  by (simp add: idgen_New_def rand_Read_def list_all_iff control_eval comp_def del: upt_rec_numeral)

lemmas symbolic_eval = control_eval in_world_def new_ref_def time_Now_def context_Cause_def ctx_Done_def ended_def
  withOperationID_def OperationID_def step_eval saga_eval Let_def Step_def NoRetry_def noRetryPolicy_def noopStore_def

lemmas console_eval = assert_type_def Printf_def Println_def idgen_New_ok

lemmas store_eval = mem_store_ops_def mem_locker_def mem_lister_def mem_Acquire_def mem_Release_def mem_Save_def
  mem_ListIncomplete_def mem_New_def do_Acquire_def

end
