(* ===== verification/Takeover.thy ===== *)
theory Takeover
  imports Console Recovery
begin

text \<open>
  Two workers and one execution: while an action of the first runs past its lease, the second
  recovers the execution from the same store, with the whole of \<open>Recover\<close>. The saga reserves stock
  and charges; its stock and what the second worker was told are the state of user code.
\<close>

record takeover_user =
  stock_held :: int
  second_result :: "unit recovery_result option"

type_synonym takeover_world = "(unit, takeover_user) world"

definition change_stock :: "int \<Rightarrow> (takeover_world, unit) go" where
  "change_stock k = modify (\<lambda>w. w\<lparr>user := (user w)\<lparr>stock_held := stock_held (user w) + k\<rparr>\<rparr>)"

definition two_steps :: "string \<Rightarrow> string \<Rightarrow> string \<Rightarrow> (unit, takeover_user) action_func
    \<Rightarrow> (unit, takeover_user) definition_" where
  "two_steps name reserve charge action = \<lparr>d_name = name,
     d_steps = [Step reserve (Some (\<lambda>c x. seq_go (change_stock 1) (ret (x, None))))
         (Some (\<lambda>c x. seq_go (change_stock (-1)) (ret None))) [],
       Step charge (Some action) None []],
     stepSet = [reserve \<mapsto> True, charge \<mapsto> True], d_frozen = True, d_store = mem_store_ops,
     d_retryPolicy = NoRetry, d_timeout = 0, d_lockTTL = DefaultLockTTL, d_publisher = None, d_logger = None,
     d_metrics = None, d_tracer = None\<rparr>"

text \<open>The second worker calls the charge again, and is refused.\<close>

definition declined :: "gerr \<Rightarrow> (unit, takeover_user) action_func" where
  "declined err c x = ret (x, Some err)"

definition second_worker :: "(unit, takeover_user) definition_ \<Rightarrow> (takeover_world, unit) go" where
  "second_worker d w =
     (case Recover \<lparr>lister = mem_lister, sagas = [d_name d \<mapsto> d], policy = RecoverAutomatically\<rparr>
         (Root 1) \<lparr>exec = new_execution d [] None 0, trace = [], world = w\<rparr> of
       (Ret (Inr [r]), t) \<Rightarrow> (Ret (), (world t)\<lparr>user := (user (world t))\<lparr>second_result := Some r\<rparr>\<rparr>)
     | (_, t) \<Rightarrow> (Ret (), world t))"

text \<open>The first worker's charge takes as long as its lease, and succeeds.\<close>

definition slow_charge :: "(unit, takeover_user) definition_ \<Rightarrow> (unit, takeover_user) action_func" where
  "slow_charge d c x = seq_go (modify (\<lambda>w. w\<lparr>clock := clock w + sint DefaultLockTTL\<rparr>))
     (seq_go (second_worker d) (ret (x, None)))"

definition takeover_start :: "unit execution \<Rightarrow> (nat \<Rightarrow> 8 word) \<Rightarrow> go_time \<Rightarrow> (unit, takeover_user) machine" where
  "takeover_start e bytes now = \<lparr>exec = e, trace = [],
     world = \<lparr>clock = now, ticks = (\<lambda>n. 1), cancel_at = (\<lambda>n. None), entropy = (\<lambda>i. Some (bytes (i + 0))),
       next_ref = 0, mem = mem_New, user = \<lparr>stock_held = 0, second_result = None\<rparr>\<rparr>\<rparr>"

fun refused_renewal :: "'d obs \<Rightarrow> bool" where
  "refused_renewal (ObsAcquired ok) = (\<not> ok)"
| "refused_renewal _ = False"

section \<open>Identifiers\<close>

definition drawn :: "(nat \<Rightarrow> 8 word) \<Rightarrow> nat \<Rightarrow> string" where
  "drawn bytes k = hex_EncodeToString (map (\<lambda>i. bytes (i + k)) [0..<16])"

lemma drawn_not_empty [simp]: "drawn bytes k \<noteq> []"
  using hex_length [of "map (\<lambda>i. bytes (i + k)) [0..<16]"] by (auto simp: drawn_def simp del: upt_rec_numeral)

lemma draws:
  "entropy w = (\<lambda>i. Some (bytes (i + k))) \<Longrightarrow>
    idgen_New w = (Ret (drawn bytes k), w\<lparr>entropy := (\<lambda>i. Some (bytes (i + (k + 16))))\<rparr>)"
  using idgen_New_ok [of w] by (simp add: drawn_def comp_def add.assoc add.commute [of 16] del: upt_rec_numeral)

lemmas three_draws = draws [where k = 0] draws [where k = 16] draws [where k = 32]

section \<open>The takeover\<close>

lemmas takeover_eval = takeover_start_def two_steps_def slow_charge_def second_worker_def change_stock_def
  declined_def Recover_def recover_one_def recovery_order_def Second_def DefaultLockTTL_def


end
