(* ===== verification/Retry_Discipline.thy ===== *)
theory Retry_Discipline
  imports Engine_Outline
begin

text \<open>
  How often an action is called and how long the engine waits in between, read off the trace of a run.
  A reader of the trace follows the attempts at a step from one saved record to the next: the first
  attempt comes when none is under way; another one only if the policy of the step has attempts left
  and the last one may be retried - its error was not marked \<open>NonRetryable\<close>, unless the step has a
  deadline that may have replaced that error - and only after the wait the policy asks for. Nothing is
  waited for at any other time, and no compensation is called while a step is being attempted.
\<close>

section \<open>Reading a trace\<close>

datatype attempting =
    Resting
  | Calling string int
  | Called string int "gerr option"
  | Waited string int

definition policy_of :: "('d, 'u) definition_ \<Rightarrow> ('d, 'u) step_definition \<Rightarrow> ('d, 'u) retry_policy" where
  "policy_of d step = (case step_retryPolicy step of Some p \<Rightarrow> p | None \<Rightarrow> d_retryPolicy d)"

text \<open>The \<open>k\<close>th attempt at step \<open>n\<close> returned \<open>err\<close>, and there may be another.\<close>

definition may_retry :: "('d, 'u) definition_ \<Rightarrow> string \<Rightarrow> int \<Rightarrow> gerr option \<Rightarrow> bool" where
  "may_retry d n k err \<longleftrightarrow> (\<exists>step \<in> set (d_steps d). Name step = n \<and> k < MaxAttempts (policy_of d step)
     \<and> (0 < sint (step_timeout step) \<or> (\<exists>x. err = Some x \<and> \<not> isNonRetryable x)))"

text \<open>A wait the policy of step \<open>n\<close> asks for before attempt \<open>k\<close>.\<close>

definition asks_for :: "('d, 'u) definition_ \<Rightarrow> string \<Rightarrow> int \<Rightarrow> duration \<Rightarrow> bool" where
  "asks_for d n k wait \<longleftrightarrow> (\<exists>step \<in> set (d_steps d). Name step = n
     \<and> (\<exists>w w'. Delay (policy_of d step) k w = (Ret wait, w')))"

text \<open>What an observation does to the attempt under way, if it may come there.\<close>

fun when_called :: "('d, 'u) definition_ \<Rightarrow> string \<Rightarrow> attempting \<Rightarrow> attempting option" where
  "when_called d n Resting = Some (Calling n 1)"
| "when_called d n (Calling n' k) = None"
| "when_called d n (Called n' k err) =
     (if n' = n \<and> may_retry d n k err \<and> (\<exists>wait. asks_for d n (k + 1) wait \<and> sint wait \<le> 0)
      then Some (Calling n (k + 1)) else None)"
| "when_called d n (Waited n' k) = (if n' = n then Some (Calling n (k + 1)) else None)"

fun when_returned :: "string \<Rightarrow> gerr option \<Rightarrow> attempting \<Rightarrow> attempting option" where
  "when_returned n err (Calling n' k) = (if n' = n then Some (Called n k err) else None)"
| "when_returned n err st = None"

fun when_slept :: "('d, 'u) definition_ \<Rightarrow> duration \<Rightarrow> attempting \<Rightarrow> attempting option" where
  "when_slept d wait (Called n k err) =
     (if may_retry d n k err \<and> asks_for d n (k + 1) wait \<and> 0 < sint wait then Some (Waited n k) else None)"
| "when_slept d wait st = None"

fun off :: "attempting \<Rightarrow> bool" where
  "off (Calling n k) = False"
| "off st = True"

fun attempt :: "('d, 'u) definition_ \<Rightarrow> attempting \<Rightarrow> 'd obs \<Rightarrow> attempting option" where
  "attempt d st (ObsAction n op x) = when_called d n st"
| "attempt d st (ObsActionReturned n out err) = when_returned n err st"
| "attempt d st (ObsSleep wait) = when_slept d wait st"
| "attempt d st (ObsCompensate n op x) = (if st = Resting then Some Resting else None)"
| "attempt d st (ObsSave e) = (if off st then Some Resting else None)"
| "attempt d st x = Some st"

fun attempts :: "('d, 'u) definition_ \<Rightarrow> attempting option \<Rightarrow> 'd obs list \<Rightarrow> attempting option" where
  "attempts d st [] = st"
| "attempts d None (x # tr) = None"
| "attempts d (Some st) (x # tr) = attempts d (attempt d st x) tr"

lemma attempts_None [simp]: "attempts d None tr = None"
  by (cases tr) simp_all

lemma attempts_append [simp]: "attempts d st (xs @ ys) = attempts d (attempts d st xs) ys"
proof (induction xs arbitrary: st)
  case (Cons x xs)
  then show ?case by (cases st) simp_all
qed simp

text \<open>Observations the reader passes over.\<close>

fun passed_over :: "'d obs \<Rightarrow> bool" where
  "passed_over (ObsAction n op x) = False"
| "passed_over (ObsActionReturned n out err) = False"
| "passed_over (ObsSleep wait) = False"
| "passed_over (ObsCompensate n op x) = False"
| "passed_over (ObsSave e) = False"
| "passed_over x = True"

lemma attempt_over: "passed_over x \<Longrightarrow> attempt d st x = Some st"
  by (cases x) simp_all

lemma attempts_over: "list_all passed_over tr \<Longrightarrow> attempts d (Some st) tr = Some st"
  by (induction tr) (simp_all add: attempt_over)

lemma attempts_clerical:
  "list_all clerical tr \<Longrightarrow> off st \<Longrightarrow>
   \<exists>st'. attempts d (Some st) tr = Some st' \<and> off st' \<and> st' = (if saves_of tr = [] then st else Resting)"
proof (induction tr arbitrary: st)
  case (Cons x tr)
  have x: "(\<exists>e. x = ObsSave e) \<or> passed_over x \<and> saves_of (x # tr) = saves_of tr"
    using Cons.prems(1) by (cases x) (simp_all add: clerical_def)
  then show ?case
  proof
    assume "\<exists>e. x = ObsSave e"
    then have "attempt d st x = Some Resting" "saves_of (x # tr) \<noteq> []" using Cons.prems(2) by auto
    then show ?case using Cons.IH [of Resting] Cons.prems(1) by auto
  next
    assume "passed_over x \<and> saves_of (x # tr) = saves_of tr"
    then show ?case using Cons.IH [OF _ Cons.prems(2)] Cons.prems(1) by (simp add: attempt_over)
  qed
qed simp

section \<open>Assertions\<close>

definition reading :: "('d, 'u) definition_ \<Rightarrow> 'd obs list \<Rightarrow> (attempting \<Rightarrow> bool) \<Rightarrow> ('d, 'u) machine \<Rightarrow> bool" where
  "reading d t0 P t \<longleftrightarrow> (\<exists>tr st. trace t = t0 @ tr \<and> attempts d (Some Resting) tr = Some st \<and> P st)"

lemma reading_mono: "reading d t0 P t \<Longrightarrow> (\<And>st. P st \<Longrightarrow> Q st) \<Longrightarrow> reading d t0 Q t"
  unfolding reading_def by blast

lemma reading_more:
  assumes "reading d t0 P s" and "trace t = trace s @ tr"
    and "\<And>st. P st \<Longrightarrow> \<exists>st'. attempts d (Some st) tr = Some st' \<and> Q st'"
  shows "reading d t0 Q t"
proof -
  obtain tr0 st where "trace s = t0 @ tr0" "attempts d (Some Resting) tr0 = Some st" "P st"
    using assms(1) by (auto simp: reading_def)
  moreover obtain st' where "attempts d (Some st) tr = Some st'" "Q st'" using assms(3) \<open>P st\<close> by blast
  ultimately show ?thesis using assms(2) unfolding reading_def by auto
qed

lemma reading_over:
  assumes "reading d t0 P s" and "without (\<lambda>x. \<not> passed_over x) s t"
  shows "reading d t0 P t"
proof -
  obtain tr where tr: "trace t = trace s @ tr" "list_all passed_over tr" using assms(2) by (auto simp: without_def)
  show ?thesis by (rule reading_more [OF assms(1) tr(1)]) (simp add: attempts_over [OF tr(2)])
qed

lemma reading_simps [simp]:
  "reading d t0 P (s\<lparr>world := w\<rparr>) = reading d t0 P s" "reading d t0 P (s\<lparr>exec := e\<rparr>) = reading d t0 P s"
  by (simp_all add: reading_def)

lemma over_wp:
  assumes "keeps (without (\<lambda>x. \<not> passed_over x)) m" and "reading d t0 P s"
  shows "wp m (\<lambda>_. reading d t0 P) (reading d t0 P) s"
  using assms reading_over by (simp add: wp_final keeps_def) blast

lemma aside_over: "aside x \<Longrightarrow> passed_over x" and span_over: "is_span x \<Longrightarrow> passed_over x"
  by (cases x; simp)+

lemma idle_over: "idle s t \<Longrightarrow> without (\<lambda>x. \<not> passed_over x) s t"
  using aside_over by (fastforce simp: idle_def without_def elim: list.pred_mono_strong)

lemma reading_idle: "reading d t0 P s \<Longrightarrow> idle s t \<Longrightarrow> reading d t0 P t"
  using reading_over idle_over by blast

lemma reading_any: "reading d t0 P t \<Longrightarrow> reading d t0 (\<lambda>_. True) t"
  by (erule reading_mono) simp

lemma reading_stable: "stable (reading d t0 (\<lambda>_. True)) (reading d t0 P)"
  unfolding stable_def using reading_idle reading_any by metis

lemma reading_note:
  assumes "reading d t0 P s" and "\<And>st. P st \<Longrightarrow> \<exists>st'. attempt d st x = Some st' \<and> Q st'"
  shows "reading d t0 Q (s\<lparr>trace := trace s @ [x]\<rparr>)"
  by (rule reading_more [OF assms(1), where tr = "[x]"]) (use assms(2) in simp_all)

section \<open>The attempts at a step\<close>

abbreviation readable :: "('d, 'u) definition_ \<Rightarrow> 'd obs list \<Rightarrow> ('d, 'u) machine \<Rightarrow> bool" where
  "readable d t0 \<equiv> reading d t0 (\<lambda>_. True)"

definition due :: "('d, 'u) definition_ \<Rightarrow> string \<Rightarrow> int \<Rightarrow> attempting \<Rightarrow> bool" where
  "due d n k st \<longleftrightarrow> off st \<and> when_called d n st = Some (Calling n k)"

text \<open>Attempt \<open>k\<close> has returned; with a deadline, \<open>err\<close> may not be what the action returned.\<close>

definition came_back :: "('d, 'u) step_definition \<Rightarrow> int \<Rightarrow> gerr option \<Rightarrow> attempting \<Rightarrow> bool" where
  "came_back step k err st \<longleftrightarrow> (\<exists>err'. st = Called (Name step) k err' \<and> (err' = err \<or> 0 < sint (step_timeout step)))"

lemma due_off: "due d n k st \<Longrightarrow> off st" and came_back_off: "came_back step k err st \<Longrightarrow> off st"
  by (auto simp: due_def came_back_def)

lemma run_action_reading:
  assumes "reading d t0 (due d (Name step) k) s"
  shows "wp (run_action step c data) (\<lambda>(out, err). reading d t0 (\<lambda>st. st = Called (Name step) k err))
    (readable d t0) s"
proof (cases "Action step")
  case None
  then show ?thesis using reading_any [OF assms] by (simp add: run_action_def wp_panic)
next
  case (Some f)
  let ?s = "s\<lparr>trace := trace s @ [ObsAction (Name step) (OperationID c) data]\<rparr>"
  have "reading d t0 (\<lambda>st. st = Calling (Name step) k) ?s"
    by (rule reading_note [OF assms]) (simp add: due_def)
  then have "wp (in_world (f c data)) (\<lambda>_. reading d t0 (\<lambda>st. st = Calling (Name step) k))
      (reading d t0 (\<lambda>st. st = Calling (Name step) k)) ?s"
    by (intro over_wp in_world_without)
  moreover have "reading d t0 (\<lambda>st. st = Called (Name step) k err)
      (t\<lparr>trace := trace t @ [ObsActionReturned (Name step) out err]\<rparr>)"
    if "reading d t0 (\<lambda>st. st = Calling (Name step) k) t" for t out err
    by (rule reading_note [OF that]) simp
  ultimately show ?thesis
    unfolding run_action_def Some option.case wp_seq [of "emit x" for x] wp_emit wp_bind [of "in_world m" for m]
    by (elim wp_mono) (auto simp: wp_seq wp_emit wp_ret intro: reading_any)
qed

lemma callAction_reading:
  assumes "reading d t0 (due d (Name step) k) s"
  shows "wp (callAction rs c opID step (step_timeout step) data) (\<lambda>(out, err). reading d t0 (came_back step k err))
    (readable d t0) s"
proof -
  have same: "reading d t0 (came_back step k err) t" if "reading d t0 (\<lambda>st. st = Called (Name step) k err) t" for err t
    by (rule reading_mono [OF that]) (auto simp: came_back_def)
  have late: "reading d t0 (came_back step k err') t"
    if "reading d t0 (\<lambda>st. st = Called (Name step) k err) t" "\<not> sint (step_timeout step) \<le> 0" for err err' t
    by (rule reading_mono [OF that(1)]) (use that(2) in \<open>auto simp: came_back_def\<close>)
  show ?thesis
    unfolding callAction_def Let_def case_prod_unfold
    by (rule span_wp [OF reading_stable _ reading_stable assms, unfolded case_prod_unfold])
       (auto simp: wp_bind wp_in_world wp_new_ref wp_WithTimeoutCause wp_context_Cause wp_ret
          intro!: wp_mono [OF run_action_reading [unfolded case_prod_unfold]] reading_stable intro: same late)
qed

text \<open>The wait between two attempts.\<close>

lemma sleepOrDone_reading:
  assumes "reading d t0 (came_back step k (Some x)) s" and "\<not> isNonRetryable x" and "step \<in> set (d_steps d)"
    and "k < MaxAttempts (policy_of d step)" and "Delay (policy_of d step) (k + 1) w = (Ret wait, w')"
  shows "wp (sleepOrDone c wait) (\<lambda>e. reading d t0 (\<lambda>st. off st \<and> (e = None \<longrightarrow> due d (Name step) (k + 1) st)))
    (readable d t0) s"
proof -
  let ?n = "Name step"
  have again: "\<exists>err. st = Called ?n k err \<and> may_retry d ?n k err" if "came_back step k (Some x) st" for st
    using that assms(2-4) by (auto simp: came_back_def may_retry_def)
  have asked: "asks_for d ?n (k + 1) wait" using assms(3,5) by (auto simp: asks_for_def)
  have now: "reading d t0 (due d ?n (k + 1)) t" if "reading d t0 (came_back step k (Some x)) t" "sint wait \<le> 0" for t
    by (rule reading_mono [OF that(1)]) (use that(2) asked in \<open>auto simp: due_def dest!: again\<close>)
  have later: "reading d t0 (due d ?n (k + 1)) (s\<lparr>trace := trace s @ [ObsSleep wait]\<rparr>)" if "\<not> sint wait \<le> 0"
    by (rule reading_note [OF assms(1)]) (use that asked in \<open>auto simp: due_def dest!: again\<close>)
  have over: "keeps (without (\<lambda>x. \<not> passed_over x)) (bind_go (in_world (ctx_Done c)) (\<lambda>done.
        if done then in_world (context_Cause c) else ret None))"
      "keeps (without (\<lambda>x. \<not> passed_over x)) (bind_go (in_world (timer_or_done c wait)) (\<lambda>fin.
        case fin of None \<Rightarrow> ret None | Some e \<Rightarrow> in_world (context_Cause c)))"
    by (intro without_rules)+
  show ?thesis
    unfolding sleepOrDone_def wp_if wp_seq [of "emit x" for x] wp_emit
    by (auto intro!: wp_mono [OF over_wp [OF over(1) now [OF assms(1)]]] wp_mono [OF over_wp [OF over(2) later]]
        intro: reading_mono [of _ _ "due d ?n (k + 1)"] dest: due_off)
qed

lemma run_attempts_reading:
  assumes "rs_def rs = d" and "step \<in> set (d_steps d)"
  shows "reading d t0 (due d (Name step) k) s \<Longrightarrow>
    wp (run_attempts rs c ste opID i step data k) (\<lambda>_. reading d t0 off) (readable d t0) s"
proof (induction "nat (MaxAttempts (retryPolicyFor rs step) - k)" arbitrary: k s rule: less_induct)
  case less
  let ?P = "retryPolicyFor rs step" and ?over = "without (\<lambda>x. \<not> passed_over x)"
  have policy: "?P = policy_of d step" using assms(1) by (simp add: retryPolicyFor_def policy_of_def split: option.split)
  have world: "keeps ?over (in_world m)" for m :: "(('a, 'b) world, 'z) go" by (rule in_world_without)
  have cause: "wp (bind_go (in_world (context_Cause c)) (\<lambda>cause. ret (None, cause))) (\<lambda>_. reading d t0 off) (readable d t0) t"
    if "reading d t0 off t" for t
    using that reading_any by (auto simp: wp_bind wp_ret intro!: wp_mono [OF over_wp [OF world that]])
  have pause: "wp (bind_go (in_world (Delay ?P (k + 1))) (\<lambda>delay. bind_go (sleepOrDone c delay) (\<lambda>waitErr. case waitErr of
        Some e \<Rightarrow> ret (None, Some e) | None \<Rightarrow> run_attempts rs c ste opID i step data (k + 1))))
      (\<lambda>_. reading d t0 off) (readable d t0) t"
    if t: "reading d t0 (came_back step k (Some x)) t" and x: "\<not> isNonRetryable x" "\<not> MaxAttempts ?P \<le> k" for t x
  proof -
    have "wp (in_world (Delay ?P (k + 1))) (\<lambda>delay u. reading d t0 (came_back step k (Some x)) u
        \<and> (\<exists>w w'. Delay ?P (k + 1) w = (Ret delay, w'))) (readable d t0) t"
      using reading_any [OF t] t unfolding wp_in_world by (auto simp: wp_def split: prod.split outcome.split)
    moreover have "wp (case e of Some e \<Rightarrow> ret (None, Some e) | None \<Rightarrow> run_attempts rs c ste opID i step data (k + 1))
        (\<lambda>_. reading d t0 off) (readable d t0) u"
      if "reading d t0 (\<lambda>st. off st \<and> (e = None \<longrightarrow> due d (Name step) (k + 1) st)) u" for e u
    proof (cases e)
      case None
      have "reading d t0 (due d (Name step) (k + 1)) u" by (rule reading_mono [OF that]) (simp add: None)
      then show ?thesis using None less.hyps [of "k + 1" u] x(2) by simp
    next
      case (Some y)
      then show ?thesis using reading_mono [OF that, of off] by (simp add: wp_ret)
    qed
    ultimately show ?thesis
      unfolding wp_bind [of "in_world m" for m]
      by (elim wp_mono)
         (use x policy assms(2) in \<open>auto simp: wp_bind intro!: wp_mono [OF sleepOrDone_reading]\<close>)
  qed
  let ?tail = "\<lambda>x. bind_go (in_world (ctx_Done c)) (\<lambda>done.
      if done then bind_go (in_world (context_Cause c)) (\<lambda>cause. ret (None, cause))
      else if isNonRetryable x \<or> MaxAttempts ?P \<le> k then ret (None, Some (StepError (Name step) (Some x)))
      else bind_go (in_world (Delay ?P (k + 1))) (\<lambda>delay. bind_go (sleepOrDone c delay) (\<lambda>waitErr. case waitErr of
        Some e \<Rightarrow> ret (None, Some e) | None \<Rightarrow> run_attempts rs c ste opID i step data (k + 1))))"
  have failed: "wp (?tail x) (\<lambda>_. reading d t0 off) (readable d t0) t"
    if t: "reading d t0 (came_back step k (Some x)) t" for t x
  proof -
    let ?t = "t\<lparr>world := tick (world t)\<rparr>"
    have "reading d t0 off ?t" "reading d t0 (came_back step k (Some x)) ?t"
      using reading_mono [OF t came_back_off] t by simp_all
    then show ?thesis
      using cause [of ?t] pause [of x ?t]
      by (auto simp: wp_bind [of "in_world (ctx_Done c)"] wp_in_world [of "ctx_Done c"] wp_ctx_Done wp_ret)
  qed
  have called: "wp (bind_go (saga_expired c ste) (\<lambda>expired. if expired then ret (None, ste) else (case err of
        None \<Rightarrow> ret (out, None) | Some x \<Rightarrow> ?tail x))) (\<lambda>_. reading d t0 off) (readable d t0) t"
    if t: "reading d t0 (came_back step k err) t" for t out err
    unfolding wp_bind [of "saga_expired c ste"]
  proof (rule wp_mono [OF over_wp [OF saga_expired_without t]])
    fix b u assume u: "reading d t0 (came_back step k err) u"
    have "reading d t0 off u" using reading_mono [OF u came_back_off] .
    then show "wp (if b then ret (None, ste) else (case err of None \<Rightarrow> ret (out, None) | Some x \<Rightarrow> ?tail x))
        (\<lambda>_. reading d t0 off) (readable d t0) u"
      using failed u by (cases b; cases err) (simp_all only: wp_ret if_True if_False option.case)
  qed (rule reading_any)
  have s: "reading d t0 (due d (Name step) k) (s\<lparr>world := w, exec := e\<rparr>)" for w e
    using less.prems by simp
  have off_again: "wp (bind_go (in_world (context_Cause c)) (\<lambda>cause. ret (None, cause))) (\<lambda>_. reading d t0 off)
      (readable d t0) (s\<lparr>world := tick (world s)\<rparr>)"
    by (rule cause) (use reading_mono [OF less.prems, of off] due_off in auto)
  show ?case
    using off_again
    by (subst run_attempts.simps)
       (auto simp: wp_bind [of "in_world (ctx_Done c)"] wp_in_world [of "ctx_Done c"] wp_ctx_Done
          wp_seq [of "upd_step i f" for f] wp_upd_step
          wp_bind [of "callAction rs c opID step data' x" for data' x]
        intro!: wp_mono [OF callAction_reading [OF s]] called)
qed

section \<open>The whole run\<close>

abbreviation resting :: "('d, 'u) definition_ \<Rightarrow> 'd obs list \<Rightarrow> ('d, 'u) machine \<Rightarrow> bool" where
  "resting d t0 \<equiv> reading d t0 (\<lambda>st. st = Resting)"

lemma runStep_reading:
  assumes "resting d t0 s" and "i < length (d_steps d)" and "rs_def rs = d"
  shows "wp (runStep rs c ste eid i (d_steps d ! i) x) (\<lambda>(out, err).
      case err of None \<Rightarrow> reading d t0 off | Some y \<Rightarrow> reading d t0 off) (readable d t0) s"
proof -
  have "reading d t0 (due d (Name (d_steps d ! i)) 1) s"
    by (rule reading_mono [OF assms(1)]) (simp add: due_def)
  then show ?thesis
    unfolding runStep_def using assms(2,3)
    by (intro wp_mono [OF run_attempts_reading]) (auto split: option.split)
qed

lemma invokeCompensate_reading:
  assumes "resting d t0 s"
  shows "wp (invokeCompensate rs c i f) (\<lambda>_. resting d t0) (readable d t0) s"
proof -
  have stable: "stable (readable d t0) (resting d t0)" by (rule reading_stable)
  have body: "wp (seq_go (emit (ObsCompensate n op x)) (bind_go (in_world m) (\<lambda>err.
      seq_go (emit (ObsCompensateReturned n err)) (ret err)))) (\<lambda>_. resting d t0) (readable d t0) t"
    if t: "resting d t0 t" for n op x m t
  proof -
    have "resting d t0 (t\<lparr>trace := trace t @ [ObsCompensate n op x]\<rparr>)" by (rule reading_note [OF t]) simp
    from over_wp [OF in_world_without this] show ?thesis
      unfolding wp_seq [of "emit x" for x] wp_emit wp_bind [of "in_world m" for m]
      by (rule wp_mono) (auto simp: wp_ret intro: reading_any reading_note)
  qed
  show ?thesis
    unfolding invokeCompensate_def Let_def
    by (simp add: wp_bind [of "gets f" for f] wp_gets, rule span_wp [OF stable stable reading_stable assms])
       (rule body)
qed

lemma put_reading:
  assumes "reading d t0 off s"
  shows "put_result s e err t \<Longrightarrow> unless_err (\<lambda>_. readable d t0) (resting d t0) err t"
    and "put s e t \<Longrightarrow> readable d t0 t"
proof -
  assume "put_result s e err t"
  then obtain tr where tr: "trace t = trace s @ tr" "list_all clerical tr" "err = None \<longrightarrow> saves_of tr \<noteq> []"
    by (auto simp: put_result_def split: option.splits)
  have "reading d t0 (\<lambda>st. err = None \<longrightarrow> st = Resting) t"
    by (rule reading_more [OF assms tr(1)]) (use attempts_clerical [OF tr(2)] tr(3) in fastforce)
  then show "unless_err (\<lambda>_. readable d t0) (resting d t0) err t"
    using reading_any by (cases err) auto
next
  assume "put s e t"
  then obtain tr where tr: "trace t = trace s @ tr" "list_all clerical tr" by (auto simp: put_def)
  show "readable d t0 t"
    by (rule reading_more [OF assms tr(1)]) (use attempts_clerical [OF tr(2)] in fastforce)
qed

lemma transition_reading:
  assumes "reading d t0 off s"
  shows "wp (transitionStep rs c i ts) (unless_err (\<lambda>_. readable d t0) (resting d t0)) (readable d t0) s"
    and "wp (transitionExec rs c st) (unless_err (\<lambda>_. readable d t0) (resting d t0)) (readable d t0) s"
proof -
  have "readable d t0 t" if "unmoved s t" for t
    using that reading_any [OF assms] by (simp add: unmoved_def reading_def)
  then show "wp (transitionStep rs c i ts) (unless_err (\<lambda>_. readable d t0) (resting d t0)) (readable d t0) s"
      "wp (transitionExec rs c st) (unless_err (\<lambda>_. readable d t0) (resting d t0)) (readable d t0) s"
    using put_reading [OF assms]
    by (auto intro!: wp_mono [OF transitionStep_put] wp_mono [OF transitionExec_put])
qed

lemma complete_reading:
  assumes "reading d t0 off s"
  shows "wp (transitionExec rs c st) (\<lambda>_. readable d t0) (readable d t0) s"
  by (rule wp_mono [OF transition_reading(2) [OF assms]])
     (auto simp: unless_err_def intro: reading_any split: option.splits)

lemma resting_off: "resting d t0 s \<Longrightarrow> reading d t0 off s"
  by (erule reading_mono) simp

text \<open>Where a run enters: no attempt is under way.\<close>

definition entering :: "('d, 'u) definition_ \<Rightarrow> 'd obs list \<Rightarrow> ('d, 'u) machine \<Rightarrow> bool" where
  "entering d t0 s \<longleftrightarrow> resting d t0 s \<and> Valid (Status (exec s))"

lemma entering_stable: "stable (readable d t0) (entering d t0)"
proof -
  have "entering d t0 t" if "entering d t0 s" "idle s t" for s t
    using that reading_idle core_same(1) [of "exec t" "exec s"] unfolding entering_def idle_def by metis
  then show ?thesis unfolding stable_def entering_def using reading_any by blast
qed

lemma settle_reading:
  "reading d t0 off s \<Longrightarrow> wp (transitionExec rs c st) (unless_err (\<lambda>_. readable d t0) (readable d t0)) (readable d t0) s"
  by (erule wp_mono [OF transition_reading(2)]) (auto simp: unless_err_def intro: reading_any split: option.splits)

lemma lease_reading:
  fixes s :: "('a, 'b) machine"
  assumes "entering d t0 s"
  shows "wp (do_Acquire l c eid own ttl) (\<lambda>(ok, err) t. case err of
        Some y \<Rightarrow> readable d t0 t | None \<Rightarrow> if ok then entering d t0 t else readable d t0 t) (readable d t0) s"
proof -
  have s: "resting d t0 s" "Valid (Status (exec s))" using assms unfolding entering_def by blast+
  have over: "resting d t0 t" if "trace t = trace s @ tr" "list_all passed_over tr" for tr and t :: "('a, 'b) machine"
    by (rule reading_over [OF s(1)]) (use that in \<open>auto simp: without_def\<close>)
  have resting: "resting d t0 t" if "trace t = trace s @ [ObsAcquire eid own, ObsAcquired b]" for b and t :: "('a, 'b) machine"
    by (rule over [OF that]) simp
  show ?thesis
  proof (rule wp_mono [OF do_Acquire_said])
    fix p and t :: "('a, 'b) machine"
    assume "(case p of (ok, err) \<Rightarrow> \<lambda>t. exec t = exec s
      \<and> trace t = trace s @ [ObsAcquire eid own, ObsAcquired (ok \<and> err = None)]) t"
    then have "resting d t0 t" "exec t = exec s" using resting by (auto split: prod.splits)
    then show "(case p of (ok, err) \<Rightarrow> \<lambda>t. (case err of Some y \<Rightarrow> readable d t0 t
        | None \<Rightarrow> if ok then entering d t0 t else readable d t0 t)) t"
      using s(2) reading_any unfolding entering_def by (auto split: prod.split option.split simp del: Valid_iff)
  next
    fix t :: "('a, 'b) machine"
    assume "exec t = exec s \<and> trace t = trace s @ [ObsAcquire eid own]"
    then show "readable d t0 t" by (intro reading_any [OF over]) auto
  qed
qed

lemma start_reading:
  assumes "entering d t0 s"
  shows "wp (transitionExec rs c StatusRunning) (unless_err (\<lambda>_. readable d t0)
      (\<lambda>t. entering d t0 t \<and> Status (exec t) = StatusRunning)) (readable d t0) s"
proof -
  have off: "reading d t0 off s" using assms resting_off unfolding entering_def by blast
  have "unless_err (\<lambda>_. readable d t0) (\<lambda>t. entering d t0 t \<and> Status (exec t) = StatusRunning) err t"
    if "moved_exec s StatusRunning e" "put_result s e err t" for e err t
    using that put_reading(1) [OF off that(2)] exec_transition_fields
    by (cases err) (fastforce simp: moved_exec_def put_result_def entering_def)+
  moreover have "readable d t0 t" if "unmoved s t \<or> (\<exists>e. moved_exec s StatusRunning e \<and> put s e t)" for t
    using that put_reading(2) [OF off] reading_any [OF off] by (auto simp: unmoved_def reading_def)
  ultimately show ?thesis by (intro wp_mono [OF transitionExec_put]) blast+
qed

lemma entering_facts:
  "entering d t0 s \<Longrightarrow> resting d t0 s" "entering d t0 s \<Longrightarrow> Valid (Status (exec s))" "entering d t0 s \<Longrightarrow> readable d t0 s"
  using reading_any by (auto simp: entering_def simp del: Valid_iff)

interpretation patience: engine_outline d "\<lambda>_. True" "\<lambda>_ _. True" "entering d t0" "readable d t0"
    "\<lambda>_ _. resting d t0" "\<lambda>_ _. resting d t0" "\<lambda>_ _. reading d t0 off" "\<lambda>_ _. reading d t0 off"
    "\<lambda>_ _. resting d t0" "\<lambda>_ _. resting d t0" "\<lambda>_ _. resting d t0" "\<lambda>_ _ _. resting d t0" "\<lambda>_. readable d t0"
  for d :: "('d, 'u) definition_" and t0
  by unfold_locales
    (auto simp: wp_seq wp_upd_step wp_upd_exec simp del: Valid_iff split del: if_split
      intro!: entering_stable reading_stable lease_reading start_reading transition_reading settle_reading
        complete_reading runStep_reading invokeCompensate_reading
      intro: reading_any resting_off entering_facts dest: entering_facts)

lemma Execute_reading:
  fixes s :: "('a, 'b) machine"
  shows "wp (Execute d c input) (\<lambda>_. readable (snd (Freeze d)) (trace s)) (readable (snd (Freeze d)) (trace s)) s"
proof -
  let ?d = "snd (Freeze d)"
  have first: "wp (store_Save ?d c) (unless_err (\<lambda>_. readable ?d (trace s)) (entering ?d (trace s))) (readable ?d (trace s)) u"
    if u: "trace u = trace s" "Status (exec u) = StatusPending" for u :: "('a, 'b) machine"
  proof -
    have off: "reading ?d (trace s) off u" using u(1) by (simp add: reading_def)
    have "unless_err (\<lambda>_. readable ?d (trace s)) (entering ?d (trace s)) err t" if "put_result u (exec u) err t" for err t
      using put_reading(1) [OF off that] that u(2) by (cases err) (auto simp: put_result_def entering_def)
    then show ?thesis using put_reading(2) [OF off] by (intro wp_mono [OF store_Save_put]) auto
  qed
  have "readable ?d (trace s) (s\<lparr>world := w\<rparr>)" for w by (simp add: reading_def)
  then have "wp (Execute d c input) (\<lambda>(err, d') t. readable ?d (trace s) t \<and> d' = ?d) (readable ?d (trace s)) s"
    by (intro patience.Execute_outline) (auto simp: new_execution_def intro!: first)
  then show ?thesis by (rule wp_mono) auto
qed

lemma unfrozen_attempts: "attempts (snd (Freeze d)) = attempts d"
proof -
  have "policy_of (snd (Freeze d)) = policy_of d"
    by (simp add: policy_of_def Freeze_def' fun_eq_iff split: option.split)
  then have "may_retry (snd (Freeze d)) = may_retry d" "asks_for (snd (Freeze d)) = asks_for d"
    by (simp_all add: may_retry_def asks_for_def Freeze_def' fun_eq_iff)
  then have "when_called (snd (Freeze d)) n st = when_called d n st" "when_slept (snd (Freeze d)) wait st = when_slept d wait st"
    for n wait st by (cases st; simp)+
  then have "attempt (snd (Freeze d)) st x = attempt d st x" for st x
    by (cases x) simp_all
  then have "attempts (snd (Freeze d)) st tr = attempts d st tr" for st tr
    by (induction d st tr rule: attempts.induct) simp_all
  then show ?thesis by (simp add: fun_eq_iff)
qed



end
