(* ===== verification/Attempt_Accounting.thy ===== *)
theory Attempt_Accounting
  imports Engine_Frames Order_Saga
begin

text \<open>
  The books of the attempts: the counter \<open>Attempts\<close> of a step, in every record the engine hands to
  the store, is what it was at the start of the run plus the calls of the step's action since
  (\<open>runStep\<close> in \<open>execute.go\<close>, \<open>step_execution.go\<close>).
\<close>

section \<open>Counting calls\<close>

fun is_call :: "string \<Rightarrow> 'd obs \<Rightarrow> bool" where
  "is_call n (ObsAction m op x) = (m = n)"
| "is_call n _ = False"

definition calls :: "'d obs list \<Rightarrow> string \<Rightarrow> int" where
  "calls tr n = int (length (filter (is_call n) tr))"

lemma calls_simps [simp]:
  "calls [] n = 0" "calls (x # tr) n = (if is_call n x then 1 else 0) + calls tr n"
  "calls (tr @ tr') n = calls tr n + calls tr' n"
  by (simp_all add: calls_def)

text \<open>The attempts of each step after the calls in \<open>tr\<close>, and a trace whose records say so.\<close>

definition credited :: "'d obs list \<Rightarrow> (string \<times> int) list \<Rightarrow> (string \<times> int) list" where
  "credited tr = map (\<lambda>(n, k). (n, k + calls tr n))"

primrec balanced :: "(string \<times> int) list \<Rightarrow> 'd obs list \<Rightarrow> bool" where
  "balanced c [] = True"
| "balanced c (x # tr) = ((case x of ObsSave e \<Rightarrow> map tally_of (Steps e) = c | _ \<Rightarrow> True)
     \<and> balanced (credited [x] c) tr)"

lemma credited_simps [simp]:
  "credited [] c = c" "credited tr (credited tr' c) = credited (tr' @ tr) c"
  "map fst (credited tr c) = map fst c"
  by (auto simp: credited_def fun_eq_iff)

lemma credited_none: "(\<And>n. calls tr n = 0) \<Longrightarrow> credited tr c = c"
  by (simp add: credited_def)

lemma balanced_append: "balanced c (xs @ ys) = (balanced c xs \<and> balanced (credited xs c) ys)"
  by (induction xs arbitrary: c) (auto split: obs.splits)

text \<open>In a balanced trace every saved record counts the calls made before it was saved.\<close>

lemma balanced_saves:
  "balanced c tr \<Longrightarrow> tr = pre @ ObsSave e # post \<Longrightarrow> map tally_of (Steps e) = credited pre c"
  by (simp add: balanced_append)

section \<open>The books of a run\<close>

definition bookkept :: "('d, 'u) definition_ \<Rightarrow> bool" where
  "bookkept d \<longleftrightarrow> distinct (map Name (d_steps d)) \<and> (\<forall>st \<in> set (d_steps d). Action st \<noteq> None)
     \<and> (\<forall>t. d_tracer d = Some t \<longrightarrow> calm_tracer t)"

abbreviation tally :: "('d, 'u) machine \<Rightarrow> (string \<times> int) list" where
  "tally s \<equiv> map tally_of (Steps (exec s))"

text \<open>\<open>owed n\<close>: the attempt at \<open>n\<close> has been recorded and the call is still to come.\<close>

definition owed :: "string option \<Rightarrow> ('d, 'u) machine \<Rightarrow> ('d, 'u) machine \<Rightarrow> bool" where
  "owed debt s t \<longleftrightarrow> (\<exists>tr. trace t = trace s @ tr \<and> balanced (tally s) tr
     \<and> tally t = credited (tr @ (case debt of None \<Rightarrow> [] | Some n \<Rightarrow> [ObsAction n [] None])) (tally s))"

definition tallied :: "('d, 'u) definition_ \<Rightarrow> ('d, 'u) machine \<Rightarrow> ('d, 'u) machine \<Rightarrow> bool" where
  "tallied d s t \<longleftrightarrow> (bookkept d \<and> map fst (tally s) = map Name (d_steps d) \<longrightarrow> owed None s t)"

lemma owed_world [simp]: "owed debt s (t\<lparr>world := w\<rparr>) = owed debt s t"
  by (simp add: owed_def)

lemma owed_refl [simp]: "owed None s s"
  by (simp add: owed_def)

lemma owed_trans: "owed None s t \<Longrightarrow> owed debt t u \<Longrightarrow> owed debt s u"
  by (fastforce simp: owed_def balanced_append)

lemma owed_names: "owed debt s t \<Longrightarrow> map fst (tally t) = map fst (tally s)"
  by (auto simp: owed_def simp del: map_map)

lemma tallied_trans: "tallied d s t \<Longrightarrow> tallied d t u \<Longrightarrow> tallied d s u"
  unfolding tallied_def using owed_trans owed_names by metis

fun booked :: "'d obs \<Rightarrow> bool" where
  "booked (ObsSave e) = True"
| "booked (ObsAction n op x) = True"
| "booked _ = False"

lemma unbooked_calls: "list_all (\<lambda>x. \<not> booked x) tr \<Longrightarrow> calls tr n = 0"
  by (induction tr) (auto elim: is_call.elims)

lemma unbooked_balanced: "list_all (\<lambda>x. \<not> booked x) tr \<Longrightarrow> balanced c tr"
proof (induction tr arbitrary: c)
  case (Cons x tr)
  then show ?case by (cases x) auto
qed simp

lemma observer_unbooked: "is_observer x \<or> is_span x \<Longrightarrow> \<not> booked x"
  by (cases x) auto

text \<open>Observers change nothing in the books, paid or owed.\<close>

lemma unbooked_owed:
  assumes "tally t = tally u" and "trace t = trace u @ tr" and "list_all (\<lambda>x. \<not> booked x) tr"
    and "owed debt s u"
  shows "owed debt s t"
proof -
  obtain tr' where "trace u = trace s @ tr'" "balanced (tally s) tr'"
      "tally u = credited (tr' @ (case debt of None \<Rightarrow> [] | Some n \<Rightarrow> [ObsAction n [] None])) (tally s)"
    using assms(4) by (auto simp: owed_def)
  then have "trace t = trace s @ (tr' @ tr)" "balanced (tally s) (tr' @ tr)"
      "tally t = credited ((tr' @ tr) @ (case debt of None \<Rightarrow> [] | Some n \<Rightarrow> [ObsAction n [] None])) (tally s)"
    using assms(1,2) unbooked_calls [OF assms(3)] unbooked_balanced [OF assms(3)] by (simp_all add: balanced_append credited_def)
  then show ?thesis unfolding owed_def by blast
qed

lemma unbooked_keeps:
  assumes "keeps quiet m" and "keeps (without booked) m"
  shows "owed debt s u \<Longrightarrow> owed debt s (snd (m u))" "keeps (tallied d) m"
proof -
  show *: "owed debt s (snd (m u))" if "owed debt s u" for s u and debt
    using assms unbooked_owed [OF _ _ _ that, of "snd (m u)"] unfolding keeps_def quiet_def without_def by metis
  show "keeps (tallied d) m" unfolding keeps_def tallied_def using * owed_refl by blast
qed

section \<open>The operations that write in the books\<close>

interpretation tf: machine_frame "tallied d" for d
proof unfold_locales
  fix s t u :: "('a, 'b) machine" and w
  show "tallied d s s" and "tallied d s (s\<lparr>world := w\<rparr>)" by (simp_all add: tallied_def)
  show "tallied d s t \<Longrightarrow> tallied d t u \<Longrightarrow> tallied d s u" by (rule tallied_trans)
next
  fix e :: "'a execution" and s :: "('a, 'b) machine"
  assume "map tally_of (Steps e) = tally s"
  then show "tallied d s (s\<lparr>exec := e\<rparr>)" by (simp add: tallied_def owed_def)
qed

text \<open>Recording an attempt runs the debt up, and the call pays it.\<close>

lemma attempt_owed:
  assumes "bookkept d" and "map fst (tally s) = map Name (d_steps d)" and "k < length (d_steps d)"
  shows "owed (Some (Name (d_steps d ! k))) s (s\<lparr>exec := (exec s)\<lparr>Steps :=
    (Steps (exec s))[k := (Steps (exec s) ! k)\<lparr>sAttempts := sAttempts (Steps (exec s) ! k) + 1\<rparr>]\<rparr>\<rparr>)"
proof -
  let ?ss = "Steps (exec s)"
  have len: "length ?ss = length (d_steps d)" using assms(2) by (metis length_map)
  have name: "sName (?ss ! j) = Name (d_steps d ! j)" if "j < length (d_steps d)" for j
    using arg_cong [OF assms(2), of "\<lambda>xs. xs ! j"] that len by (simp add: tally_of_def)
  have "Name (d_steps d ! k) \<noteq> Name (d_steps d ! j)" if "j < length (d_steps d)" "k \<noteq> j" for j
    using assms(1,3) that by (auto simp: bookkept_def distinct_conv_nth)
  then have "map tally_of (?ss[k := (?ss ! k)\<lparr>sAttempts := sAttempts (?ss ! k) + 1\<rparr>])
      = credited [ObsAction (Name (d_steps d ! k)) [] None] (map tally_of ?ss)"
    using assms(3) len name
    by (intro nth_equalityI) (auto simp: credited_def tally_of_def nth_list_update)
  then show ?thesis by (simp add: owed_def)
qed

lemma run_action_pays:
  assumes "Action step \<noteq> None" and "owed (Some (Name step)) s t"
  shows "wp (run_action step c data) (\<lambda>_. owed None s) (owed None s) t"
proof -
  obtain tr where tr: "trace t = trace s @ tr" "balanced (tally s) tr"
      "tally t = credited (tr @ [ObsAction (Name step) [] None]) (tally s)"
    using assms(2) by (auto simp: owed_def)
  have paid: "owed None s u" if "tally u = tally t" "trace u = trace t @ ObsAction (Name step) op x # rest"
      "rest = [] \<or> (\<exists>m out err. rest = [ObsActionReturned m out err])" for u op x rest
  proof -
    have "balanced (tally s) (tr @ ObsAction (Name step) op x # rest)"
      using that(3) tr(2) by (auto simp: balanced_append)
    moreover have "tally u = credited (tr @ ObsAction (Name step) op x # rest) (tally s)"
      unfolding that(1) tr(3) using that(3) by (auto simp: credited_def)
    ultimately show ?thesis using that(2) tr(1) by (auto simp: owed_def)
  qed
  obtain f where f: "Action step = Some f" using assms(1) by blast
  have "wp (f c data) (\<lambda>a w. case a of (out, err) \<Rightarrow> owed None s (t\<lparr>world := w, trace := trace t
        @ [ObsAction (Name step) (OperationID c) data, ObsActionReturned (Name step) out err]\<rparr>))
      (\<lambda>w. owed None s (t\<lparr>trace := trace t @ [ObsAction (Name step) (OperationID c) data], world := w\<rparr>)) (world t)"
    by (rule wp_callback; clarsimp; rule paid) auto
  then show ?thesis
    by (simp add: run_action_def f wp_seq wp_emit wp_bind wp_in_world wp_case_prod wp_ret)
qed

lemma callAction_pays:
  fixes s t :: "('a, 'b) machine"
  assumes d: "bookkept (rs_def rs)" and step: "step \<in> set (d_steps (rs_def rs))" and "owed (Some (Name step)) s t"
  shows "wp (callAction rs c op step timeout data) (\<lambda>_. owed None s) (owed None s) t"
proof -
  have act: "Action step \<noteq> None" using d step by (auto simp: bookkept_def)
  have fin: "wp m (\<lambda>_. owed debt s) (owed debt s) u"
    if "keeps quiet m" "keeps (without booked) m" "owed debt s u" for m :: "('a, 'b, 'c) engine" and debt u
    using unbooked_keeps(1) [OF that] by (simp add: wp_final)
  have span: "wp (startSpan rs c n) (\<lambda>(c', fin) u. owed (Some (Name step)) s u \<and> keeps quiet fin \<and> keeps (without booked) fin)
      (\<lambda>_. False) t" for c n
  proof -
    have "never_panics (startSpan rs c n)"
      using d unfolding startSpan_def by (intro calm_rules) (auto simp: bookkept_def calm_tracer_def)
    moreover have "owed (Some (Name step)) s (snd (startSpan rs c n t))"
      by (rule unbooked_keeps(1) [OF startSpan_quiet startSpan_without assms(3)])
        (use observer_unbooked in blast)
    moreover obtain c' fin u where u: "startSpan rs c n t = (Ret (c', fin), u)"
      using calculation(1) unfolding never_panics_def by (metis prod.exhaust)
    moreover have "keeps quiet fin" "keeps (without booked) fin"
      using startSpan_end_quiet [OF u] startSpan_end_without [OF u] observer_unbooked by blast+
    ultimately show ?thesis by (simp add: wp_def)
  qed
  show ?thesis
    unfolding callAction_def Let_def wp_bind [of "startSpan _ _ _"]
  proof (rule wp_mono [OF span], clarify)
    fix c' u and fin :: "('a, 'b, unit) engine"
    assume u: "owed (Some (Name step)) s u" and "keeps quiet fin" "keeps (without booked) fin"
    then have last: "wp fin (\<lambda>_. owed None s) (owed None s) v" if "owed None s v" for v
      using that by (intro fin)
    have act: "wp (run_action step c' data) Q E v" if "owed (Some (Name step)) s v"
        "\<And>a v. owed None s v \<Longrightarrow> Q a v" "\<And>v. owed None s v \<Longrightarrow> E v" for c' Q E v
      using run_action_pays [OF act that(1)] that(2,3) by (rule wp_mono)
    let ?err = "\<lambda>r. StepTimeoutError r (Name step) timeout"
    let ?timed = "bind_go (in_world new_ref) (\<lambda>r.
        bind_go (in_world (context_WithTimeoutCause c' timeout (?err r))) (\<lambda>actionCtx.
        bind_go (run_action step actionCtx data) (\<lambda>(out, err).
        bind_go (in_world (context_Cause actionCtx)) (\<lambda>cause.
          if errors_Is_opt cause (?err r) then ret (None, Some (?err r)) else ret (out, err)))))"
    have "wp (deferred fin (run_action step c' data)) (\<lambda>_. owed None s) (owed None s) u"
      using u by (simp add: wp_deferred; intro act last)
    moreover have "wp (deferred fin ?timed) (\<lambda>_. owed None s) (owed None s) u"
      using u by (simp add: wp_simps; intro act last) (auto simp: wp_simps intro: last)
    ultimately show "wp (deferred fin (if sint timeout \<le> 0 then run_action step c' data else ?timed))
        (\<lambda>_. owed None s) (owed None s) u" by simp
  qed simp
qed

lemma run_attempts_tallied:
  assumes "rs_def rs = d" and "k < length (d_steps d)" and "step = d_steps d ! k"
  shows "keeps (tallied d) (run_attempts rs c ste opID k step data attempt)"
proof (induction "nat (MaxAttempts (retryPolicyFor rs step) - attempt)" arbitrary: attempt
    rule: less_induct)
  case less
  have sleep: "keeps (tallied d) (sleepOrDone c delay)" for delay
    by (rule unbooked_keeps(2) [OF sleepOrDone_quiet sleepOrDone_without]) simp
  have expired: "keeps (tallied d) (saga_expired c ste)"
    by (rule unbooked_keeps(2) [OF saga_expired_quiet saga_expired_without])
  have again: "keeps (tallied d) (run_attempts rs c ste opID k step data (attempt + 1))"
    if "\<not> (isNonRetryable x \<or> MaxAttempts (retryPolicyFor rs step) \<le> attempt)" for x
    using that by (intro less.hyps) simp
  have call: "keeps (tallied d) (seq_go (upd_step k (\<lambda>s. s\<lparr>sAttempts := sAttempts s + 1\<rparr>))
      (bind_go (callAction rs c opID step (step_timeout step) data) f))" (is "keeps _ ?m")
    if "\<And>p. keeps (tallied d) (f p)" for f :: "'a any \<times> gerr option \<Rightarrow> ('a, 'b, 'a any \<times> gerr option) engine"
    unfolding keeps_def
  proof
    fix s :: "('a, 'b) machine"
    show "tallied d s (snd (?m s))"
    proof (cases "bookkept d \<and> map fst (tally s) = map Name (d_steps d)")
      case True
      have rest: "wp (f p) (\<lambda>_. tallied d s) (tallied d s) t" if "owed None s t" for p t
        using \<open>\<And>p. keeps (tallied d) (f p)\<close> tallied_trans [of d s t] that
        unfolding wp_final keeps_def by (metis tallied_def)
      have "step \<in> set (d_steps (rs_def rs))" "bookkept (rs_def rs)" using assms True by simp_all
      note paid = callAction_pays [OF this(2,1) attempt_owed [of d s k, folded assms(3)]]
      have "wp ?m (\<lambda>_. tallied d s) (tallied d s) s"
        unfolding wp_seq wp_upd_step wp_bind
        by (rule wp_mono [OF paid]) (use True assms(2) rest in \<open>auto simp: tallied_def\<close>)
      then show ?thesis by (simp add: wp_final)
    qed (auto simp: tallied_def)
  qed
  show ?case
    by (subst run_attempts.simps)
       (intro tf.ret_frame tf.bind_frame tf.if_frame tf.option_frame tf.prod_frame tf.in_world_keeps call
          sleep expired; rule again; assumption)
qed

lemma save_tallied: "keeps (tallied d) (save rs c)"
proof -
  have "wp (save rs c) (\<lambda>_. owed None s) (owed None s) s" for s :: "('a, 'b) machine"
    by (auto simp: save_def do_Acquire_def store_Save_def wp_simps owed_def credited_def
        intro!: wp_callback split: option.split)
  then show ?thesis by (auto simp: keeps_iff_wp wp_final tallied_def)
qed

lemma undo_tallied: "keeps (tallied d) (invokeCompensate rs c k g)"
proof -
  have emits: "keeps (tallied d) (emit x)" if "saves_of [x] = []" "\<not> booked x" for x
    by (rule unbooked_keeps(2) [OF emit_quiet emit_without]) (use that in auto)
  have span: "keeps (tallied d) (bind_go (startSpan rs c n) (\<lambda>(c', fin). deferred fin (f c')))"
    if "\<And>c'. keeps (tallied d) (f c')" for c n and f :: "ctx \<Rightarrow> ('a, 'b, gerr option) engine"
  proof (rule tf.bind_frame_ret)
    show "keeps (tallied d) (startSpan rs c n)"
      by (rule unbooked_keeps(2) [OF startSpan_quiet startSpan_without]) (use observer_unbooked in blast)
    fix s p t assume r: "startSpan rs c n s = (Ret p, t)"
    obtain c' fin where p: "p = (c', fin)" by (cases p)
    have "keeps (tallied d) fin"
      using r unfolding p
      by (intro unbooked_keeps(2) startSpan_end_quiet startSpan_end_without) (use observer_unbooked in blast)+
    then show "keeps (tallied d) (case p of (c', fin) \<Rightarrow> deferred fin (f c'))"
      using p that by (simp add: tf.deferred_frame)
  qed
  show ?thesis
    unfolding invokeCompensate_def Let_def
    by (intro tf.bind_frame [OF tf.gets_frame] span tf.machine_rules emits; simp)
qed

interpretation books: observed_frame "tallied d" "\<lambda>rs. rs_def rs = d" "\<lambda>_. True" for d
proof unfold_locales
  fix x :: "'a obs" and s :: "('a, 'b) machine"
  assume "is_observer x"
  then show "tallied d s (s\<lparr>trace := trace s @ [x]\<rparr>)"
    using unbooked_owed [of "s\<lparr>trace := trace s @ [x]\<rparr>" s "[x]" None s] observer_unbooked [of x]
    by (simp add: tallied_def)
next
  fix f :: "string \<Rightarrow> ('a, 'b, gerr option) engine"
  assume "\<And>i. True \<Longrightarrow> keeps (tallied d) (f i)"
  then show "keeps (tallied d) (bind_go (gets (\<lambda>m. ID (exec m))) f)" by (intro tf.machine_rules) simp
next
  fix rs :: "('a, 'b) run_state" and c
  show "keeps (tallied d) (release_lock rs c)"
    by (rule unbooked_keeps(2) [OF release_lock_quiet release_lock_without]) simp
qed (auto simp: runStep_def intro: save_tallied run_attempts_tallied undo_tallied)

section \<open>Every record balances\<close>

lemma resume_tallied: "keeps (tallied d) (resume d c)"
proof -
  have acquire: "keeps (tallied d) (do_Acquire l c i own ttl)" for l i own ttl
    by (rule unbooked_keeps(2) [OF do_Acquire_quiet]) (auto simp: do_Acquire_def intro!: without_rules)
  show ?thesis
    unfolding resume_def by (intro tf.machine_rules acquire books.resume_held_keeps) simp_all
qed

lemma store_Save_tallied: "keeps (tallied d) (store_Save d' c)"
proof -
  have "wp (store_Save d' c) (\<lambda>_. owed None s) (owed None s) s" for s :: "('a, 'b) machine"
    by (auto simp: store_Save_def wp_simps owed_def credited_def intro!: wp_callback)
  then show ?thesis by (auto simp: keeps_iff_wp wp_final tallied_def)
qed

lemma Freeze_bookkept [simp]:
  "bookkept (snd (Freeze d)) = bookkept d" "d_steps (snd (Freeze d)) = d_steps d"
  by (simp_all add: bookkept_def Freeze_def' split: option.split)

definition untried :: "('d, 'u) definition_ \<Rightarrow> (string \<times> int) list" where
  "untried d = map (\<lambda>st. (Name st, 0)) (d_steps d)"

lemma Execute_balanced:
  fixes s :: "('a, 'b) machine"
  assumes "bookkept d"
  shows "\<exists>tr. trace (snd (Execute d c input s)) = trace s @ tr \<and> balanced (untried d) tr"
proof -
  let ?d = "snd (Freeze d)"
  let ?ok = "\<lambda>u :: ('a, 'b) machine. \<exists>tr. trace u = trace s @ tr \<and> balanced (untried d) tr"
  have new: "tally u = untried d" if "exec u = new_execution ?d i input now" for i now and u :: "('a, 'b) machine"
    using that by (simp add: new_execution_def new_step_execution_def tally_of_def untried_def)
  have go: "keeps (tallied ?d) (bind_go (store_Save ?d c) (\<lambda>err. case err of
      Some x \<Rightarrow> ret (Some x, ?d) | None \<Rightarrow> bind_go (resume ?d c) (\<lambda>err. ret (err, ?d))))" (is "keeps _ ?m")
    by (intro tf.machine_rules store_Save_tallied resume_tallied)
  have rest: "wp ?m (\<lambda>_. ?ok) ?ok u"
    if u: "exec u = new_execution ?d i input now" "trace u = trace s" for i now and u :: "('a, 'b) machine"
  proof -
    have "map fst (untried d) = map Name (d_steps d)" by (simp add: untried_def)
    then have "owed None u (snd (?m u))"
      using go assms new [OF u(1)] unfolding keeps_def tallied_def by (simp del: map_map)
    then show ?thesis using new [OF u(1)] u(2) by (auto simp: owed_def wp_final)
  qed
  have "wp (Execute d c input) (\<lambda>_. ?ok) ?ok s"
    unfolding Execute_def Let_def
    by (auto simp: wp_bind wp_seq wp_in_world wp_time_Now wp_upd_exec
        intro!: wp_callback rest [unfolded wp_bind])
  then show ?thesis by (simp add: wp_final)
qed

text \<open>
  C6: attempts are counted, across retries and resumptions. In every record that a resumed run hands to
  the store, and in the one it leaves in memory, however it ends, the \<open>Attempts\<close> of each step are
  those it started with plus the calls of that step's action so far; a fresh execution starts at
  none. So the attempts a stored record shows are the calls made over the whole life of the execution.
\<close>

theorem attempts_are_counted:
  assumes "bookkept d" and "map sName (Steps (exec s)) = map Name (d_steps d)"
  shows "(\<exists>tr. trace (snd (resume d c s)) = trace s @ tr
        \<and> balanced (map tally_of (Steps (exec s))) tr
        \<and> map tally_of (Steps (exec (snd (resume d c s)))) = credited tr (map tally_of (Steps (exec s))))
    \<and> (\<exists>tr. trace (snd (Execute d c input s)) = trace s @ tr \<and> balanced (untried d) tr)"
proof -
  have "map fst (tally s) = map Name (d_steps d)" using assms(2) by (simp add: tally_of_def comp_def)
  then have "owed None s (snd (resume d c s))"
    using resume_tallied [of d c] assms(1) unfolding keeps_def tallied_def by blast
  then show ?thesis using Execute_balanced [OF assms(1)] unfolding owed_def by simp
qed

text \<open>A charge that is refused three times is recorded with three attempts.\<close>

theorem attempts_are_counted_witness:
  "\<exists>err t. resume retried_saga (Root 0) (order_start retried_saga) = (Ret err, t)
     \<and> balanced [(''charge'', 0)] (trace t) \<and> map tally_of (Steps (exec t)) = [(''charge'', 3)]"
proof -
  have d: "bookkept retried_saga"
    by (simp add: bookkept_def retried_saga_def refused_saga_def Step_def)
  have s: "map tally_of (Steps (exec (order_start retried_saga))) = [(''charge'', 0)]"
      "trace (order_start retried_saga) = []"
      "map sName (Steps (exec (order_start retried_saga))) = map Name (d_steps retried_saga)"
    by (simp_all add: order_start_def new_execution_def new_step_execution_def tally_of_def retried_saga_def
        refused_saga_def Step_def)
  have "\<exists>err t. resume retried_saga (Root 0) (order_start retried_saga) = (Ret err, t) \<and> calls (trace t) ''charge'' = 3"
    by (simp add: engine_eval retried_saga_def refused_saga_def FixedDelay_def fixedDelayPolicy_def operationID_def
        isNonRetryable_def)
  then obtain err t where r: "resume retried_saga (Root 0) (order_start retried_saga) = (Ret err, t)"
      "calls (trace t) ''charge'' = 3" by blast
  then show ?thesis
    using attempts_are_counted [OF d s(3), of "Root 0" None] unfolding s by (auto simp: credited_def)
qed

end
