(* ===== verification/Callback_Frames.thy ===== *)
theory Callback_Frames
  imports Idempotency_Keys
begin

text \<open>
  Frames of runs whose callbacks are not arbitrary. \<open>Engine_Frames\<close> is about relations that hold
  whatever a callback does to the world; here a relation \<open>R\<close> between the machine before and after is
  kept by the engine because every callback of the definition keeps it - an action only needs to when
  it is called with the key of its step. The locale \<open>callback_frame\<close> lists what \<open>R\<close> must be kept by: the
  library's own doings (clock, randomness, pointers), updates of the record, observations that are not
  about persisting, \<open>save\<close> as a whole, and each function a definition is made of.
\<close>

section \<open>The interface\<close>

text \<open>What the engine notes on the trace itself, outside \<open>save\<close> and the lease.\<close>

fun plain :: "'d obs \<Rightarrow> bool" where
  "plain (ObsRelease i own) = False"
| "plain x = (\<not> is_persist x)"

locale callback_frame = frame R
  for R :: "('d, 'u) machine \<Rightarrow> ('d, 'u) machine \<Rightarrow> bool" +
  fixes d :: "('d, 'u) definition_"
    and run_ok :: "('d, 'u) run_state \<Rightarrow> bool"
    and id_ok :: "string \<Rightarrow> bool"
  assumes run_def: "run_ok rs \<Longrightarrow> rs_def rs = d"
    and exec_step: "ID e = ID (exec s) \<Longrightarrow> R s (s\<lparr>exec := e\<rparr>)"
    and note_step: "plain obs \<Longrightarrow> R s (s\<lparr>trace := trace s @ [obs]\<rparr>)"
    and id_step: "(\<And>i. id_ok i \<Longrightarrow> keeps R (body i)) \<Longrightarrow>
      keeps R (bind_go (gets (\<lambda>m. ID (exec m))) (body :: string \<Rightarrow> ('d, 'u, gerr option) engine))"
    \<comment> \<open>the library's own doings\<close>
    and now_step: "keeps R (in_world time_Now)"
    and done_step: "keeps R (in_world (ctx_Done c))"
    and cause_step: "keeps R (in_world (context_Cause c))"
    and deadline_step: "keeps R (in_world (context_WithTimeoutCause c timeout y))"
    and ref_step: "keeps R (in_world new_ref)"
    and timer_step: "0 < sint wait \<Longrightarrow> keeps R (in_world (timer_or_done c wait))"
    \<comment> \<open>the functions of a definition\<close>
    and action_step: "step \<in> set (d_steps d) \<Longrightarrow> Action step = Some f \<Longrightarrow> id_ok i \<Longrightarrow>
      OperationID c = operationID i (Name step) \<Longrightarrow> keeps R (in_world (f c x))"
    and undo_step: "step \<in> set (d_steps d) \<Longrightarrow> Compensate step = Some g \<Longrightarrow> keeps R (in_world (g c x))"
    and delay_step: "step \<in> set (d_steps d) \<Longrightarrow> step_retryPolicy step = Some p \<Longrightarrow> keeps R (in_world (Delay p n))"
      "keeps R (in_world (Delay (d_retryPolicy d) n))"
    and save_step: "run_ok rs \<Longrightarrow> keeps R (save rs c)"
    and observe_step: "d_publisher d = Some pub \<Longrightarrow> keeps R (in_world (Publish pub c ev))"
      "d_logger d = Some lg \<Longrightarrow> keeps R (in_world (Log lg c level msg attrs))"
      "d_metrics d = Some m \<Longrightarrow> keeps R (in_world (IncCounter m n' labels))"
      "d_metrics d = Some m \<Longrightarrow> keeps R (in_world (ObserveDuration m n' k labels))"
    and span_step: "d_tracer d = Some tr \<Longrightarrow> keeps R (in_world (StartSpan tr c n'))"
      "d_tracer d = Some tr \<Longrightarrow> StartSpan tr c n' w = (Ret (c', fin), w') \<Longrightarrow>
        keeps R (in_world fin) \<and> OperationID c' = OperationID c"
begin

lemma emit_keeps: "plain x \<Longrightarrow> keeps R (emit x)"
  unfolding emit_def by (rule modify_frame) (rule note_step)

lemma upd_exec_keeps: "(\<And>e. ID (f e) = ID e) \<Longrightarrow> keeps R (upd_exec f)"
  unfolding upd_exec_def by (rule modify_frame) (simp add: exec_step)

lemma upd_step_keeps: "keeps R (upd_step i f)"
  unfolding upd_step_def by (rule upd_exec_keeps) simp

lemma set_CurrentStep_keeps: "keeps R (set_CurrentStep n)"
  unfolding set_CurrentStep_def by (rule upd_exec_keeps) simp

lemma step_at_keeps: "keeps R (step_at i)"
  unfolding step_at_def by (intro frame_rules)

lemmas rules = ret_frame panic_frame gets_frame bind_frame seq_frame deferred_frame on_panic_frame
  recovered_frame if_frame option_frame prod_frame upd_step_keeps set_CurrentStep_keeps step_at_keeps
  now_step done_step cause_step deadline_step ref_step

lemma noted_keeps: "plain x \<Longrightarrow> keeps R m \<Longrightarrow> keeps R (seq_go (emit x) m)"
  by (intro seq_frame emit_keeps)

lemma after_gets: "bind_go (gets f) m s = m (f s) s"
  and after_upd: "seq_go (upd_exec g) k s = k (s\<lparr>exec := g (exec s)\<rparr>)"
  by (simp_all add: bind_go_def seq_go_def gets_def upd_exec_def modify_def)

section \<open>The engine\<close>

lemma observers_keep:
  assumes "run_ok rs"
  shows "keeps R (publish rs c ev)" "keeps R (logEvent rs c ev)"
    "keeps R (incEventCounter rs ev)" "keeps R (observeDuration rs n k ls)"
  unfolding publish_def logEvent_def incEventCounter_def observeDuration_def Let_def run_def [OF assms]
  by (intro rules noted_keeps observe_step; (assumption | simp))+

lemma notify_keeps:
  assumes "run_ok rs"
  shows "keeps R (notifyExec rs c to')" "keeps R (notifyStep rs c i ts)"
proof -
  note obs = observers_keep [OF assms]
  show "keeps R (notifyExec rs c to')"
    unfolding notifyExec_def Let_def
    by (intro rules obs; (assumption | auto split: option.split bool.split intro!: rules obs))
  show "keeps R (notifyStep rs c i ts)"
    unfolding notifyStep_def publishAndLog_def Let_def by (intro rules obs; assumption)
qed

lemma startSpan_keeps: "run_ok rs \<Longrightarrow> keeps R (startSpan rs c n)"
  unfolding startSpan_def by (intro rules noted_keeps span_step) (simp_all add: run_def)

lemma startSpan_fin:
  assumes "run_ok rs" and "startSpan rs c n s = (Ret (c', fin), t)"
  shows "keeps R fin" "OperationID c' = OperationID c"
proof -
  have "wp (startSpan rs c n) (\<lambda>(c', fin) _. keeps R fin \<and> OperationID c' = OperationID c) (\<lambda>_. True) s"
  proof (cases "d_tracer d")
    case None
    then show ?thesis using run_def [OF assms(1)] by (simp add: startSpan_def wp_ret ret_frame)
  next
    case (Some tr)
    have "wp (in_world (StartSpan tr c n)) (\<lambda>(c', fin) _. keeps R (in_world fin) \<and> OperationID c' = OperationID c)
        (\<lambda>_. True) u" for u :: "('d, 'u) machine"
      using span_step(2) [OF Some] unfolding wp_in_world
      by (auto simp: wp_def split: prod.split outcome.split)
    then show ?thesis
      unfolding startSpan_def run_def [OF assms(1)] Some option.case wp_seq [of "emit x" for x] wp_emit
        wp_bind [of "in_world m" for m]
      by (rule wp_mono) (auto simp: wp_ret intro!: noted_keeps)
  qed
  from wp_RetD [OF this assms(2)] show "keeps R fin" "OperationID c' = OperationID c" by simp_all
qed

lemma with_span_keeps:
  assumes "run_ok rs" and "\<And>c'. OperationID c' = OperationID c \<Longrightarrow> keeps R (f c')"
  shows "keeps R (bind_go (startSpan rs c n) (\<lambda>(c', endSpan). deferred endSpan (f c')))"
  by (rule bind_frame_ret [OF startSpan_keeps [OF assms(1)]])
     (use assms(2) startSpan_fin [OF assms(1)] in \<open>auto intro!: deferred_frame\<close>)

lemma transitions_keep:
  assumes "run_ok rs"
  shows "keeps R (transitionExec rs c to')" "keeps R (transitionStep rs c i ts)"
proof -
  note parts = save_step [OF assms] notify_keeps [OF assms]
  show "keeps R (transitionStep rs c i ts)"
    unfolding transitionStep_def by (intro rules; auto split: sum.split intro!: rules parts)
  have "keeps R (bind_go (save rs c) (\<lambda>err. case err of
      Some x \<Rightarrow> ret (Some x) | None \<Rightarrow> seq_go (notifyExec rs c to') (ret None)))" (is "keeps R ?m")
    by (intro rules parts)
  then have put: "R s (snd (?m (s\<lparr>exec := e'\<rparr>)))" if "exec_transition (exec s) to' now = Inr e'" for s e' now
    using exec_step [OF exec_transition_fields(3) [OF that]] trans unfolding keeps_def by blast
  have "keeps R (bind_go (gets exec) (\<lambda>e. case exec_transition e to' now of
       Inl err \<Rightarrow> panic (Error_msg err) | Inr e' \<Rightarrow> seq_go (upd_exec (\<lambda>_. e')) ?m))" for now
    using put refl by (auto simp: keeps_def after_gets after_upd panic_def split: sum.split)
  then show "keeps R (transitionExec rs c to')"
    unfolding transitionExec_def by (rule bind_frame [OF now_step])
qed

lemma run_action_keeps:
  "step \<in> set (d_steps d) \<Longrightarrow> id_ok i \<Longrightarrow> OperationID c = operationID i (Name step) \<Longrightarrow>
   keeps R (run_action step c data)"
  unfolding run_action_def by (intro rules noted_keeps action_step; (assumption | simp))

lemma callAction_keeps:
  assumes "run_ok rs" and "step \<in> set (d_steps d)" and "id_ok i"
  shows "keeps R (callAction rs c (operationID i (Name step)) step timeout data)"
  unfolding callAction_def Let_def
proof (rule with_span_keeps [OF assms(1)])
  fix c' assume "OperationID c' = OperationID (withOperationID c (operationID i (Name step)))"
  then have key: "OperationID c' = operationID i (Name step)" by simp
  have timed: "OperationID c2 = operationID i (Name step)"
    if "in_world (context_WithTimeoutCause c' timeout y) s = (Ret c2, t)" for y c2 and s t :: "('d, 'u) machine"
    using deadline_key [OF that] key by simp
  show "keeps R (if sint timeout \<le> 0 then run_action step c' data
      else bind_go (in_world new_ref) (\<lambda>r.
        bind_go (in_world (context_WithTimeoutCause c' timeout (StepTimeoutError r (Name step) timeout)))
          (\<lambda>actionCtx. bind_go (run_action step actionCtx data) (\<lambda>(out, err).
            bind_go (in_world (context_Cause actionCtx)) (\<lambda>cause.
              if errors_Is_opt cause (StepTimeoutError r (Name step) timeout)
              then ret (None, Some (StepTimeoutError r (Name step) timeout)) else ret (out, err))))))"
    by (intro if_frame bind_frame [where m = "in_world new_ref"] ref_step
        run_action_keeps assms(2,3) key
        bind_frame_ret [where m = "in_world (context_WithTimeoutCause c' timeout e)" for e] deadline_step)
       (auto simp: key intro!: rules run_action_keeps assms(2,3) intro: timed)
qed

lemma retryPolicy_keeps:
  "run_ok rs \<Longrightarrow> step \<in> set (d_steps d) \<Longrightarrow> keeps R (in_world (Delay (retryPolicyFor rs step) n))"
  using delay_step run_def by (simp add: retryPolicyFor_def split: option.split)

lemma sleepOrDone_keeps: "keeps R (sleepOrDone c wait)"
  unfolding sleepOrDone_def by (intro rules noted_keeps timer_step) simp_all

lemma run_attempts_keeps:
  assumes "run_ok rs" and "step \<in> set (d_steps d)" and "id_ok i"
  shows "keeps R (run_attempts rs c ste (operationID i (Name step)) k step data attempt)"
proof (induction "nat (MaxAttempts (retryPolicyFor rs step) - attempt)" arbitrary: attempt
    rule: less_induct)
  case less
  have expired: "keeps R (saga_expired c ste)"
    unfolding saga_expired_def by (intro rules)
  have again: "keeps R (run_attempts rs c ste (operationID i (Name step)) k step data (attempt + 1))"
    if "\<not> (isNonRetryable x \<or> MaxAttempts (retryPolicyFor rs step) \<le> attempt)" for x
    using that by (intro less.hyps) simp_all
  show ?case
    by (subst run_attempts.simps)
       (intro rules callAction_keeps retryPolicy_keeps assms sleepOrDone_keeps expired; rule again; assumption)
qed

lemma runStep_keeps:
  "run_ok rs \<Longrightarrow> step \<in> set (d_steps d) \<Longrightarrow> id_ok i \<Longrightarrow> keeps R (runStep rs c ste i k step data)"
  unfolding runStep_def by (simp add: run_attempts_keeps)

lemma invokeCompensate_keeps:
  assumes "run_ok rs" and "\<And>c x. keeps R (in_world (f c x))"
  shows "keeps R (invokeCompensate rs c k f)"
  unfolding invokeCompensate_def Let_def
  by (rule bind_frame [OF gets_frame], rule with_span_keeps [OF assms(1)])
     (intro rules noted_keeps assms(2); simp)

lemma all_compensated_keeps: "keeps R (all_compensated i n)"
  by (induction n arbitrary: i) (auto intro!: rules)

lemma comp_loop_keeps:
  assumes "run_ok rs"
  shows "keeps R (comp_loop rs c i)"
proof (induction i)
  case (Suc i)
  have undo: "keeps R (invokeCompensate rs c i g)"
    if "\<not> length (d_steps (rs_def rs)) \<le> i" "Compensate (d_steps (rs_def rs) ! i) = Some g" for g
    using that run_def [OF assms] undo_step [of "d_steps d ! i" g]
    by (intro invokeCompensate_keeps assms) simp_all
  show ?case
    unfolding comp_loop.simps by (intro rules Suc.IH transitions_keep [OF assms] undo; assumption)
qed (simp add: ret_frame)

lemma finishCompensating_keeps: "run_ok rs \<Longrightarrow> keeps R (finishCompensating rs c k oe)"
  unfolding finishCompensating_def compensate_def
  by (intro rules comp_loop_keeps all_compensated_keeps transitions_keep)

lemma abort_keeps: "run_ok rs \<Longrightarrow> keeps R (abort rs c k oe)"
  unfolding abort_def by (intro rules finishCompensating_keeps upd_exec_keeps transitions_keep; simp)

lemma forward_keeps:
  assumes "run_ok rs" and "set steps \<subseteq> set (d_steps d)"
  shows "keeps R (forward rs c ste steps i data)"
  using assms(2)
proof (induction steps arbitrary: i data)
  case Nil
  show ?case by (simp, intro rules upd_exec_keeps transitions_keep assms(1); simp)
next
  case (Cons step rest)
  have fw: "keeps R (forward rs c ste rest j x)" for j x using Cons by simp
  have run: "keeps R (runStep rs c ste j k step x)" if "id_ok j" for j k x
    using Cons.prems that by (intro runStep_keeps assms(1)) simp_all
  show ?case
    unfolding forward.simps
    by (intro rules transitions_keep assms(1) id_step run abort_keeps fw; assumption)
qed

lemma errors_New_keeps: "keeps R (errors_New m)"
  unfolding errors_New_def by (intro rules)

lemma resumeRunning_keeps: "run_ok rs \<Longrightarrow> keeps R (resumeRunning rs c ste)"
  unfolding resumeRunning_def
  by (intro rules abort_keeps errors_New_keeps forward_keeps; simp add: run_def set_drop_subset)

lemma dispatch_keeps: "run_ok rs \<Longrightarrow> keeps R (dispatch rs c ste)"
  unfolding dispatch_def resumeCompensating_def
  by (intro rules resumeRunning_keeps errors_New_keeps finishCompensating_keeps transitions_keep)

lemma start_timeout_keeps: "keeps R (start_timeout d' c)"
  unfolding start_timeout_def Let_def by (intro rules)

lemma resume_held_keeps:
  assumes "run_ok rs" and "\<And>c. keeps R (release_lock rs c)"
  shows "keeps R (resume_held rs c)"
  unfolding resume_held_def
  by (rule bind_frame_ret)
     (auto dest!: on_panic_Ret intro!: rules assms dispatch_keeps startSpan_keeps start_timeout_keeps
        startSpan_fin(1) [OF assms(1)])

end

end
