(* ===== verification/Rely_Guarantee.thy ===== *)
theory Rely_Guarantee
  imports Callback_Frames Recovery
begin

text \<open>
  Workers that share the in-memory store, in the style of rely and guarantee. \<open>other_step\<close> is what a
  worker other than \<open>own\<close> may do to the store: try to take or give back leases under its own name, and
  save a record while the lease of that execution is in its name. This is what a run may rely on
  (\<open>rely\<close>), and the engine guarantees it: whatever \<open>resume\<close> and \<open>Recover\<close> do under another name is a
  sequence of such steps.
\<close>

section \<open>What other workers do\<close>

text \<open>\<open>own\<close> is not among the identifiers the random source is going to deliver.\<close>

definition avoids :: "string \<Rightarrow> ('d, 'u) world \<Rightarrow> bool" where
  "avoids own w \<longleftrightarrow> (\<forall>k bs. map (\<lambda>i. entropy w (i + k)) [0..<16] = map Some bs \<longrightarrow>
     hex_EncodeToString bs \<noteq> own)"

text \<open>
  One step of the others, next to a run of \<open>own\<close> on the execution \<open>eid\<close>: the clock goes on, random
  bytes are used up and user code does what it likes outside the store (\<open>aside\<close>); leases are asked for
  and given back at the time on the clock; a record is saved by the owner of its lease. \<open>Execute\<close> also
  saves the record of a new execution before it has a lease.
\<close>

inductive other_step :: "string \<Rightarrow> string \<Rightarrow> ('d, 'u) world \<Rightarrow> ('d, 'u) world \<Rightarrow> bool"
  for eid own where
  aside: "mem w' = mem w \<Longrightarrow> clock w \<le> clock w' \<Longrightarrow> entropy w' = (\<lambda>i. entropy w (i + n)) \<Longrightarrow>
    other_step eid own w w'"
| acquire: "a \<noteq> own \<Longrightarrow> other_step eid own w (w\<lparr>mem := snd (mem_Acquire i a ttl (clock w) (mem w))\<rparr>)"
| release: "a \<noteq> own \<Longrightarrow> other_step eid own w (w\<lparr>mem := mem_Release i a (mem w)\<rparr>)"
| save_held: "a \<noteq> own \<Longrightarrow> mem_holder (mem w) (ID e) = Some (a, t) \<Longrightarrow>
    other_step eid own w (w\<lparr>mem := snd (mem_Save (Some e) (mem w))\<rparr>)"
| save_new: "ID e \<noteq> eid \<Longrightarrow> other_step eid own w (w\<lparr>mem := snd (mem_Save (Some e) (mem w))\<rparr>)"

text \<open>What a run of \<open>own\<close> may rely on, as long as nobody draws its name.\<close>

definition rely :: "string \<Rightarrow> string \<Rightarrow> ('d, 'u) world \<Rightarrow> ('d, 'u) world \<Rightarrow> bool" where
  "rely eid own w w' \<longleftrightarrow> (avoids own w \<longrightarrow> (other_step eid own)\<^sup>*\<^sup>* w w')"

text \<open>A definition all of whose functions keep a relation between worlds.\<close>

definition respectful :: "(('d, 'u) world \<Rightarrow> ('d, 'u) world \<Rightarrow> bool) \<Rightarrow> ('d, 'u) definition_ \<Rightarrow> bool" where
  "respectful W d \<longleftrightarrow>
     (\<forall>step \<in> set (d_steps d).
        (\<forall>f c x. Action step = Some f \<longrightarrow> keeps W (f c x))
      \<and> (\<forall>g c x. Compensate step = Some g \<longrightarrow> keeps W (g c x))
      \<and> (\<forall>p n. step_retryPolicy step = Some p \<longrightarrow> keeps W (Delay p n)))
   \<and> (\<forall>n. keeps W (Delay (d_retryPolicy d) n))
   \<and> (\<forall>p c ev. d_publisher d = Some p \<longrightarrow> keeps W (Publish p c ev))
   \<and> (\<forall>l c level msg attrs. d_logger d = Some l \<longrightarrow> keeps W (Log l c level msg attrs))
   \<and> (\<forall>m n k labels. d_metrics d = Some m \<longrightarrow>
        keeps W (IncCounter m n labels) \<and> keeps W (ObserveDuration m n k labels))
   \<and> (\<forall>tr c n. d_tracer d = Some tr \<longrightarrow> keeps W (StartSpan tr c n)
        \<and> (\<forall>w c' fin w'. StartSpan tr c n w = (Ret (c', fin), w') \<longrightarrow>
             keeps W fin \<and> OperationID c' = OperationID c))"

section \<open>The steps of others\<close>

lemma avoids_later: "avoids own w \<Longrightarrow> entropy w' = (\<lambda>i. entropy w (i + n)) \<Longrightarrow> avoids own w'"
  unfolding avoids_def by (auto simp: add.assoc)

lemma avoids_simps [simp]:
  "avoids own (tick w) = avoids own w" "avoids own (w\<lparr>mem := m\<rparr>) = avoids own w"
  by (simp_all add: avoids_def)

lemma mem_Save_frame: "mem_holder (snd (mem_Save x m)) = mem_holder m"
  by (simp add: mem_holder_def fun_eq_iff)

text \<open>The lease on \<open>eid\<close> is held by \<open>own\<close> until \<open>T\<close> at least.\<close>

definition leased_until :: "string \<Rightarrow> string \<Rightarrow> go_time \<Rightarrow> 'd mem_store \<Rightarrow> bool" where
  "leased_until eid own T m \<longleftrightarrow> (\<exists>e. mem_holder m eid = Some (own, e) \<and> T \<le> e)"

definition stored :: "string \<Rightarrow> 'd mem_store \<Rightarrow> 'd execution option" where
  "stored eid m = map_of (mem_data m) eid"

lemma other_step_time:
  assumes "other_step eid own w w'"
  shows "clock w \<le> clock w'" "avoids own w \<Longrightarrow> avoids own w'"
  using assms avoids_later [of own w w'] by (cases; auto simp: avoids_def)+

lemma stored_Save: "ID e \<noteq> eid \<Longrightarrow> stored eid (snd (mem_Save (Some e) m)) = stored eid m"
  by (simp add: stored_def mem_Save_def update_conv)

lemma other_step_excluded:
  assumes "other_step eid own w w'" and "leased_until eid own T (mem w)" and "clock w < T"
  shows "leased_until eid own T (mem w')" "stored eid (mem w') = stored eid (mem w)"
proof -
  obtain e where e: "mem_holder (mem w) eid = Some (own, e)" "T \<le> e"
    using assms(2) by (auto simp: leased_until_def)
  have "leased_until eid own T (mem w') \<and> stored eid (mem w') = stored eid (mem w)"
    using assms(1)
  proof cases
    case (aside n)
    then show ?thesis using assms(2) by simp
  next
    case (acquire a i ttl)
    let ?m = "snd (mem_Acquire i a ttl (clock w) (mem w))"
    have "i \<noteq> eid" if "fst (mem_Acquire i a ttl (clock w) (mem w))"
      using that memlock.acquire_free [of i a ttl "clock w" "mem w"] e acquire(2) assms(3) by auto
    then have "mem_holder ?m eid = Some (own, e)"
      using memlock.acquire_holder [of i a ttl "clock w" "mem w"]
        memlock.acquire_refused [of i a ttl "clock w" "mem w"] e(1)
      by (cases "fst (mem_Acquire i a ttl (clock w) (mem w))") auto
    then show ?thesis using acquire(1) e(2) by (simp add: leased_until_def stored_def)
  next
    case (release a i)
    then show ?thesis using e by (auto simp: leased_until_def stored_def memlock.release_holder)
  next
    case (save_held a x t)
    then have "ID x \<noteq> eid" using e(1) by auto
    then show ?thesis using save_held(1) assms(2) by (simp add: leased_until_def mem_Save_frame stored_Save)
  next
    case (save_new x)
    then show ?thesis using assms(2) by (simp add: leased_until_def mem_Save_frame stored_Save)
  qed
  then show "leased_until eid own T (mem w')" "stored eid (mem w') = stored eid (mem w)" by simp_all
qed

lemma others_time:
  assumes "(other_step eid own)\<^sup>*\<^sup>* w w'"
  shows "clock w \<le> clock w' \<and> (avoids own w \<longrightarrow> avoids own w')"
  using assms by (induction rule: rtranclp_induct) (auto dest: other_step_time)

lemma others_excluded:
  assumes "(other_step eid own)\<^sup>*\<^sup>* w w'" and "leased_until eid own T (mem w)" and "clock w' < T"
  shows "leased_until eid own T (mem w') \<and> stored eid (mem w') = stored eid (mem w)"
  using assms
proof (induction rule: rtranclp_induct)
  case (step u v)
  have "clock u < T" using other_step_time(1) [OF step.hyps(2)] step.prems(2) by simp
  then show ?case
    using step.IH [OF step.prems(1)] other_step_excluded [OF step.hyps(2), of T] by simp
qed simp

interpretation relied: frame "rely eid own" for eid own
proof unfold_locales
  show "rely eid own s u" if "rely eid own s t" "rely eid own t u" for s t u :: "('a, 'b) world"
    using that others_time by (auto simp: rely_def)
qed (simp add: rely_def)

lemma rely_step: "(avoids own w \<Longrightarrow> other_step eid own w w') \<Longrightarrow> rely eid own w w'"
  by (auto simp: rely_def)

lemma rely_aside:
  "mem w' = mem w \<Longrightarrow> clock w \<le> clock w' \<Longrightarrow> entropy w' = entropy w \<Longrightarrow> rely eid own w w'"
  by (rule rely_step) (auto intro: other_step.aside [where n = 0])

lemma rely_tick: "rely eid own w (tick w)"
  by (rule rely_aside) simp_all

lemma rely_library:
  "keeps (rely eid own) time_Now" "keeps (rely eid own) (ctx_Done c)" "keeps (rely eid own) (context_Cause c)"
  "keeps (rely eid own) new_ref" "keeps (rely eid own) (context_WithTimeoutCause c timeout y)"
  "0 < sint wait \<Longrightarrow> keeps (rely eid own) (timer_or_done c wait)" "keeps (rely eid own) idgen_New"
proof -
  note rules = relied.ret_frame relied.gets_frame relied.bind_frame relied.seq_frame relied.modify_frame
    relied.panic_frame
  show now: "keeps (rely eid own) time_Now"
    unfolding time_Now_def by (intro rules rely_tick)
  show "keeps (rely eid own) (ctx_Done c)" "keeps (rely eid own) (context_Cause c)"
    unfolding ctx_Done_def context_Cause_def by (intro rules rely_tick)+
  show "keeps (rely eid own) new_ref"
    unfolding new_ref_def by (intro rules; rule rely_aside; simp)
  show "keeps (rely eid own) (context_WithTimeoutCause c timeout y)"
    unfolding context_WithTimeoutCause_def by (intro rules now)
  show "keeps (rely eid own) (timer_or_done c wait)" if "0 < sint wait"
    using that unfolding keeps_def
    by (intro allI rely_aside)
       (auto simp: timer_or_done_def time_Now_def Let_def bind_go_def seq_go_def modify_def gets_def ret_def
          tick_def split: option.split)
  have "rely eid own w (w\<lparr>entropy := \<lambda>i. entropy w (i + n)\<rparr>)" for n w
    by (rule rely_step, rule other_step.aside [where n = n]) simp_all
  then show "keeps (rely eid own) idgen_New"
    unfolding idgen_New_def rand_Read_def
    by (intro rules; auto simp: keeps_def seq_go_def bind_go_def modify_def ret_def gets_def panic_def relied.refl
        split: option.split)
qed

lemma rely_in_world: "keeps (rely eid own) m \<Longrightarrow> rely eid own (world s) (world (snd (in_world m s)))"
  by (simp add: keeps_def in_world_def zoom_def split: prod.split) (metis snd_conv)

section \<open>The engine keeps to the leases\<close>

text \<open>A run under another name.\<close>

definition other_run :: "('d, 'u) definition_ \<Rightarrow> string \<Rightarrow> ('d, 'u) run_state \<Rightarrow> bool" where
  "other_run d own rs \<longleftrightarrow> rs_def rs = d \<and> locker rs = Some mem_locker \<and> lockOwner rs \<noteq> own"

lemma drawn_name:
  assumes "avoids own w" and "idgen_New w = (Ret a, w')"
  shows "a \<noteq> own"
proof -
  obtain bs where "map (entropy w) [0..<16] = map Some bs" "a = hex_EncodeToString bs"
    using assms(2)
    by (auto simp: idgen_New_def rand_Read_def bind_go_def seq_go_def gets_def modify_def ret_def panic_def
        list_all_iff comp_def split: option.splits if_splits prod.splits intro!: that)
  then show ?thesis using assms(1) unfolding avoids_def by (metis (no_types, lifting) add.right_neutral map_eq_conv)
qed

definition relies :: "string \<Rightarrow> string \<Rightarrow> ('d, 'u) machine \<Rightarrow> ('d, 'u) machine \<Rightarrow> bool" where
  "relies eid own s t \<longleftrightarrow> rely eid own (world s) (world t)"

interpretation rely_frame: frame "relies eid own" for eid own
  by unfold_locales (auto simp: relies_def relied.refl intro: relied.trans)

lemma relies_in_world: "keeps (rely eid own) m \<Longrightarrow> keeps (relies eid own) (in_world m)"
  by (simp add: keeps_def relies_def rely_in_world)

lemma emit_relies: "keeps (relies eid own) (emit x)"
  unfolding emit_def by (rule rely_frame.modify_frame) (simp add: relies_def relied.refl)

lemma relies_aside: "world t = world s \<Longrightarrow> relies eid own s t"
  by (simp add: relies_def relied.refl)

lemma mem_Acquire_world:
  "Acquire mem_locker c i a ttl w = (Ret (fst (mem_Acquire i a ttl (clock (tick w)) (mem w)), None),
     (tick w)\<lparr>mem := snd (mem_Acquire i a ttl (clock (tick w)) (mem w))\<rparr>)"
  by (simp add: mem_locker_def time_Now_def bind_go_def seq_go_def modify_def gets_def split: prod.split)

lemma Acquire_rely_at:
  assumes "a \<noteq> own"
  shows "rely eid own w ((tick w)\<lparr>mem := snd (mem_Acquire i a ttl (clock (tick w)) (mem w))\<rparr>)"
proof (rule relied.trans [OF rely_tick])
  show "rely eid own (tick w) ((tick w)\<lparr>mem := snd (mem_Acquire i a ttl (clock (tick w)) (mem w))\<rparr>)"
    using other_step.acquire [OF assms, of eid "tick w"] by (auto intro: rely_step)
qed

lemma Acquire_rely: "a \<noteq> own \<Longrightarrow> keeps (rely eid own) (Acquire mem_locker c i a ttl)"
  by (simp add: keeps_def mem_Acquire_world Acquire_rely_at)

lemma Release_rely: "a \<noteq> own \<Longrightarrow> keeps (rely eid own) (Release mem_locker c i a)"
  by (auto simp: keeps_def mem_locker_def intro: rely_step other_step.release)

lemma do_Acquire_relies: "a \<noteq> own \<Longrightarrow> keeps (relies eid own) (do_Acquire mem_locker c i a ttl)"
  unfolding do_Acquire_def
  by (intro rely_frame.seq_frame rely_frame.bind_frame rely_frame.prod_frame rely_frame.ret_frame emit_relies
      relies_in_world Acquire_rely)

text \<open>A record is saved by the owner of the lease: nothing happens between the renewal and the save.\<close>

lemma store_Save_run:
  assumes "d_store d = mem_store_ops"
  shows "store_Save d c s = (Ret (map_option (persist_error (ID (exec s))) (fst (mem_Save (Some (exec s)) (mem (world s))))),
    s\<lparr>trace := trace s @ [ObsSave (exec s), ObsSaved (fst (mem_Save (Some (exec s)) (mem (world s))))],
      world := (world s)\<lparr>mem := snd (mem_Save (Some (exec s)) (mem (world s)))\<rparr>\<rparr>)"
  by (simp add: store_Save_def assms mem_store_ops_def bind_go_def seq_go_def gets_def emit_def modify_def ret_def
      in_world_def zoom_def split: prod.split)

lemma save_run:
  assumes "locker rs = Some mem_locker" and "lockOwner rs = a" and "rs_def rs = d"
  shows "save rs c s = (let i = ID (exec s); now = clock (tick (world s));
      r = mem_Acquire i a (d_lockTTL d) now (mem (world s));
      u = s\<lparr>world := (tick (world s))\<lparr>mem := snd r\<rparr>, trace := trace s @ [ObsAcquire i a, ObsAcquired (fst r)]\<rparr>
    in if fst r then store_Save d c u else (Ret (Some (ExecutionLockedError i)), u))"
  by (simp add: save_def assms do_Acquire_def bind_go_def seq_go_def gets_def emit_def modify_def ret_def
      in_world_def zoom_def mem_Acquire_world Let_def)

lemma save_relies:
  assumes "other_run d own rs" and "d_store d = mem_store_ops"
  shows "keeps (relies eid own) (save rs c)"
  unfolding keeps_def
proof
  fix s :: "('a, 'b) machine"
  let ?i = "ID (exec s)" and ?w = "world s" and ?a = "lockOwner rs"
  let ?r = "mem_Acquire ?i ?a (d_lockTTL d) (clock (tick ?w)) (mem ?w)"
  have rs: "locker rs = Some mem_locker" "rs_def rs = d" "?a \<noteq> own" using assms(1) by (simp_all add: other_run_def)
  let ?v = "(tick ?w)\<lparr>mem := snd ?r\<rparr>"
  have got: "rely eid own ?w ?v"
    by (rule Acquire_rely_at [OF rs(3)])
  have put: "rely eid own ?v (?v\<lparr>mem := snd (mem_Save (Some (exec s)) (snd ?r))\<rparr>)" if "fst ?r"
  proof (rule rely_step)
    have "mem_holder (mem ?v) ?i = Some (?a, clock (tick ?w) + sint (d_lockTTL d))"
      using memlock.acquire_holder [OF that] by simp
    then show "other_step eid own ?v (?v\<lparr>mem := snd (mem_Save (Some (exec s)) (snd ?r))\<rparr>)"
      using other_step.save_held [OF rs(3), of ?v "exec s"] by simp
  qed
  show "relies eid own s (snd (save rs c s))"
    unfolding save_run [OF rs(1) HOL.refl rs(2)] Let_def relies_def
    using got relied.trans [OF got put] by (simp add: store_Save_run [OF assms(2)])
qed

lemma respectfulD:
  assumes "respectful W d"
  shows "step \<in> set (d_steps d) \<Longrightarrow> Action step = Some f \<Longrightarrow> keeps W (f c x)"
    "step \<in> set (d_steps d) \<Longrightarrow> Compensate step = Some g \<Longrightarrow> keeps W (g c x)"
    "step \<in> set (d_steps d) \<Longrightarrow> step_retryPolicy step = Some p \<Longrightarrow> keeps W (Delay p n)"
    "keeps W (Delay (d_retryPolicy d) n)"
    "d_publisher d = Some pub \<Longrightarrow> keeps W (Publish pub c ev)"
    "d_logger d = Some l \<Longrightarrow> keeps W (Log l c level msg attrs)"
    "d_metrics d = Some m \<Longrightarrow> keeps W (IncCounter m name labels)"
    "d_metrics d = Some m \<Longrightarrow> keeps W (ObserveDuration m name k labels)"
    "d_tracer d = Some tr \<Longrightarrow> keeps W (StartSpan tr c name)"
    "d_tracer d = Some tr \<Longrightarrow> StartSpan tr c name w = (Ret (c', fin), w') \<Longrightarrow>
      keeps W fin \<and> OperationID c' = OperationID c"
  using assms unfolding respectful_def by (auto, blast+)

lemma relying_frame:
  assumes "d_store d = mem_store_ops" and "respectful (rely eid own) d"
  shows "callback_frame (relies eid own) d (other_run d own) (\<lambda>_. True)"
  by unfold_locales
     (auto simp: other_run_def relies_aside
        intro: relies_in_world rely_library respectfulD [OF assms(2)] rely_frame.bind_frame rely_frame.gets_frame
          save_relies [OF _ assms(1)] dest: respectfulD(10) [OF assms(2)])

lemma release_relies:
  assumes "other_run d own rs"
  shows "keeps (relies eid own) (release_lock rs c)"
  using assms unfolding release_lock_def other_run_def
  by (auto intro!: rely_frame.bind_frame rely_frame.gets_frame rely_frame.seq_frame rely_frame.ret_frame emit_relies
      relies_in_world Release_rely)

lemma as_Locker_mem [simp]: "as_Locker mem_store_ops = Some mem_locker"
  by (simp add: mem_store_ops_def)

lemma resume_relies:
  assumes "d_store d = mem_store_ops" and "respectful (rely eid own) d"
  shows "keeps (relies eid own) (resume d c)"
proof -
  define rest where "rest a = bind_go (gets (\<lambda>s. ID (exec s))) (\<lambda>i.
      bind_go (do_Acquire mem_locker c i a (d_lockTTL d)) (\<lambda>(acquired, err). case err of
          Some x \<Rightarrow> ret (Some (acquire_error i x))
        | None \<Rightarrow> if \<not> acquired then ret (Some (ExecutionLockedError i))
            else resume_held \<lparr>rs_def = d, locker = Some mem_locker, lockOwner = a\<rparr> c))" for a
  have keep: "keeps (relies eid own) (rest a)" if "a \<noteq> own" for a
    unfolding rest_def
    by (intro rely_frame.bind_frame rely_frame.gets_frame rely_frame.prod_frame rely_frame.option_frame
        rely_frame.if_frame rely_frame.ret_frame do_Acquire_relies that
        callback_frame.resume_held_keeps [OF relying_frame [OF assms]] release_relies)
       (simp_all add: other_run_def that)
  have "relies eid own s (snd (bind_go (in_world idgen_New) rest s))" for s
  proof (cases "avoids own (world s)")
    case True
    obtain r w where draw: "idgen_New (world s) = (r, w)" by fastforce
    then have "relies eid own s (s\<lparr>world := w\<rparr>)"
      using rely_library(7) [of eid own] unfolding keeps_def relies_def by (auto dest: spec [of _ "world s"])
    moreover have "relies eid own (s\<lparr>world := w\<rparr>) (snd (rest a (s\<lparr>world := w\<rparr>)))" if "r = Ret a" for a
      using keep [OF drawn_name [OF True]] draw that unfolding keeps_def by blast
    ultimately have "relies eid own s (snd (case r of Ret a \<Rightarrow> rest a (s\<lparr>world := w\<rparr>) | Panic p \<Rightarrow> (Panic p, s\<lparr>world := w\<rparr>)))"
      by (cases r) (auto intro: rely_frame.trans)
    then show ?thesis using draw by (simp add: bind_go_def in_world_def zoom_def)
  qed (simp add: relies_def rely_def)
  moreover have "resume d c = bind_go (in_world idgen_New) rest"
    by (simp add: resume_def assms(1) rest_def [abs_def])
  ultimately show ?thesis by (simp add: keeps_def)
qed

lemma Recover_relies:
  assumes "lister r = mem_lister"
    and "\<And>n d. sagas r n = Some d \<Longrightarrow> d_store d = mem_store_ops \<and> respectful (rely eid own) d"
  shows "keeps (relies eid own) (Recover r c)"
proof -
  have upd: "keeps (relies eid own) (upd_exec f)" for f :: "'a execution \<Rightarrow> 'a execution"
    unfolding upd_exec_def by (rule rely_frame.modify_frame) (simp add: relies_aside)
  have one: "keeps (relies eid own) (recover_one r c e)" for e
    unfolding recover_one_def using assms(2)
    by (auto intro!: rely_frame.ret_frame rely_frame.seq_frame rely_frame.bind_frame rely_frame.gets_frame upd
        resume_relies split: option.split)
  have all: "keeps (relies eid own) (recover_all r c es)" for es
    by (induction es) (auto intro!: rely_frame.ret_frame rely_frame.bind_frame one)
  have "keeps (rely eid own) (ListIncomplete mem_lister c)"
    by (simp add: mem_lister_def relied.gets_frame)
  then show ?thesis
    unfolding Recover_def assms(1)
    by (intro rely_frame.bind_frame relies_in_world; auto intro!: rely_frame.ret_frame rely_frame.bind_frame all
        split: sum.split)
qed

end
