(* ===== verification/Mutual_Exclusion.thy ===== *)
theory Mutual_Exclusion
  imports Rely_Guarantee Lease_Discipline Takeover
begin

text \<open>
  A run that holds the lease may rely on the other workers: until the lease would have expired nobody
  else gets in, so the store holds what the run saved last. With the guarantee of \<open>Rely_Guarantee\<close> this
  is mutual exclusion for workers that run the engine; \<open>Takeover\<close> shows what happens once a lease has
  expired.
\<close>

section \<open>A run that holds the lease\<close>

text \<open>Saves that were accepted, renewals that were granted.\<close>

fun granted :: "'d obs \<Rightarrow> bool" where
  "granted (ObsAcquired ok) = ok"
| "granted (ObsSaved err) = (err = None)"
| "granted x = True"

fun last_of :: "'a option \<Rightarrow> 'a list \<Rightarrow> 'a option" where
  "last_of x [] = x"
| "last_of x (y # ys) = last_of (Some y) ys"

lemma last_of_append [simp]: "last_of x (xs @ ys) = last_of (last_of x xs) ys"
  by (induction x xs rule: last_of.induct) auto

text \<open>
  From \<open>s\<close> to \<open>t\<close>, part of a run that holds the lease on \<open>eid\<close> until \<open>T\<close>: if it is still before \<open>T\<close> at
  the end, every renewal was granted, every save accepted, the lease is still held and what the store
  has for \<open>eid\<close> is what was saved last.
\<close>

definition unopposed :: "string \<Rightarrow> string \<Rightarrow> go_time \<Rightarrow> ('d, 'u) machine \<Rightarrow> ('d, 'u) machine \<Rightarrow> 'd obs list \<Rightarrow> bool"
  where
  "unopposed eid own T s t tr \<longleftrightarrow> list_all granted tr \<and> leased_until eid own T (mem (world t))
     \<and> stored eid (mem (world t)) = last_of (stored eid (mem (world s))) (saves_of tr)"

definition alone :: "string \<Rightarrow> string \<Rightarrow> duration \<Rightarrow> go_time \<Rightarrow> ('d, 'u) machine \<Rightarrow> ('d, 'u) machine \<Rightarrow> bool"
  where
  "alone eid own ttl T s t \<longleftrightarrow> (ID (exec s) = eid \<longrightarrow> ID (exec t) = eid \<and> (avoids own (world s) \<longrightarrow>
     avoids own (world t) \<and> clock (world s) \<le> clock (world t)
     \<and> (\<exists>tr. trace t = trace s @ tr
          \<and> (leased_until eid own T (mem (world s)) \<longrightarrow> T \<le> clock (world s) + sint ttl \<longrightarrow> clock (world t) < T \<longrightarrow>
               unopposed eid own T s t tr))))"

interpretation alone_frame: frame "alone eid own ttl T" for eid own ttl T
proof unfold_locales
  show "alone eid own ttl T s s" for s :: "('a, 'b) machine"
    by (simp add: alone_def unopposed_def)
  fix s t u :: "('a, 'b) machine"
  assume st: "alone eid own ttl T s t" and tu: "alone eid own ttl T t u"
  show "alone eid own ttl T s u"
  proof (cases "ID (exec s) = eid \<and> avoids own (world s)")
    case True
    obtain tr where 1: "ID (exec t) = eid" "avoids own (world t)" "clock (world s) \<le> clock (world t)"
        "trace t = trace s @ tr"
        "leased_until eid own T (mem (world s)) \<longrightarrow> T \<le> clock (world s) + sint ttl \<longrightarrow> clock (world t) < T \<longrightarrow>
          unopposed eid own T s t tr"
      using st True unfolding alone_def by auto
    obtain tr' where 2: "ID (exec u) = eid" "avoids own (world u)" "clock (world t) \<le> clock (world u)"
        "trace u = trace t @ tr'"
        "leased_until eid own T (mem (world t)) \<longrightarrow> T \<le> clock (world t) + sint ttl \<longrightarrow> clock (world u) < T \<longrightarrow>
          unopposed eid own T t u tr'"
      using tu 1 unfolding alone_def by auto
    have "unopposed eid own T s u (tr @ tr')" if "leased_until eid own T (mem (world s))"
      "T \<le> clock (world s) + sint ttl" "clock (world u) < T"
      using 1 2 that by (auto simp: unopposed_def)
    then show ?thesis using 1 2 by (auto simp: alone_def)
  next
    case False
    then show ?thesis using st tu unfolding alone_def by auto
  qed
qed

lemma rely_alone:
  assumes "rely eid own (world s) w"
  shows "alone eid own ttl T s (s\<lparr>world := w\<rparr>)"
  using assms others_time [of eid own "world s" w] others_excluded [of eid own "world s" w T]
  by (auto simp: alone_def rely_def unopposed_def)

lemma alone_in_world: "keeps (rely eid own) m \<Longrightarrow> keeps (alone eid own ttl T) (in_world m)"
  unfolding keeps_def in_world_def zoom_def
  by (auto split: prod.split intro!: rely_alone dest: spec) (metis snd_conv)

lemma alone_exec: "ID e = ID (exec s) \<Longrightarrow> alone eid own ttl T s (s\<lparr>exec := e\<rparr>)"
  by (simp add: alone_def unopposed_def)

lemma alone_note: "plain x \<Longrightarrow> alone eid own ttl T s (s\<lparr>trace := trace s @ [x]\<rparr>)"
  by (cases x) (auto simp: alone_def unopposed_def)

text \<open>The run itself: it renews its lease, and its save is accepted.\<close>

definition own_run :: "('d, 'u) definition_ \<Rightarrow> string \<Rightarrow> ('d, 'u) run_state \<Rightarrow> bool" where
  "own_run d own rs \<longleftrightarrow> rs = \<lparr>rs_def = d, locker = Some mem_locker, lockOwner = own\<rparr>"

lemma renewed:
  assumes "leased_until eid own T m"
  shows "fst (mem_Acquire eid own ttl now m)"
    "T \<le> now + sint ttl \<Longrightarrow> leased_until eid own T (snd (mem_Acquire eid own ttl now m))"
proof -
  show got: "fst (mem_Acquire eid own ttl now m)"
    using assms memlock.acquire_renews by (auto simp: leased_until_def)
  show "leased_until eid own T (snd (mem_Acquire eid own ttl now m))" if "T \<le> now + sint ttl"
    using that memlock.acquire_holder [OF got] by (simp add: leased_until_def)
qed

lemma save_alone:
  assumes "own_run d own rs" and "d_store d = mem_store_ops" and "eid \<noteq> []"
  shows "keeps (alone eid own (d_lockTTL d) T) (save rs c)"
  unfolding keeps_def
proof
  fix s :: "('a, 'b) machine"
  let ?i = "ID (exec s)" and ?w = "world s"
  let ?r = "mem_Acquire ?i own (d_lockTTL d) (clock (tick ?w)) (mem ?w)"
  let ?tr = "[ObsAcquire ?i own, ObsAcquired (fst ?r)]"
  let ?tr' = "?tr @ [ObsSave (exec s), ObsSaved (fst (mem_Save (Some (exec s)) (snd ?r)))]"
  let ?u = "s\<lparr>world := (tick ?w)\<lparr>mem := snd ?r\<rparr>, trace := trace s @ ?tr\<rparr>"
  let ?v = "s\<lparr>world := (tick ?w)\<lparr>mem := snd (mem_Save (Some (exec s)) (snd ?r))\<rparr>, trace := trace s @ ?tr'\<rparr>"
  have rs: "locker rs = Some mem_locker" "rs_def rs = d" "lockOwner rs = own" using assms(1) by (simp_all add: own_run_def)
  have eq: "snd (save rs c s) = (if fst ?r then ?v else ?u)"
    unfolding save_run [OF rs(1,3,2)] by (simp add: Let_def store_Save_run [OF assms(2)])
  have good: "fst ?r \<and> unopposed eid own T s ?v ?tr'" if "?i = eid" "leased_until eid own T (mem ?w)"
    "T \<le> clock ?w + sint (d_lockTTL d)"
  proof -
    have "T \<le> clock (tick ?w) + sint (d_lockTTL d)" using that(3) tick_simps(1) [of ?w] by linarith
    moreover have "fst (mem_Save (Some (exec s)) (snd ?r)) = None"
        "stored eid (snd (mem_Save (Some (exec s)) (snd ?r))) = Some (exec s)"
      using that(1) assms(3) by (auto simp: mem_Save_def stored_def update_conv)
    ultimately show ?thesis
      using renewed [OF that(2), where ttl = "d_lockTTL d" and now = "clock (tick ?w)"] that(1)
      by (simp add: unopposed_def leased_until_def mem_Save_frame)
  qed
  have "alone eid own (d_lockTTL d) T s ?u" if "\<not> fst ?r"
    using good that by (auto simp: alone_def)
  moreover have "alone eid own (d_lockTTL d) T s ?v" if "fst ?r"
    using good by (auto simp: alone_def)
  ultimately show "alone eid own (d_lockTTL d) T s (snd (save rs c s))" by (simp add: eq)
qed

lemma alone_callbacks:
  assumes "d_store d = mem_store_ops" and "respectful (rely eid own) d" and "eid \<noteq> []"
  shows "callback_frame (alone eid own (d_lockTTL d) T) d (own_run d own) (\<lambda>i. i = eid)"
proof unfold_locales
  fix body :: "string \<Rightarrow> ('a, 'b, gerr option) engine"
  assume body: "\<And>i. i = eid \<Longrightarrow> keeps (alone eid own (d_lockTTL d) T) (body i)"
  have "alone eid own (d_lockTTL d) T s (snd (body (ID (exec s)) s))" for s
    using body [of "ID (exec s)"] by (cases "ID (exec s) = eid") (simp_all add: keeps_def, simp add: alone_def)
  then show "keeps (alone eid own (d_lockTTL d) T) (bind_go (gets (\<lambda>m. ID (exec m))) body)"
    by (simp add: keeps_def bind_go_def gets_def)
qed (auto simp: own_run_def intro: alone_exec alone_note alone_in_world rely_library respectfulD [OF assms(2)]
       save_alone [OF _ assms(1,3)] dest: respectfulD(10) [OF assms(2)])

text \<open>From the moment the lease has been granted to its release, however the run ends.\<close>

definition left_alone :: "string \<Rightarrow> string \<Rightarrow> go_time \<Rightarrow> ('d, 'u) machine \<Rightarrow> ('d, 'u) machine \<Rightarrow> bool" where
  "left_alone eid own T s t \<longleftrightarrow> (clock (world t) < T \<longrightarrow> (\<exists>tr. trace t = trace s @ tr \<and> list_all granted tr
     \<and> stored eid (mem (world t)) = last_of (stored eid (mem (world s))) (saves_of tr)
     \<and> mem_holder (mem (world t)) eid = None))"

lemma release_left:
  assumes "own_run d own rs" and "alone eid own ttl T s u" and "ID (exec s) = eid"
    and "avoids own (world s)" and "leased_until eid own T (mem (world s))" and "T \<le> clock (world s) + sint ttl"
  shows "\<exists>t. release_lock rs c u = (Ret (), t) \<and> left_alone eid own T s t"
proof -
  obtain tr where tr: "ID (exec u) = eid" "trace u = trace s @ tr"
      "clock (world u) < T \<Longrightarrow> unopposed eid own T s u tr"
    using assms(2-6) by (auto simp: alone_def)
  let ?w = "(world u)\<lparr>mem := mem_Release eid own (mem (world u))\<rparr>"
  let ?t = "u\<lparr>world := ?w, trace := trace u @ [ObsRelease eid own]\<rparr>"
  have "release_lock rs c u = (Ret (), ?t)"
    using assms(1) tr(1)
    by (simp add: own_run_def release_lock_def bind_go_def seq_go_def gets_def emit_def modify_def ret_def
        in_world_def zoom_def mem_locker_def)
  moreover have "left_alone eid own T s ?t"
    using tr unfolding left_alone_def unopposed_def leased_until_def stored_def
    by (auto simp: memlock.release_holder intro!: exI [of _ "tr @ [ObsRelease eid own]"])
  ultimately show ?thesis by blast
qed

lemma resume_held_alone:
  assumes "own_run d own rs" and "d_store d = mem_store_ops" and "respectful (rely eid own) d" and "eid \<noteq> []"
    and s: "ID (exec s) = eid" "avoids own (world s)" "leased_until eid own T (mem (world s))"
      "T \<le> clock (world s) + sint (d_lockTTL d)"
  shows "wp (resume_held rs c) (\<lambda>_. left_alone eid own T s) (left_alone eid own T s) s"
proof -
  let ?R = "alone eid own (d_lockTTL d) T"
  note frame = alone_callbacks [OF assms(2-4), of T]
  have on: "wp m (\<lambda>_. ?R s) (?R s) t" if "keeps ?R m" "?R s t" for m t
    using that alone_frame.trans by (simp add: wp_final keeps_def) blast
  have rel: "wp (release_lock rs c') (\<lambda>_. left_alone eid own T s) (left_alone eid own T s) u" if "?R s u" for u c'
    using release_left [OF assms(1) that s, of c'] by (auto simp: wp_def)
  have run: "wp (deferred (release_lock rs c2) (deferred fin (dispatch rs c2 ste)))
      (\<lambda>_. left_alone eid own T s) (left_alone eid own T s) t" if "?R s t" "keeps ?R fin" for c2 fin ste t
    unfolding wp_deferred [of "release_lock rs c2"]
    by (rule wp_mono [OF on [OF alone_frame.deferred_frame that(1)]])
       (auto intro: rel that(2) callback_frame.dispatch_keeps [OF frame assms(1)])
  have span: "wp (startSpan rs c n) (\<lambda>(c', fin) t. ?R s t \<and> keeps ?R fin) (?R s) s" for n
    using on [OF callback_frame.startSpan_keeps [OF frame assms(1)] alone_frame.refl, of c n]
      callback_frame.startSpan_fin(1) [OF frame assms(1), of c n s]
    by (auto simp: wp_def split: prod.splits outcome.splits)
  have timed: "wp (bind_go (start_timeout (rs_def rs) c1) (\<lambda>(c2, ste).
        deferred (release_lock rs c2) (deferred fin (dispatch rs c2 ste))))
      (\<lambda>_. left_alone eid own T s) (left_alone eid own T s) t"
    if "?R s t" "keeps ?R fin" for c1 fin t
  proof -
    have "never_panics (start_timeout (rs_def rs) c1)"
      unfolding start_timeout_def Let_def by (intro calm_rules)
    then obtain p u where p: "start_timeout (rs_def rs) c1 t = (Ret p, u)"
      unfolding never_panics_def by blast
    moreover have "?R s u"
      using on [OF callback_frame.start_timeout_keeps [OF frame] that(1), of "rs_def rs" c1] p
      by (simp add: wp_def)
    ultimately show ?thesis
      using run [OF _ that(2)] by (auto simp: wp_bind wp_def [of "start_timeout d' c1" for d'] split: prod.splits)
  qed
  show ?thesis
    unfolding resume_held_def wp_bind [of "on_panic _ _"] wp_on_panic
    by (rule wp_mono [OF span]) (auto intro: timed rel)
qed

lemma idgen_frame:
  assumes "idgen_New w = (r, w')"
  shows "mem w' = mem w" "clock w' = clock w"
  using assms
  by (auto simp: idgen_New_def rand_Read_def bind_go_def seq_go_def gets_def modify_def ret_def panic_def
      split: if_splits)

lemma resume_run:
  assumes "d_store d = mem_store_ops" and "idgen_New (world s) = (Ret own, w)" and "ID (exec s) = eid"
  shows "resume d c s = (let r = mem_Acquire eid own (d_lockTTL d) (clock (tick w)) (mem w);
      u = s\<lparr>world := (tick w)\<lparr>mem := snd r\<rparr>, trace := trace s @ [ObsAcquire eid own, ObsAcquired (fst r)]\<rparr>
    in if fst r then resume_held \<lparr>rs_def = d, locker = Some mem_locker, lockOwner = own\<rparr> c u
       else (Ret (Some (ExecutionLockedError eid)), u))"
  by (simp add: resume_def assms(1) do_Acquire_def bind_go_def seq_go_def gets_def emit_def modify_def ret_def
      in_world_def zoom_def mem_Acquire_world Let_def assms(2,3))

section \<open>The properties\<close>

text \<open>
  C25: workers keep to the leases. Whatever \<open>Recover\<close> does over the in-memory store, next to a run that
  goes by another name, is a sequence of the steps that run expects of others: it asks for leases and
  gives them back under names of its own, and saves a record only while the lease on that execution is
  in such a name. The functions of the definitions are to keep to this too.
\<close>

theorem workers_respect_leases:
  assumes "lister r = mem_lister"
    and "\<And>n d. sagas r n = Some d \<Longrightarrow> d_store d = mem_store_ops \<and> respectful (rely eid own) d"
    and "avoids own (world s)"
  shows "(other_step eid own)\<^sup>*\<^sup>* (world s) (world (snd (Recover r c s)))"
  using Recover_relies [OF assms(1,2)] assms(3) by (simp add: keeps_def relies_def rely_def)

text \<open>A worker that finds one execution left behind.\<close>

definition left_behind :: "(unit, unit) machine" where
  "left_behind = (order_start (order_saga None None))\<lparr>world := order_world\<lparr>mem :=
     mem_New\<lparr>mem_data := [(''e1'', exec (order_start (order_saga None None)))]\<rparr>\<rparr>\<rparr>"

theorem workers_respect_leases_witness:
  "mem_ListIncomplete (mem (world left_behind)) \<noteq> []
   \<and> (other_step ''e1'' ''worker'')\<^sup>*\<^sup>* (world left_behind) (world (snd (Recover
     \<lparr>lister = mem_lister, sagas = [''order'' \<mapsto> order_saga None None], policy = RecoverAutomatically\<rparr>
     (Root 0) left_behind)))"
proof
  let ?r = "\<lparr>lister = mem_lister, sagas = [''order'' \<mapsto> order_saga None None], policy = RecoverAutomatically\<rparr>"
  show "mem_ListIncomplete (mem (world left_behind)) \<noteq> []"
    by (simp add: left_behind_def mem_ListIncomplete_def order_start_def new_execution_def)
  have "respectful (rely ''e1'' ''worker'') (order_saga None None)"
    by (auto simp: respectful_def order_saga_def Step_def order_action_def order_undo_def NoRetry_def
        noRetryPolicy_def relied.ret_frame)
  moreover have "d_store (order_saga None None) = mem_store_ops" by (simp add: order_saga_def)
  moreover have "avoids ''worker'' (world left_behind)"
    using hex_length by (fastforce simp: avoids_def left_behind_def dest: arg_cong [of _ _ length])
  ultimately have "\<And>n d. sagas ?r n = Some d \<Longrightarrow> d_store d = mem_store_ops \<and> respectful (rely ''e1'' ''worker'') d"
    and "avoids ''worker'' (world left_behind)" by (auto split: if_splits)
  then show "(other_step ''e1'' ''worker'')\<^sup>*\<^sup>* (world left_behind) (world (snd (Recover ?r (Root 0) left_behind)))"
    by (intro workers_respect_leases) simp_all
qed

text \<open>
  C9: a run that is over before its first lease would have expired is alone. It is refused the lease
  because another worker holds it, and does nothing; or, whatever other workers try meanwhile - whole
  runs of \<open>Recover\<close> among it - every renewal is granted, every save is accepted, the store holds the
  record the run saved last, and the lease is free again afterwards. Panics included.
\<close>

theorem exclusive_run:
  assumes "d_store d = mem_store_ops" and "respectful (rely eid own) d"
    and "ID (exec s) = eid" and "eid \<noteq> []"
    and "idgen_New (world s) = (Ret own, w)" and "avoids own w"
    and "resume d c s = (r, t)" and "clock (world t) < clock (world s) + sint (d_lockTTL d)"
  shows "lease_refused s t
       \<and> (\<exists>a e. mem_holder (mem (world s)) eid = Some (a, e) \<and> a \<noteq> own \<and> clock (world s) < e)
     \<or> (\<exists>tr. trace t = trace s @ tr \<and> list_all granted tr
          \<and> stored eid (mem (world t)) = last_of (stored eid (mem (world s))) (saves_of tr)
          \<and> mem_holder (mem (world t)) eid = None)"
proof -
  let ?r = "mem_Acquire eid own (d_lockTTL d) (clock (tick w)) (mem w)"
  let ?u = "s\<lparr>world := (tick w)\<lparr>mem := snd ?r\<rparr>, trace := trace s @ [ObsAcquire eid own, ObsAcquired (fst ?r)]\<rparr>"
  let ?rs = "\<lparr>rs_def = d, locker = Some mem_locker, lockOwner = own\<rparr>"
  let ?T = "clock (world s) + sint (d_lockTTL d)"
  have same: "mem w = mem (world s)" "clock (world s) \<le> clock (tick w)"
    using idgen_frame [OF assms(5)] tick_simps(1) [of w] by simp_all
  note run = resume_run [OF assms(1,5,3), of c]
  show ?thesis
  proof (cases "fst ?r")
    case False
    then have "\<exists>a e. mem_holder (mem (world s)) eid = Some (a, e) \<and> a \<noteq> own \<and> clock (tick w) < e"
      using memlock.acquire_free [of eid own "d_lockTTL d" "clock (tick w)" "mem w"] same(1)
      by (auto split: option.splits)
    moreover have "t = ?u" using False assms(7) run by (simp add: Let_def)
    ultimately show ?thesis using same(2) False assms(3) by (fastforce simp: lease_refused_def)
  next
    case True
    then have "leased_until eid own ?T (mem (world ?u))"
      using memlock.acquire_holder [OF True] same(2) by (simp add: leased_until_def)
    then have "wp (resume_held ?rs c) (\<lambda>_. left_alone eid own ?T ?u) (left_alone eid own ?T ?u) ?u"
      using assms(3,6) same(2) by (intro resume_held_alone [OF _ assms(1,2,4)]) (simp_all add: own_run_def)
    moreover have "resume_held ?rs c ?u = (r, t)" using assms(7) run True by (simp add: Let_def)
    ultimately have "left_alone eid own ?T ?u t" by (simp add: wp_final)
    then obtain tr where "trace t = trace ?u @ tr" "list_all granted tr"
        "stored eid (mem (world t)) = last_of (stored eid (mem (world ?u))) (saves_of tr)"
        "mem_holder (mem (world t)) eid = None"
      using assms(8) unfolding left_alone_def by blast
    then show ?thesis
      using True same(1)
      by (intro disjI2 exI [of _ "[ObsAcquire eid own, ObsAcquired True] @ tr"]) (simp add: stored_def)
  qed
qed

section \<open>A contested execution\<close>

text \<open>
  The takeover of \<open>Takeover\<close> with an action that does not outlive its lease: while the first worker
  charges, the second one runs the whole of \<open>Recover\<close> on the same execution. It is turned away, and the
  first completes.
\<close>

definition charge_only :: "(unit, takeover_user) action_func \<Rightarrow> (unit, takeover_user) definition_" where
  "charge_only action = (two_steps ''order'' [] ''charge'' action)\<lparr>d_steps := [Step ''charge'' (Some action) None []]\<rparr>"

definition contested :: "(unit, takeover_user) definition_" where
  "contested = charge_only (\<lambda>c x. seq_go (second_worker (charge_only (declined Canceled))) (ret (x, None)))"

definition contested_start :: "(nat \<Rightarrow> 8 word) \<Rightarrow> (unit, takeover_user) machine" where
  "contested_start bytes = (let e = new_execution contested ''e1'' None 0; s = takeover_start e bytes 0
     in s\<lparr>world := (world s)\<lparr>mem := snd (mem_Save (Some e) mem_New)\<rparr>\<rparr>)"

definition contested_bytes :: "nat \<Rightarrow> 8 word" where
  "contested_bytes i = (if i < 16 then 0 else 1)"

lemma contested_draws:
  "drawn contested_bytes 0 \<noteq> drawn (\<lambda>i. contested_bytes (i + 16)) 0"
  "entropy w = (\<lambda>i. Some (contested_bytes (i + 16))) \<Longrightarrow> avoids (drawn contested_bytes 0) w"
proof -
  have own: "drawn contested_bytes 0 = hex_EncodeToString (replicate 16 0)"
  proof -
    have "map contested_bytes [0..<16] = replicate 16 0" by code_simp
    then show ?thesis by (simp add: drawn_def del: upt_rec_numeral)
  qed
  have other: "hex_EncodeToString (replicate 16 1) \<noteq> hex_EncodeToString (replicate 16 0)"
    using hex_inj [of "replicate 16 1" "replicate 16 0"] by (auto simp: replicate_eq_replicate)
  show "drawn contested_bytes 0 \<noteq> drawn (\<lambda>i. contested_bytes (i + 16)) 0"
    using other unfolding own
    by (simp add: drawn_def contested_bytes_def map_replicate_const del: upt_rec_numeral)
  assume e: "entropy w = (\<lambda>i. Some (contested_bytes (i + 16)))"
  have "bs = replicate 16 1" if "map (\<lambda>i. entropy w (i + k)) [0..<16] = map Some bs" for k bs
  proof -
    have "map Some (replicate 16 1) = map Some bs"
      using that by (simp add: e contested_bytes_def map_replicate_const del: upt_rec_numeral)
    then show ?thesis by (simp add: inj_map_eq_map del: map_replicate)
  qed
  then show "avoids (drawn contested_bytes 0) w" using other own unfolding avoids_def by metis
qed

lemma contested_respects: "respectful (rely eid own) contested"
proof -
  have aside: "keeps (rely eid own) (modify (\<lambda>w. w\<lparr>user := f (user w)\<rparr>))" for f :: "takeover_user \<Rightarrow> takeover_user" and eid own
    by (rule relied.modify_frame, rule rely_aside) simp_all
  have declined: "respectful (rely eid own) (charge_only (declined Canceled))"
    by (auto simp: respectful_def charge_only_def two_steps_def Step_def declined_def NoRetry_def noRetryPolicy_def
        relied.ret_frame)
  have "rely eid own w (snd (second_worker (charge_only (declined Canceled)) w))" for w
  proof -
    let ?d = "charge_only (declined Canceled)"
    let ?r = "\<lparr>lister = mem_lister, sagas = [d_name ?d \<mapsto> ?d], policy = RecoverAutomatically\<rparr>"
    let ?s = "\<lparr>exec = new_execution ?d [] None 0, trace = [], world = w\<rparr>"
    obtain p t where run: "Recover ?r (Root 1) ?s = (p, t)" by fastforce
    have "keeps (relies eid own) (Recover ?r (Root 1))"
      using declined by (intro Recover_relies) (auto simp: charge_only_def two_steps_def split: if_splits)
    then have t: "rely eid own w (world t)" using run unfolding keeps_def relies_def by (metis machine.select_convs(3) snd_conv)
    have "rely eid own (world t) ((world t)\<lparr>user := u\<rparr>)" for u by (rule rely_aside) simp_all
    then show ?thesis
      using run t relied.trans [OF t]
      by (auto simp: second_worker_def split: prod.split outcome.split sum.split list.split)
  qed
  then have "keeps (rely eid own) (seq_go (second_worker (charge_only (declined Canceled))) (ret (x, None)))" for x
    by (intro relied.seq_frame relied.ret_frame) (simp add: keeps_def)
  then show ?thesis
    by (auto simp: respectful_def contested_def charge_only_def two_steps_def Step_def NoRetry_def noRetryPolicy_def
        relied.ret_frame)
qed

lemma contested_runs:
  assumes "drawn bytes 0 \<noteq> drawn (\<lambda>i. bytes (i + 16)) 0"
  shows "\<exists>t r. resume contested (Root 0) (contested_start bytes) = (Ret None, t)
     \<and> clock (world t) < 30000000000
     \<and> map_option Status (stored ''e1'' (mem (world t))) = Some StatusCompleted
     \<and> second_result (user (world t)) = Some r \<and> Err r = Some (ExecutionLockedError ''e1'')"
  using assms
  by (simp add: contested_start_def contested_def charge_only_def takeover_eval symbolic_eval tick_def store_eval stored_def
       new_execution_def three_draws del: Error_msg.simps)

theorem exclusive_run_witness:
  "\<exists>t r tr. resume contested (Root 0) (contested_start contested_bytes) = (Ret None, t)
     \<and> trace t = tr \<and> list_all granted tr
     \<and> stored ''e1'' (mem (world t)) = last_of (stored ''e1'' (mem (world (contested_start contested_bytes)))) (saves_of tr)
     \<and> map_option Status (stored ''e1'' (mem (world t))) = Some StatusCompleted
     \<and> second_result (user (world t)) = Some r \<and> Err r = Some (ExecutionLockedError ''e1'')"
proof -
  let ?s = "contested_start contested_bytes" and ?own = "drawn contested_bytes 0"
  let ?w = "(world ?s)\<lparr>entropy := \<lambda>i. Some (contested_bytes (i + 16))\<rparr>"
  have s: "ID (exec ?s) = ''e1''" "trace ?s = []" "d_lockTTL contested = DefaultLockTTL" "clock (world ?s) = 0"
    "mem_holder (mem (world ?s)) ''e1'' = None" "d_store contested = mem_store_ops"
    "entropy (world ?s) = (\<lambda>i. Some (contested_bytes i))"
    by (simp_all add: contested_start_def takeover_start_def Let_def new_execution_def contested_def charge_only_def
        two_steps_def mem_holder_def mem_New_def)
  have draw: "idgen_New (world ?s) = (Ret ?own, ?w)" using draws [of "world ?s" contested_bytes 0] s(7) by simp
  obtain t r where run: "resume contested (Root 0) ?s = (Ret None, t)" "clock (world t) < 30000000000"
      "map_option Status (stored ''e1'' (mem (world t))) = Some StatusCompleted"
      "second_result (user (world t)) = Some r" "Err r = Some (ExecutionLockedError ''e1'')"
    using contested_runs [OF contested_draws(1)] by blast
  have "clock (world t) < clock (world ?s) + sint (d_lockTTL contested)"
    using run(2) s(3,4) by (simp add: DefaultLockTTL_def Second_def)
  from exclusive_run [OF s(6) contested_respects s(1) _ draw contested_draws(2) run(1) this]
  show ?thesis using s run by auto
qed

end
