(* ===== verification/Example_Basic.thy ===== *)
theory Example_Basic
  imports Console
begin

text \<open>
  \<open>examples/basic\<close>: a saga of two steps, run once to its end and once into a failure that is
  compensated.
\<close>

record Order =
  order_ID :: string
  order_SKU :: string
  order_Qty :: int
  ReservationID :: string
  ChargeID :: string
  PaymentFails :: bool

type_synonym basic_world = "(Order, Order console) world"

definition reserveInventory :: "(Order, Order console) action_func" where
  "reserveInventory c data = bind_go (assert_type data) (\<lambda>order.
     let order = order\<lparr>ReservationID := ''res-'' @ order_ID order\<rparr> in
     seq_go (Printf ''  reserve_inventory: reserved %d x %s (reservation %s)\<newline>''
         [ArgInt (order_Qty order), ArgString (order_SKU order), ArgString (ReservationID order)])
       (ret (Some order, None)))"

definition releaseInventory :: "(Order, Order console) compensate_func" where
  "releaseInventory c data = bind_go (assert_type data) (\<lambda>order.
     seq_go (Printf ''  compensate reserve_inventory: releasing reservation %s\<newline>''
         [ArgString (ReservationID order)])
       (ret None))"

definition chargePayment :: "(Order, Order console) action_func" where
  "chargePayment c data = bind_go (assert_type data) (\<lambda>order.
     if PaymentFails order
     then bind_go new_ref (\<lambda>r. ret (None, Some (ErrorString r ''card declined'')))
     else let order = order\<lparr>ChargeID := ''chg-'' @ order_ID order\<rparr> in
       seq_go (Printf ''  charge_payment: charged order %s (charge %s)\<newline>''
           [ArgString (order_ID order), ArgString (ChargeID order)])
         (ret (Some order, None)))"

definition refundPayment :: "(Order, Order console) compensate_func" where
  "refundPayment c data = bind_go (assert_type data) (\<lambda>order.
     seq_go (Printf ''  compensate charge_payment: refunding charge %s\<newline>'' [ArgString (ChargeID order)])
       (ret None))"

text \<open>
  \<open>run\<close> and \<open>main\<close>. The variable \<open>workflow\<close> is a pointer: \<open>run\<close> returns the definition as
  \<open>Execute\<close> leaves it.
\<close>

definition run :: "(Order, Order console) definition_ \<Rightarrow> Order
    \<Rightarrow> (Order, Order console, (Order, Order console) definition_) engine" where
  "run workflow order = bind_go (Execute workflow (Root 0) (Some order)) (\<lambda>(err, workflow).
     bind_go (gets exec) (\<lambda>e.
     seq_go (in_world (Printf ''execution %s finished with status %s\<newline>''
         [ArgString (ID e), ArgString (status_string (Status e))]))
       (case err of
          Some x \<Rightarrow> seq_go (in_world (Printf ''  error: %v\<newline>'' [ArgError x])) (ret workflow)
        | None \<Rightarrow> seq_go (in_world (Printf ''  result: %+v\<newline>'' [ArgAny (Output e)])) (ret workflow))))"

definition workflow_steps :: "(Order, Order console) step_definition list" where
  "workflow_steps = [Step ''reserve_inventory'' (Some reserveInventory) (Some releaseInventory) [],
     Step ''charge_payment'' (Some chargePayment) (Some refundPayment) []]"

definition basic_main :: "(Order, Order console, unit) engine" where
  "basic_main = bind_go (New ''order_creation'' []) (\<lambda>workflow.
     bind_go (on_def (AddStep (workflow_steps ! 0)) workflow) (\<lambda>workflow.
     bind_go (on_def (AddStep (workflow_steps ! 1)) workflow) (\<lambda>workflow.
     seq_go (in_world (Println ''--- Running an order that succeeds ---''))
     (bind_go (run workflow \<lparr>order_ID = ''ord-1'', order_SKU = ''WIDGET'', order_Qty = 2,
         ReservationID = [], ChargeID = [], PaymentFails = False\<rparr>) (\<lambda>workflow.
     seq_go (in_world (Println []))
     (seq_go (in_world (Println ''--- Running an order whose payment fails ---''))
     (bind_go (run workflow \<lparr>order_ID = ''ord-2'', order_SKU = ''WIDGET'', order_Qty = 1,
         ReservationID = [], ChargeID = [], PaymentFails = True\<rparr>) (\<lambda>workflow.
     ret ()))))))))"

definition basic_saga :: "(Order, Order console) definition_" where
  "basic_saga = \<lparr>d_name = ''order_creation'', d_steps = workflow_steps,
     stepSet = [''reserve_inventory'' \<mapsto> True, ''charge_payment'' \<mapsto> True], d_frozen = True,
     d_store = noopStore, d_retryPolicy = NoRetry, d_timeout = 0, d_lockTTL = DefaultLockTTL,
     d_publisher = None, d_logger = None, d_metrics = None, d_tracer = None\<rparr>"

lemmas basic_eval = basic_saga_def workflow_steps_def reserveInventory_def releaseInventory_def
  chargePayment_def refundPayment_def console_eval

definition charged :: "Order \<Rightarrow> Order" where
  "charged order = order\<lparr>ReservationID := ''res-'' @ order_ID order, ChargeID := ''chg-'' @ order_ID order\<rparr>"

definition reserve_line :: "Order \<Rightarrow> Order printed" where
  "reserve_line order = Formatted ''  reserve_inventory: reserved %d x %s (reservation %s)\<newline>''
     [ArgInt (order_Qty order), ArgString (order_SKU order), ArgString (''res-'' @ order_ID order)]"

lemma run_succeeds:
  assumes "calm_world (world s)" and "\<not> PaymentFails order"
  shows "\<exists>t i. run (basic_saga\<lparr>d_frozen := frozen\<rparr>) order s = (Ret basic_saga, t) \<and> calm_world (world t)
    \<and> stdout (user (world t)) = stdout (user (world s)) @
      [reserve_line order,
       Formatted ''  charge_payment: charged order %s (charge %s)\<newline>''
         [ArgString (order_ID order), ArgString (''chg-'' @ order_ID order)],
       Formatted ''execution %s finished with status %s\<newline>'' [ArgString i, ArgString ''COMPLETED''],
       Formatted ''  result: %+v\<newline>'' [ArgAny (Some (charged order))]]"
  using assms
  unfolding calm_world_def reserve_line_def charged_def
  by (simp add: run_def symbolic_eval basic_eval)

lemma run_fails:
  assumes "calm_world (world s)" and "PaymentFails order"
  shows "\<exists>t i r. run (basic_saga\<lparr>d_frozen := frozen\<rparr>) order s = (Ret basic_saga, t) \<and> calm_world (world t)
    \<and> stdout (user (world t)) = stdout (user (world s)) @
      [reserve_line order,
       Formatted ''  compensate reserve_inventory: releasing reservation %s\<newline>''
         [ArgString (''res-'' @ order_ID order)],
       Formatted ''execution %s finished with status %s\<newline>'' [ArgString i, ArgString ''COMPENSATED''],
       Formatted ''  error: %v\<newline>''
         [ArgError (StepError ''charge_payment'' (Some (ErrorString r ''card declined'')))]]"
  using assms
  unfolding calm_world_def reserve_line_def
  by (simp add: run_def symbolic_eval basic_eval)

lemma build_workflow:
  "bind_go (New ''order_creation'' []) (\<lambda>workflow.
     bind_go (on_def (AddStep (workflow_steps ! 0)) workflow) (\<lambda>workflow.
     bind_go (on_def (AddStep (workflow_steps ! 1)) workflow) k)) = k (basic_saga\<lparr>d_frozen := False\<rparr>)"
  by (simp add: New_def AddStep_def on_def_def control_eval Step_def flag_at_def TrimSpace_def is_space_def
      workflow_steps_def basic_saga_def fun_eq_iff)

text \<open>
  C40: what \<open>examples/basic\<close> prints, in any world with a working random source whose background
  context is not cancelled: the first order is reserved, charged and completed with both
  identifiers in its result; the second is reserved, its charge is refused, the reservation - and
  only the reservation - is released, and the saga ends compensated with the error of the charge.
\<close>

theorem basic_main_output:
  assumes "calm_world (world s)"
  shows "\<exists>t i j r. basic_main s = (Ret (), t)
    \<and> stdout (user (world t)) = stdout (user (world s)) @
      [Line ''--- Running an order that succeeds ---'',
       Formatted ''  reserve_inventory: reserved %d x %s (reservation %s)\<newline>''
         [ArgInt 2, ArgString ''WIDGET'', ArgString ''res-ord-1''],
       Formatted ''  charge_payment: charged order %s (charge %s)\<newline>''
         [ArgString ''ord-1'', ArgString ''chg-ord-1''],
       Formatted ''execution %s finished with status %s\<newline>'' [ArgString i, ArgString ''COMPLETED''],
       Formatted ''  result: %+v\<newline>'' [ArgAny (Some \<lparr>order_ID = ''ord-1'', order_SKU = ''WIDGET'',
         order_Qty = 2, ReservationID = ''res-ord-1'', ChargeID = ''chg-ord-1'', PaymentFails = False\<rparr>)],
       Line [],
       Line ''--- Running an order whose payment fails ---'',
       Formatted ''  reserve_inventory: reserved %d x %s (reservation %s)\<newline>''
         [ArgInt 1, ArgString ''WIDGET'', ArgString ''res-ord-2''],
       Formatted ''  compensate reserve_inventory: releasing reservation %s\<newline>'' [ArgString ''res-ord-2''],
       Formatted ''execution %s finished with status %s\<newline>'' [ArgString j, ArgString ''COMPENSATED''],
       Formatted ''  error: %v\<newline>''
         [ArgError (StepError ''charge_payment'' (Some (ErrorString r ''card declined'')))]]"
proof -
  let ?o1 = "\<lparr>order_ID = ''ord-1'', order_SKU = ''WIDGET'', order_Qty = 2, ReservationID = [], ChargeID = [],
    PaymentFails = False\<rparr>"
  let ?o2 = "\<lparr>order_ID = ''ord-2'', order_SKU = ''WIDGET'', order_Qty = 1, ReservationID = [], ChargeID = [],
    PaymentFails = True\<rparr>"
  let ?say = "\<lambda>x (s :: (Order, Order console) machine). s\<lparr>world := (world s)\<lparr>user := (user (world s))
    \<lparr>stdout := stdout (user (world s)) @ [x]\<rparr>\<rparr>\<rparr>"
  define s1 where "s1 = ?say (Line ''--- Running an order that succeeds ---'') s"
  have "calm_world (world s1)" using assms by (simp add: s1_def calm_world_def)
  then obtain t1 i where r1: "run (basic_saga\<lparr>d_frozen := False\<rparr>) ?o1 s1 = (Ret basic_saga, t1)"
      "calm_world (world t1)" "stdout (user (world t1)) = stdout (user (world s1)) @
      [reserve_line ?o1,
       Formatted ''  charge_payment: charged order %s (charge %s)\<newline>'' [ArgString ''ord-1'', ArgString (''chg-'' @ ''ord-1'')],
       Formatted ''execution %s finished with status %s\<newline>'' [ArgString i, ArgString ''COMPLETED''],
       Formatted ''  result: %+v\<newline>'' [ArgAny (Some (charged ?o1))]]"
    using run_succeeds [of s1 ?o1 False] by auto
  define s2 where "s2 = ?say (Line ''--- Running an order whose payment fails ---'') (?say (Line []) t1)"
  have "calm_world (world s2)" using r1(2) by (simp add: s2_def calm_world_def)
  then obtain t2 j r where r2: "run basic_saga ?o2 s2 = (Ret basic_saga, t2)"
      "stdout (user (world t2)) = stdout (user (world s2)) @
      [reserve_line ?o2,
       Formatted ''  compensate reserve_inventory: releasing reservation %s\<newline>'' [ArgString (''res-'' @ ''ord-2'')],
       Formatted ''execution %s finished with status %s\<newline>'' [ArgString j, ArgString ''COMPENSATED''],
       Formatted ''  error: %v\<newline>''
         [ArgError (StepError ''charge_payment'' (Some (ErrorString r ''card declined'')))]]"
    using run_fails [of s2 ?o2 True] by (auto simp: basic_saga_def)
  have "basic_main s = (Ret (), t2)"
    unfolding basic_main_def build_workflow
    using r1(1) r2(1) by (simp add: in_world_def Println_def control_eval s1_def s2_def)
  then show ?thesis
    using r1(3) r2(2) by (auto simp: s1_def s2_def reserve_line_def charged_def)
qed

theorem basic_main_output_witness:
  "\<exists>t. basic_main \<lparr>exec = new_execution basic_saga [] None 0, trace = [], world =
      \<lparr>clock = 0, ticks = (\<lambda>n. 1), cancel_at = (\<lambda>n. None), entropy = (\<lambda>i. Some 0), next_ref = 0, mem = mem_New,
       user = \<lparr>stdout = []\<rparr>\<rparr>\<rparr> = (Ret (), t) \<and> length (stdout (user (world t))) = 11"
proof -
  let ?s = "\<lparr>exec = new_execution basic_saga [] None 0, trace = [], world =
      \<lparr>clock = 0, ticks = (\<lambda>n. 1), cancel_at = (\<lambda>n. None), entropy = (\<lambda>i. Some 0), next_ref = 0, mem = mem_New,
       user = \<lparr>stdout = []\<rparr>\<rparr>\<rparr> :: (Order, Order console) machine"
  have "calm_world (world ?s)" by (simp add: calm_world_def)
  from basic_main_output [OF this] show ?thesis by auto
qed

end
