(* ===== verification/Mild_Runs.thy ===== *)
theory Mild_Runs
  imports Console Engine_Rules
begin

text \<open>
  Runs that nothing disturbs: the in-memory store, a working random source, a background context that
  is not cancelled, observers that return and change nothing a view \<open>V\<close> of the user's state shows, and
  less than a second between two looks at the clock. Here every operation of the engine succeeds, and
  the triples say what it leaves behind; the example programs run in this way.
\<close>

definition mild :: "('u \<Rightarrow> 'v) \<Rightarrow> ('d, 'u) definition_ \<Rightarrow> bool" where
  "mild V d \<longleftrightarrow> d_store d = mem_store_ops \<and> d_metrics d = None \<and> d_tracer d = None \<and> sint (d_timeout d) \<le> 0
     \<and> (\<forall>p c ev w. d_publisher d = Some p \<longrightarrow>
          (\<exists>u. Publish p c ev w = (Ret (), w\<lparr>user := u\<rparr>) \<and> V u = V (user w)))
     \<and> (\<forall>l c level msg attrs w. d_logger d = Some l \<longrightarrow>
          (\<exists>u. Log l c level msg attrs w = (Ret (), w\<lparr>user := u\<rparr>) \<and> V u = V (user w)))"

definition fine :: "string \<Rightarrow> ('d, 'u) machine \<Rightarrow> bool" where
  "fine own s \<longleftrightarrow> calm_world (world s) \<and> (\<forall>n. ticks (world s) n < 1000000000) \<and> ID (exec s) \<noteq> []
     \<and> (\<exists>l. map_of (leases (mem (world s))) (ID (exec s)) = Some l \<and> owner l = own)"

definition still :: "('u \<Rightarrow> 'v) \<Rightarrow> string \<Rightarrow> ('d, 'u) machine \<Rightarrow> ('d, 'u) machine \<Rightarrow> bool" where
  "still V own s t \<longleftrightarrow> fine own t \<and> exec t = exec s \<and> V (user (world t)) = V (user (world s))"

lemma still_trans: "still V own s t \<Longrightarrow> still V own t u \<Longrightarrow> still V own s u"
  by (simp add: still_def)

lemma fine_simps [simp]:
  "fine own s \<Longrightarrow> fine own (s\<lparr>trace := tr\<rparr>)"
  "fine own s \<Longrightarrow> fine own (s\<lparr>world := tick (world s)\<rparr>)"
  "fine own s \<Longrightarrow> fine own (s\<lparr>world := (world s)\<lparr>user := u\<rparr>\<rparr>)"
  "fine own s \<Longrightarrow> fine own (s\<lparr>world := (world s)\<lparr>next_ref := r\<rparr>\<rparr>)"
  "fine own s \<Longrightarrow> fine own (s\<lparr>world := (world s)\<lparr>clock := k\<rparr>\<rparr>)"
  by (auto simp: fine_def calm_world_def tick_def)

section \<open>Observers and persisting\<close>

definition quietly :: "('u \<Rightarrow> 'v) \<Rightarrow> string \<Rightarrow> ('d, 'u, 'a) engine \<Rightarrow> ('a \<Rightarrow> bool) \<Rightarrow> bool" where
  "quietly V own m P \<longleftrightarrow> (\<forall>s. fine own s \<longrightarrow> wp m (\<lambda>a t. P a \<and> still V own s t) (\<lambda>_. False) s)"

lemma quietly_ret: "P a \<Longrightarrow> quietly V own (ret a) P"
  by (simp add: quietly_def wp_ret still_def)

lemma quietly_bind:
  fixes V :: "'u \<Rightarrow> 'v" and m :: "('d, 'u, 'a) engine"
  assumes "quietly V own m P" and "\<And>a. P a \<Longrightarrow> quietly V own (f a) Q"
  shows "quietly V own (bind_go m f) Q"
  unfolding quietly_def wp_bind
proof (intro allI impI)
  fix s :: "('d, 'u) machine" assume s: "fine own s"
  have m: "wp m (\<lambda>a t. P a \<and> still V own s t) (\<lambda>_. False) s" using assms(1) s by (simp add: quietly_def)
  have "wp (f a) (\<lambda>b u. Q b \<and> still V own s u) (\<lambda>_. False) t" if "P a \<and> still V own s t" for a t
  proof -
    have "fine own t" using that by (simp add: still_def)
    then have "wp (f a) (\<lambda>b u. Q b \<and> still V own t u) (\<lambda>_. False) t"
      using assms(2) that by (simp add: quietly_def)
    then show ?thesis by (rule wp_mono) (use that still_trans in blast)+
  qed
  then show "wp m (\<lambda>a. wp (f a) (\<lambda>b u. Q b \<and> still V own s u) (\<lambda>_. False)) (\<lambda>_. False) s"
    by (rule wp_mono [OF m]) simp
qed

lemma quietly_seq: "quietly V own m P \<Longrightarrow> quietly V own k Q \<Longrightarrow> quietly V own (seq_go m k) Q"
  unfolding seq_go_def by (rule quietly_bind)

lemma quietly_recovered: "quietly V own m P \<Longrightarrow> quietly V own (recovered m) (\<lambda>_. True)"
  unfolding quietly_def by (auto simp: wp_recovered elim!: wp_mono)

lemma quietly_basic:
  "quietly V own (gets g) (\<lambda>_. True)" "quietly V own (in_world time_Now) (\<lambda>_. True)" "quietly V own (emit x) (\<lambda>_. True)"
  by (simp_all add: quietly_def wp_gets wp_in_world wp_time_Now wp_emit still_def)

lemma quietly_in_world:
  fixes V :: "'u \<Rightarrow> 'v" and m :: "(('d, 'u) world, 'a) go"
  assumes "\<And>w. \<exists>u. m w = (Ret a, w\<lparr>user := u\<rparr>) \<and> V u = V (user w)"
  shows "quietly V own (in_world m) (\<lambda>b. b = a)"
  unfolding quietly_def wp_in_world
proof (intro allI impI)
  fix s :: "('d, 'u) machine" assume "fine own s"
  moreover obtain u where "m (world s) = (Ret a, (world s)\<lparr>user := u\<rparr>)" "V u = V (user (world s))"
    using assms by blast
  ultimately show "wp m (\<lambda>b w. b = a \<and> still V own s (s\<lparr>world := w\<rparr>)) (\<lambda>w. False) (world s)"
    by (simp add: wp_def still_def)
qed

lemma quietly_mono: "quietly V own m P \<Longrightarrow> (\<And>a. P a \<Longrightarrow> Q a) \<Longrightarrow> quietly V own m Q"
  unfolding quietly_def by (auto elim!: wp_mono)

lemmas quiet_rules = quietly_ret quietly_bind quietly_seq quietly_basic quietly_recovered

lemma observers_quiet:
  fixes rs :: "('d, 'u) run_state"
  assumes "mild V (rs_def rs)"
  shows "quietly V own (publish rs c ev) (\<lambda>_. True)" "quietly V own (logEvent rs c ev) (\<lambda>_. True)"
    "quietly V own (incEventCounter rs ev) (\<lambda>_. True)" "quietly V own (observeDuration rs n k ls) (\<lambda>_. True)"
proof -
  show "quietly V own (publish rs c ev) (\<lambda>_. True)"
  proof (cases "d_publisher (rs_def rs)")
    case (Some p)
    then have "quietly V own (in_world (Publish p c ev)) (\<lambda>b. b = ())"
      using assms by (intro quietly_in_world) (auto simp: mild_def)
    then show ?thesis unfolding publish_def Some option.case
      by (intro quietly_seq [OF quietly_basic(3)] quietly_recovered)
  qed (simp add: publish_def quietly_ret)
  show "quietly V own (logEvent rs c ev) (\<lambda>_. True)"
  proof (cases "d_logger (rs_def rs)")
    case (Some l)
    then have "quietly V own (in_world (Log l c level msg attrs)) (\<lambda>b. b = ())" for level msg attrs
      using assms by (intro quietly_in_world) (auto simp: mild_def)
    then show ?thesis unfolding logEvent_def Let_def Some option.case
      by (intro quietly_seq [OF quietly_basic(3)]) (auto intro: quietly_mono)
  qed (simp add: logEvent_def quietly_ret)
  show "quietly V own (incEventCounter rs ev) (\<lambda>_. True)" "quietly V own (observeDuration rs n k ls) (\<lambda>_. True)"
    using assms by (simp_all add: mild_def incEventCounter_def observeDuration_def quietly_ret)
qed

lemma notify_quiet:
  fixes rs :: "('d, 'u) run_state"
  assumes "mild V (rs_def rs)"
  shows "quietly V own (notifyStep rs c i ts) (\<lambda>_. True)" "quietly V own (notifyExec rs c to') (\<lambda>_. True)"
proof -
  note obs = observers_quiet [OF assms, of own]
  show "quietly V own (notifyStep rs c i ts) (\<lambda>_. True)"
    by (cases "stepEventType ts")
       (auto simp: notifyStep_def publishAndLog_def intro!: quiet_rules obs)
  show "quietly V own (notifyExec rs c to') (\<lambda>_. True)"
    by (cases "sagaEventType to'")
       (auto simp: notifyExec_def Let_def intro!: quiet_rules obs split: option.split bool.split)
qed

lemma wp_store_op:
  "wp (\<lambda>w. case f w of (x, m) \<Rightarrow> (Ret (g x), h w m)) Q E w = (case f w of (x, m) \<Rightarrow> Q (g x) (h w m))"
  "wp (\<lambda>w. (Ret a, k w)) Q E w = Q a (k w)"
  by (simp_all add: wp_def split: prod.split)

lemma acquire_fine:
  fixes s :: "('d, 'u) machine" and V :: "'u \<Rightarrow> 'v"
  assumes "calm_world (world s)" and "\<forall>n. ticks (world s) n < 1000000000" and "ID (exec s) \<noteq> []"
    and "case map_of (leases (mem (world s))) (ID (exec s)) of None \<Rightarrow> True | Some l \<Rightarrow> owner l = own"
  shows "wp (do_Acquire mem_locker c (ID (exec s)) own ttl) (\<lambda>p t. p = (True, None) \<and> still V own s t) (\<lambda>_. False) s"
proof -
  have "mem_Acquire (ID (exec s)) own ttl now (mem (world s)) =
      (True, (mem (world s))\<lparr>leases := AList.update (ID (exec s)) \<lparr>owner = own, expires = now + sint ttl\<rparr>
        (leases (mem (world s)))\<rparr>)" for now
    using assms(4) by (auto simp: mem_Acquire_def split: option.splits)
  then show ?thesis
    using assms(1-3) unfolding do_Acquire_def mem_locker_def
    by (simp add: wp_seq wp_emit wp_bind wp_in_world wp_time_Now wp_ret wp_store_op
        still_def fine_def calm_world_def update_conv tick_def)
qed

lemma save_quiet:
  fixes rs :: "('d, 'u) run_state" and V :: "'u \<Rightarrow> 'v"
  assumes "mild V (rs_def rs)" and "locker rs = Some mem_locker" and "lockOwner rs = own"
  shows "quietly V own (save rs c) (\<lambda>err. err = None)"
  unfolding quietly_def
proof (intro allI impI)
  fix s :: "('d, 'u) machine" assume s: "fine own s"
  have store: "d_store (rs_def rs) = mem_store_ops" using assms(1) by (simp add: mild_def)
  have acq: "wp (do_Acquire mem_locker c (ID (exec s)) own ttl) (\<lambda>p t. p = (True, None) \<and> still V own s t) (\<lambda>_. False) s" for ttl
    using s by (intro acquire_fine) (auto simp: fine_def)
  have put: "wp (store_Save (rs_def rs) c) (\<lambda>err t. err = None \<and> still V own s t) (\<lambda>_. False) t" if "still V own s t" for t
    using that unfolding store_Save_def store
    by (auto simp: wp_bind wp_gets wp_seq wp_emit wp_in_world wp_ret mem_store_ops_def wp_store_op
        mem_Save_def still_def fine_def calm_world_def)
  show "wp (save rs c) (\<lambda>err t. err = None \<and> still V own s t) (\<lambda>_. False) s"
    unfolding save_def assms(2,3) option.case wp_bind [of "gets f" for f] wp_gets wp_bind [of "do_Acquire l c i o' t" for l i o' t]
    by (rule wp_mono [OF acq]) (auto intro: put)
qed

section \<open>Transitions\<close>

definition mild_run :: "('u \<Rightarrow> 'v) \<Rightarrow> string \<Rightarrow> ('d, 'u) run_state \<Rightarrow> bool" where
  "mild_run V own rs \<longleftrightarrow> mild V (rs_def rs) \<and> locker rs = Some mem_locker \<and> lockOwner rs = own"

text \<open>Saving and telling, from a state that is \<open>s\<close> but for the record.\<close>

lemma save_and_tell_quiet:
  assumes "mild_run V own rs" and "quietly V own tell (\<lambda>_. True)"
  shows "quietly V own (bind_go (save rs c) (\<lambda>err. case err of Some x \<Rightarrow> ret (Some x)
     | None \<Rightarrow> seq_go tell (ret None))) (\<lambda>err. err = None)"
proof (rule quietly_bind)
  show "quietly V own (save rs c) (\<lambda>err. err = None)"
    using assms(1) by (intro save_quiet) (simp_all add: mild_run_def)
  show "quietly V own (case err of None \<Rightarrow> seq_go tell (ret None) | Some x \<Rightarrow> ret (Some x)) (\<lambda>err. err = None)"
    if "err = None" for err
    using that by (auto intro!: quietly_seq [OF assms(2)] quietly_ret)
qed

lemma transitionStep_fine:
  fixes s :: "('d, 'u) machine" and V :: "'u \<Rightarrow> 'v"
  assumes run: "mild_run V own rs" and s: "fine own s" and i: "i < length (Steps (exec s))"
    and ok: "canTransitionStepStatus (sStatus (Steps (exec s) ! i)) ts"
  shows "wp (transitionStep rs c i ts) (\<lambda>err t. err = None \<and> fine own t \<and> V (user (world t)) = V (user (world s))
     \<and> (\<exists>y now. step_transition (Steps (exec s) ! i) ts now = Inr y
          \<and> exec t = (exec s)\<lparr>Steps := (Steps (exec s))[i := y]\<rparr>)) (\<lambda>_. False) s"
proof -
  obtain y where y: "step_transition (Steps (exec s) ! i) ts (clock (tick (world s))) = Inr y"
    using ok step_transition_Inr_iff by (cases "step_transition (Steps (exec s) ! i) ts (clock (tick (world s)))")
      (auto simp: step_transition_def Let_def)
  let ?u = "s\<lparr>world := tick (world s), exec := (exec s)\<lparr>Steps := (Steps (exec s))[i := y]\<rparr>\<rparr>"
  have u: "fine own ?u" using s by (auto simp: fine_def calm_world_def tick_def)
  have "quietly V own (notifyStep rs c i ts) (\<lambda>_. True)"
    using run by (intro notify_quiet) (simp add: mild_run_def)
  from save_and_tell_quiet [OF run this, of c, unfolded quietly_def, rule_format, OF u] y
  show ?thesis
    unfolding transitionStep_def
    by (auto simp: wp_bind [of "in_world m" for m] wp_in_world wp_time_Now wp_bind [of "step_at i"] wp_step_at i
        wp_seq [of "upd_step i f" for f] wp_upd_step still_def elim!: wp_mono)
qed

lemma transitionExec_fine:
  fixes s :: "('d, 'u) machine" and V :: "'u \<Rightarrow> 'v"
  assumes run: "mild_run V own rs" and s: "fine own s" and ok: "canTransitionStatus (Status (exec s)) to'"
  shows "wp (transitionExec rs c to') (\<lambda>err t. err = None \<and> fine own t \<and> V (user (world t)) = V (user (world s))
     \<and> (\<exists>now. exec_transition (exec s) to' now = Inr (exec t))) (\<lambda>_. False) s"
proof -
  obtain e where e: "exec_transition (exec s) to' (clock (tick (world s))) = Inr e"
    using ok by (cases "exec_transition (exec s) to' (clock (tick (world s)))")
      (auto simp: exec_transition_def Let_def)
  let ?u = "s\<lparr>world := tick (world s), exec := e\<rparr>"
  have u: "fine own ?u" using s exec_transition_fields(3) [OF e] by (auto simp: fine_def calm_world_def tick_def)
  have "quietly V own (notifyExec rs c to') (\<lambda>_. True)"
    using run by (intro notify_quiet) (simp add: mild_run_def)
  from save_and_tell_quiet [OF run this, of c, unfolded quietly_def, rule_format, OF u] e
  show ?thesis
    unfolding transitionExec_def
    by (auto simp: wp_bind [of "in_world m" for m] wp_in_world wp_time_Now wp_bind [of "gets f" for f] wp_gets
        wp_seq [of "upd_exec f" for f] wp_upd_exec still_def elim!: wp_mono)
qed

section \<open>Steps\<close>

text \<open>
  What an action answers when the view of the user's state is \<open>v\<close>: the output \<open>out\<close> and an error in
  \<open>P\<close>, with the view \<open>v'\<close> afterwards.
\<close>

definition answers :: "('u \<Rightarrow> 'v) \<Rightarrow> ('d, 'u) action_func \<Rightarrow> string \<Rightarrow> 'd any \<Rightarrow> 'v
    \<Rightarrow> 'd any \<Rightarrow> (gerr option \<Rightarrow> bool) \<Rightarrow> 'v \<Rightarrow> bool" where
  "answers V f key x v out P v' \<longleftrightarrow> (\<forall>c w. OperationID c = key \<longrightarrow> V (user w) = v \<longrightarrow>
     (\<exists>u r err. f c x w = (Ret (out, err), w\<lparr>user := u, next_ref := r\<rparr>) \<and> P err \<and> V u = v'))"

lemma answersI:
  fixes f :: "('d, 'u) action_func"
  assumes "\<And>c w. OperationID c = key \<Longrightarrow> V (user w) = v \<Longrightarrow> case f c x w of (r, w') \<Rightarrow>
    (\<exists>err. r = Ret (out, err) \<and> P err) \<and> w' = w\<lparr>user := user w', next_ref := next_ref w'\<rparr> \<and> V (user w') = v'"
  shows "answers V f key x v out P v'"
  unfolding answers_def
proof (intro allI impI)
  fix c and w :: "('d, 'u) world" assume "OperationID c = key" "V (user w) = v"
  from assms [OF this] obtain err w' where "f c x w = (Ret (out, err), w')" "P err"
      "w' = w\<lparr>user := user w', next_ref := next_ref w'\<rparr>" "V (user w') = v'"
    by (cases "f c x w") auto
  then show "\<exists>u r err. f c x w = (Ret (out, err), w\<lparr>user := u, next_ref := r\<rparr>) \<and> P err \<and> V u = v'" by metis
qed

lemma run_action_fine:
  fixes s :: "('d, 'u) machine" and V :: "'u \<Rightarrow> 'v"
  assumes "fine own s" and "Action step = Some f" and "OperationID c = key" and "V (user (world s)) = v"
    and "answers V f key x v out P v'"
  shows "wp (run_action step c x) (\<lambda>p t. fst p = out \<and> P (snd p) \<and> fine own t \<and> V (user (world t)) = v'
     \<and> exec t = exec s \<and> clock (world t) = clock (world s)) (\<lambda>_. False) s"
proof -
  obtain u r err where f: "f c x (world s) = (Ret (out, err), (world s)\<lparr>user := u, next_ref := r\<rparr>)" "P err" "V u = v'"
    using assms(3-5) unfolding answers_def by blast
  have "fine own (s\<lparr>world := (world s)\<lparr>user := u, next_ref := r\<rparr>, trace := tr\<rparr>)" for tr
    using assms(1) by (simp add: fine_def calm_world_def)
  then show ?thesis
    using f assms(2) unfolding run_action_def
    by (simp add: wp_seq wp_emit wp_bind [of "in_world m" for m] wp_in_world wp_def [of "f c x"] wp_ret)
qed

lemma wp_ret_fun: "wp (ret a) Q E = Q a"
  by (simp add: fun_eq_iff wp_ret)

lemma callAction_fine:
  fixes s :: "('d, 'u) machine" and V :: "'u \<Rightarrow> 'v"
  assumes run: "mild_run V own rs" and s: "fine own s" and f: "Action step = Some f"
    and timeout: "sint timeout \<le> 0 \<or> 1000000000 \<le> sint timeout"
    and v: "V (user (world s)) = v" and ans: "answers V f key x v out P v'"
  shows "wp (callAction rs (Root 0) key step timeout x) (\<lambda>p t. fst p = out \<and> P (snd p) \<and> fine own t
     \<and> V (user (world t)) = v' \<and> exec t = exec s) (\<lambda>_. False) s"
proof -
  let ?c = "withOperationID (Root 0) key"
  have tracer: "d_tracer (rs_def rs) = None" using run by (simp add: mild_run_def mild_def)
  have direct: "wp (run_action step ?c x) (\<lambda>p t. fst p = out \<and> P (snd p) \<and> fine own t \<and> V (user (world t)) = v'
     \<and> exec t = exec s) (\<lambda>_. False) s"
    by (rule wp_mono [OF run_action_fine [OF s f _ v ans]]) simp_all
  have guarded: "wp (bind_go (run_action step (WithDeadline ?c due y) x) (\<lambda>(out, err).
        bind_go (in_world (context_Cause (WithDeadline ?c due y))) (\<lambda>cause.
          if errors_Is_opt cause y then ret (None, Some y) else ret (out, err))))
      (\<lambda>p t. fst p = out \<and> P (snd p) \<and> fine own t \<and> V (user (world t)) = v' \<and> exec t = exec s) (\<lambda>_. False) t"
    if t: "fine own t" "V (user (world t)) = v" "exec t = exec s" and due: "clock (world t) + 1000000000 \<le> due" for t due y
    unfolding wp_bind [of "run_action st c x" for st c x]
  proof (rule wp_mono [OF run_action_fine [OF t(1) f _ t(2) ans, of "WithDeadline ?c due y"]], goal_cases)
    case (2 p u)
    have "int (ticks (world u) 0) < 1000000000" using 2 by (simp add: fine_def)
    then have "clock (tick (world u)) < due" using 2 due by (simp add: tick_def)
    moreover have "cancel_at (world u) 0 = None" using 2 by (simp add: fine_def calm_world_def)
    ultimately have "ended (tick (world u)) (WithDeadline ?c due y) = None"
      by (simp add: ended_def withOperationID_def)
    then show ?case using 2 t(3)
      by (simp add: case_prod_unfold wp_bind wp_in_world wp_context_Cause wp_ret)
  qed simp_all
  show ?thesis
  proof (cases "sint timeout \<le> 0")
    case True
    then show ?thesis
      using direct by (simp add: callAction_def startSpan_def tracer wp_bind wp_ret_fun wp_deferred)
  next
    case False
    let ?u = "s\<lparr>world := tick ((world s)\<lparr>next_ref := Suc (next_ref (world s))\<rparr>)\<rparr>"
    have u: "fine own ?u" "V (user (world ?u)) = v" "exec ?u = exec s"
      using s v by (auto simp: fine_def calm_world_def tick_def)
    show ?thesis
      using False timeout guarded [OF u, of "clock (world ?u) + sint timeout"]
      by (simp add: callAction_def Let_def startSpan_def tracer wp_bind [of "ret a" for a] wp_ret_fun wp_deferred
          wp_bind [of "in_world m" for m] wp_in_world wp_new_ref wp_WithTimeoutCause)
  qed
qed

text \<open>An attempt that succeeds, and one that fails and is repeated after a delay.\<close>

definition retried :: "('d, 'u) retry_policy \<Rightarrow> gerr option \<Rightarrow> bool" where
  "retried p err \<longleftrightarrow> (\<exists>y. err = Some y \<and> \<not> isNonRetryable y) \<and> 1 < MaxAttempts p
     \<and> (\<forall>n. \<exists>wait. Delay p n = ret wait \<and> 0 < sint wait)"

definition bump :: "nat \<Rightarrow> 'd execution \<Rightarrow> 'd execution" where
  "bump i e = e\<lparr>Steps := (Steps e)[i := (Steps e ! i)\<lparr>sAttempts := sAttempts (Steps e ! i) + 1\<rparr>]\<rparr>"

lemma fine_bump [simp]: "fine own (s\<lparr>exec := bump i (exec s)\<rparr>) = fine own s"
  by (simp add: fine_def bump_def)

lemma awake: "fine own s \<Longrightarrow> ended (tick (world s)) (Root 0) = None"
  by (simp add: fine_def calm_world_def ended_def)

lemma first_attempt:
  fixes s :: "('d, 'u) machine" and V :: "'u \<Rightarrow> 'v"
  assumes run: "mild_run V own rs" and s: "fine own s" and f: "Action step = Some f"
    and timeout: "sint (step_timeout step) \<le> 0 \<or> 1000000000 \<le> sint (step_timeout step)"
    and v: "V (user (world s)) = v" and ans: "answers V f key x v out (\<lambda>err. err = None) v'"
  shows "wp (run_attempts rs (Root 0) None key i step x n) (\<lambda>p t. p = (out, None) \<and> fine own t
     \<and> V (user (world t)) = v' \<and> exec t = bump i (exec s)) (\<lambda>_. False) s"
proof -
  let ?u = "s\<lparr>world := tick (world s), exec := bump i (exec s)\<rparr>"
  have u: "fine own ?u" "V (user (world ?u)) = v" using s v by (auto simp: fine_def calm_world_def tick_def bump_def)
  show ?thesis
    by (subst run_attempts.simps, simp add: wp_bind [of "in_world m" for m] wp_in_world wp_ctx_Done awake [OF s]
        wp_seq wp_upd_step bump_def [symmetric] wp_bind [of "callAction r c o' st t y" for r c o' st t y],
        rule wp_mono [OF callAction_fine [OF run u(1) f timeout u(2) ans]])
       (auto simp: saga_expired_def wp_bind [of "ret a" for a] wp_ret_fun)
qed

lemma second_attempt:
  fixes s :: "('d, 'u) machine" and V :: "'u \<Rightarrow> 'v"
  assumes run: "mild_run V own rs" and s: "fine own s" and f: "Action step = Some f"
    and timeout: "sint (step_timeout step) \<le> 0 \<or> 1000000000 \<le> sint (step_timeout step)"
    and v: "V (user (world s)) = v" and fails: "answers V f key x v out' (retried (retryPolicyFor rs step)) v'"
    and ans: "answers V f key x v' out (\<lambda>err. err = None) v''"
  shows "wp (run_attempts rs (Root 0) None key i step x 1) (\<lambda>p t. p = (out, None) \<and> fine own t
     \<and> V (user (world t)) = v'' \<and> exec t = bump i (bump i (exec s))) (\<lambda>_. False) s"
proof -
  let ?u = "s\<lparr>world := tick (world s), exec := bump i (exec s)\<rparr>"
  have u: "fine own ?u" "V (user (world ?u)) = v" using s v by (auto simp: fine_def calm_world_def tick_def bump_def)
  have rest: "wp (bind_go (saga_expired (Root 0) None) (\<lambda>expired.
        if expired then ret (None, None)
        else (case snd p of
            None \<Rightarrow> ret (fst p, None)
          | Some y \<Rightarrow> bind_go (in_world (ctx_Done (Root 0))) (\<lambda>done.
              if done then bind_go (in_world (context_Cause (Root 0))) (\<lambda>cause. ret (None, cause))
              else if isNonRetryable y \<or> MaxAttempts (retryPolicyFor rs step) \<le> 1
              then ret (None, Some (StepError (Name step) (Some y)))
              else bind_go (in_world (Delay (retryPolicyFor rs step) (1 + 1))) (\<lambda>delay.
                bind_go (sleepOrDone (Root 0) delay) (\<lambda>waitErr. case waitErr of
                    Some e \<Rightarrow> ret (None, Some e)
                  | None \<Rightarrow> run_attempts rs (Root 0) None key i step x (1 + 1)))))))
      (\<lambda>p t. p = (out, None) \<and> fine own t \<and> V (user (world t)) = v'' \<and> exec t = bump i (bump i (exec s)))
      (\<lambda>_. False) t"
    if t: "fine own t" "V (user (world t)) = v'" "exec t = bump i (exec s)"
      and p: "retried (retryPolicyFor rs step) (snd p)" for p t
  proof -
    obtain y wait where y: "snd p = Some y" "\<not> isNonRetryable y" "1 < MaxAttempts (retryPolicyFor rs step)"
        "Delay (retryPolicyFor rs step) 2 = ret wait" "0 < sint wait"
      using p unfolding retried_def by metis
    have calm: "cancel_at (world t) 0 = None" using t(1) by (simp add: fine_def calm_world_def)
    let ?w = "(tick (tick (world t)))\<lparr>clock := clock (tick (tick (world t))) + sint wait\<rparr>"
    have "fine own (t\<lparr>trace := tr, world := ?w\<rparr>)" for tr
      using t(1) by (auto simp: fine_def calm_world_def tick_def)
    note again = first_attempt [OF run this f timeout _ ans, of _ i 2]
    show ?thesis
      using y calm t again awake [OF t(1)]
      by (simp add: saga_expired_def wp_bind wp_ret_fun wp_in_world wp_ctx_Done sleepOrDone_def wp_seq wp_emit
          timer_or_done_def Let_def wp_time_Now wp_gets wp_modify)
  qed
  show ?thesis
    by (subst run_attempts.simps, simp add: wp_bind [of "in_world m" for m] wp_in_world wp_ctx_Done awake [OF s]
        wp_seq wp_upd_step bump_def [symmetric] wp_bind [of "callAction r c o' st t y" for r c o' st t y],
        rule wp_mono [OF callAction_fine [OF run u(1) f timeout u(2) fails]])
       (use rest in \<open>auto simp: case_prod_unfold\<close>)
qed

section \<open>The loop\<close>

text \<open>Nothing has changed in a record from step \<open>j\<close> on.\<close>

definition ahead :: "nat \<Rightarrow> 'd execution \<Rightarrow> 'd execution \<Rightarrow> bool" where
  "ahead j e f \<longleftrightarrow> ID f = ID e \<and> Status f = Status e \<and> length (Steps f) = length (Steps e)
     \<and> (\<forall>k \<ge> j. Steps f ! k = Steps e ! k)"

lemma ahead_simps [simp]:
  "ahead j e e" "ahead j e (f\<lparr>CurrentStep := n\<rparr>) = ahead j e f"
  "i < j \<Longrightarrow> ahead j e (f\<lparr>Steps := (Steps f)[i := y]\<rparr>) = ahead j e f"
  "i < j \<Longrightarrow> ahead j e (bump i f) = ahead j e f"
  "i < j \<Longrightarrow> ahead j e (e\<lparr>CurrentStep := n, Steps := (Steps e)[i := y]\<rparr>)"
  by (auto simp: ahead_def bump_def)

lemma ahead_bumps [simp]: "i < j \<Longrightarrow> ahead j e ((bump i ^^ k) f) = ahead j e f"
  by (induction k) simp_all

lemma bump_simps [simp]:
  "sStatus (Steps (bump i e) ! j) = sStatus (Steps e ! j)" "length (Steps (bump i e)) = length (Steps e)"
  "ID (bump i e) = ID e"
  by (cases "i < length (Steps e)"; cases "j = i"; simp add: bump_def list_update_beyond)+

lemma bumps_simps [simp]:
  "sStatus (Steps ((bump i ^^ k) e) ! j) = sStatus (Steps e ! j)" "length (Steps ((bump i ^^ k) e)) = length (Steps e)"
  by (induction k) simp_all

lemma forward_step_fine:
  fixes s :: "('d, 'u) machine" and V :: "'u \<Rightarrow> 'v"
  assumes run: "mild_run V own rs" and s: "fine own s" and v: "V (user (world s)) = v"
    and i: "i < length (Steps (exec s))" and st: "sStatus (Steps (exec s) ! i) \<in> {StepStatusPending, StepStatusRunning}"
    and attempts: "\<And>t. fine own t \<Longrightarrow> V (user (world t)) = v \<Longrightarrow>
      wp (run_attempts rs (Root 0) None (operationID (ID (exec s)) (Name step)) i step x 1)
        (\<lambda>p u. p = (out, None) \<and> fine own u \<and> V (user (world u)) = v' \<and> (\<exists>k. exec u = (bump i ^^ k) (exec t)))
        (\<lambda>_. False) t"
    and "next": "\<And>t. fine own t \<Longrightarrow> V (user (world t)) = v' \<Longrightarrow> ahead (Suc i) (exec s) (exec t) \<Longrightarrow>
      wp (forward rs (Root 0) None rest (Suc i) out) Q (\<lambda>_. False) t"
  shows "wp (forward rs (Root 0) None (step # rest) i x) Q (\<lambda>_. False) s"
proof -
  let ?run = "bind_go (gets (\<lambda>m. ID (exec m))) (\<lambda>executionID.
      bind_go (runStep rs (Root 0) None executionID i step x) (\<lambda>(out, stepErr).
      case stepErr of
        Some y \<Rightarrow> seq_go (upd_step i (\<lambda>s. s\<lparr>sError := Error_msg y\<rparr>))
          (bind_go (transitionStep rs (Root 0) i StepStatusFailed) (\<lambda>err. case err of
             Some z \<Rightarrow> ret (Some z)
           | None \<Rightarrow> seq_go (set_CurrentStep []) (abort rs (Root 0) i (Some y))))
      | None \<Rightarrow> seq_go (upd_step i (\<lambda>s. s\<lparr>sOutput := out\<rparr>))
          (bind_go (transitionStep rs (Root 0) i StepStatusSucceeded) (\<lambda>err. case err of
             Some z \<Rightarrow> ret (Some z)
           | None \<Rightarrow> forward rs (Root 0) None rest (Suc i) out))))"
  have run_it: "wp ?run Q (\<lambda>_. False) t"
    if t: "fine own t" "V (user (world t)) = v" "ahead (Suc i) (exec s) (exec t)"
      "sStatus (Steps (exec t) ! i) = StepStatusRunning" for t
  proof -
    have id: "ID (exec t) = ID (exec s)" and same: "length (Steps (exec t)) = length (Steps (exec s))"
      using t(3) by (simp_all add: ahead_def)
    have last: "wp (seq_go (upd_step i (\<lambda>s. s\<lparr>sOutput := out\<rparr>))
          (bind_go (transitionStep rs (Root 0) i StepStatusSucceeded) (\<lambda>err. case err of
             Some z \<Rightarrow> ret (Some z)
           | None \<Rightarrow> forward rs (Root 0) None rest (Suc i) out))) Q (\<lambda>_. False) u"
      if u: "fine own u" "V (user (world u)) = v'" "exec u = (bump i ^^ k) (exec t)" for u k
    proof -
      have at: "i < length (Steps (exec u))" "sStatus (Steps (exec u) ! i) = StepStatusRunning"
          "ahead (Suc i) (exec s) (exec u)"
        using t(3,4) u(3) i same by simp_all
      let ?u = "u\<lparr>exec := (exec u)\<lparr>Steps := (Steps (exec u))[i := (Steps (exec u) ! i)\<lparr>sOutput := out\<rparr>]\<rparr>\<rparr>"
      have fine: "fine own ?u" using u(1) by (simp add: fine_def)
      have "canTransitionStepStatus (sStatus (Steps (exec ?u) ! i)) StepStatusSucceeded"
        using at by (simp add: canTransitionStepStatus_def)
      note move = transitionStep_fine [OF run fine _ this, of "Root 0"]
      show ?thesis
        using at u(2) by (auto simp: wp_seq wp_upd_step wp_bind [of "transitionStep r c j ts" for r c j ts]
            intro!: wp_mono [OF move] "next")
    qed
    show ?thesis
      unfolding wp_bind [of "gets f" for f] wp_gets id runStep_def wp_bind [of "run_attempts a b c d e f g h" for a b c d e f g h]
      by (rule wp_mono [OF attempts [OF t(1,2)]]) (use last in auto)
  qed
  have named: "fine own (s\<lparr>world := tick (world s), exec := (exec s)\<lparr>CurrentStep := Name step\<rparr>\<rparr>)"
    using s by (auto simp: fine_def calm_world_def tick_def)
  have enter: "wp (forward rs (Root 0) None (step # rest) i x) Q (\<lambda>_. False) s =
      wp (bind_go (if sStatus (Steps (exec s) ! i) = StepStatusPending
          then transitionStep rs (Root 0) i StepStatusRunning else ret None)
        (\<lambda>err. case err of Some y \<Rightarrow> ret (Some y) | None \<Rightarrow> ?run)) Q (\<lambda>_. False)
        (s\<lparr>world := tick (world s), exec := (exec s)\<lparr>CurrentStep := Name step\<rparr>\<rparr>)"
    using awake [OF s] i
    by (simp add: wp_bind [of "in_world m" for m] wp_in_world wp_ctx_Done wp_seq [of "set_CurrentStep n" for n]
        wp_set_CurrentStep wp_bind [of "step_at j" for j] wp_step_at)
  show ?thesis
  proof (cases "sStatus (Steps (exec s) ! i) = StepStatusPending")
    case True
    then have "canTransitionStepStatus (sStatus (Steps (exec (s\<lparr>world := tick (world s),
        exec := (exec s)\<lparr>CurrentStep := Name step\<rparr>\<rparr>)) ! i)) StepStatusRunning"
      by (simp add: canTransitionStepStatus_def)
    note move = transitionStep_fine [OF run named _ this, of "Root 0"]
    have ran: "sStatus y = StepStatusRunning" if "step_transition z StepStatusRunning now = Inr y" for y z now
      using step_transition_fields(1) [OF that] .
    show ?thesis
      unfolding enter if_P [OF True] wp_bind [of "transitionStep r c j ts" for r c j ts]
      by (rule wp_mono [OF move]) (use i v ran in \<open>auto intro!: run_it\<close>)
  next
    case False
    have "sStatus (Steps (exec s) ! i) = StepStatusRunning" using st False by simp
    then show ?thesis
      unfolding enter if_not_P [OF False] wp_bind [of "ret None"] wp_ret
      using named v by (auto intro!: run_it)
  qed
qed

lemma forward_done_fine:
  fixes s :: "('d, 'u) machine" and V :: "'u \<Rightarrow> 'v"
  assumes run: "mild_run V own rs" and s: "fine own s" and st: "Status (exec s) = StatusRunning"
  shows "wp (forward rs c None [] i x) (\<lambda>err t. err = None \<and> Status (exec t) = StatusCompleted \<and> Output (exec t) = x
     \<and> ID (exec t) = ID (exec s) \<and> V (user (world t)) = V (user (world s))) (\<lambda>_. False) s"
proof -
  let ?u = "s\<lparr>exec := (exec s)\<lparr>CurrentStep := [], Output := x\<rparr>\<rparr>"
  have "fine own ?u" "canTransitionStatus (Status (exec ?u)) StatusCompleted"
    using s st by (simp_all add: fine_def canTransitionStatus_def)
  note move = transitionExec_fine [OF run this, of c]
  have same: "Output e' = Output e" "ID e' = ID e" "Status e' = to'" if "exec_transition e to' now = Inr e'" for e e' :: "'d execution" and to' now
    using exec_transition_fields [OF that] by simp_all
  show ?thesis
    by (simp add: wp_seq wp_upd_exec, rule wp_mono [OF move]) (auto dest: same)
qed

section \<open>Whole runs\<close>

lemma release_lock_leaves:
  assumes "locker rs = Some mem_locker"
  shows "wp (release_lock rs c) (\<lambda>_ t. exec t = exec s \<and> user (world t) = user (world s)) (\<lambda>_. False) s"
  unfolding release_lock_def assms mem_locker_def
  by (simp add: wp_bind wp_gets wp_seq wp_emit wp_in_world wp_def [of "\<lambda>w. (Ret None, f w)" for f] wp_ret)

lemma resume_fine:
  fixes s :: "('d, 'u) machine" and V :: "'u \<Rightarrow> 'v"
  assumes mild: "mild V d" and calm: "calm_world (world s)" "\<forall>n. ticks (world s) n < 1000000000"
    and rec: "ID (exec s) \<noteq> []" "Status (exec s) \<in> {StatusPending, StatusRunning}"
      "find_failed 0 (Steps (exec s)) = None" "skip_succeeded 0 (Input (exec s)) (Steps (exec s)) = (i, x)"
    and free: "map_of (leases (mem (world s))) (ID (exec s)) = None"
    and fw: "\<And>own rs t. mild_run V own rs \<Longrightarrow> rs_def rs = d \<Longrightarrow> fine own t \<Longrightarrow> V (user (world t)) = V (user (world s)) \<Longrightarrow>
      ID (exec t) = ID (exec s) \<Longrightarrow> Steps (exec t) = Steps (exec s) \<Longrightarrow> Status (exec t) = StatusRunning \<Longrightarrow>
      wp (forward rs (Root 0) None (drop i (d_steps d)) i x) (\<lambda>err t. F err (exec t) (V (user (world t)))) (\<lambda>_. False) t"
  shows "wp (resume d (Root 0)) (\<lambda>err t. F err (exec t) (V (user (world t)))) (\<lambda>_. False) s"
proof -
  let ?F = "\<lambda>err t. F err (exec t) (V (user (world t)))"
  have d: "as_Locker (d_store d) = Some mem_locker" "d_tracer d = None" "\<not> 0 < sint (d_timeout d)"
    using mild by (auto simp: mild_def mem_store_ops_def)
  have running: "wp (resumeRunning rs (Root 0) None) ?F (\<lambda>_. False) t"
    if "mild_run V own rs" "rs_def rs = d" "fine own t" "V (user (world t)) = V (user (world s))"
      "ID (exec t) = ID (exec s)" "Steps (exec t) = Steps (exec s)" "Input (exec t) = Input (exec s)"
      "Status (exec t) = StatusRunning" for own rs t
    using fw [OF that(1-6,8)] that(2,6,7) rec(3,4)
    by (simp add: resumeRunning_def wp_bind [of "gets f" for f] wp_gets)
  have dispatched: "wp (dispatch rs (Root 0) None) ?F (\<lambda>_. False) t"
    if t: "mild_run V own rs" "rs_def rs = d" "fine own t" "V (user (world t)) = V (user (world s))" "exec t = exec s" for own rs t
  proof (cases "Status (exec s) = StatusPending")
    case True
    then have "canTransitionStatus (Status (exec t)) StatusRunning" using t(5) by (simp add: canTransitionStatus_def)
    note move = transitionExec_fine [OF t(1,3) this, of "Root 0"]
    have same: "Status e' = to' \<and> ID e' = ID e \<and> Steps e' = Steps e \<and> Input e' = Input e"
      if "exec_transition e to' now = Inr e'" for e e' :: "'d execution" and to' now
      using exec_transition_fields [OF that] by simp_all
    show ?thesis
      using True t(5)
      by (simp add: dispatch_def wp_bind [of "gets f" for f] wp_gets wp_bind [of "transitionExec a b c" for a b c],
          intro wp_mono [OF move])
         (use running [OF t(1,2)] t(4,5) in \<open>auto dest!: same\<close>)
  next
    case False
    then have "Status (exec t) = StatusRunning" using rec(2) t(5) by simp
    then show ?thesis
      using running [OF t(1-4)] t(5) by (simp add: dispatch_def wp_bind [of "gets f" for f] wp_gets)
  qed
  have held: "wp (resume_held rs (Root 0)) ?F (\<lambda>_. False) t"
    if t: "mild_run V own rs" "rs_def rs = d" "still V own s t" for own rs t
  proof -
    have now: "wp (dispatch rs (Root 0) None) ?F (\<lambda>_. False) t"
      using dispatched [OF t(1,2)] t(3) by (simp add: still_def)
    have lk: "locker rs = Some mem_locker" using t(1) by (simp add: mild_run_def)
    have release: "wp (release_lock rs c) (\<lambda>_. ?F err) (\<lambda>_. False) u" if "?F err u" for c err u
      by (rule wp_mono [OF release_lock_leaves [OF lk]]) (use that in auto)
    have "wp (deferred (release_lock rs (Root 0)) (dispatch rs (Root 0) None)) ?F (\<lambda>_. False) t"
      unfolding wp_deferred by (rule wp_mono [OF now]) (use release in auto)
    then show ?thesis
      using d(2,3) t(2)
      by (simp add: resume_held_def startSpan_def start_timeout_def wp_bind [of "on_panic a b" for a b] wp_on_panic
          wp_bind [of "ret a" for a] wp_ret_fun wp_deferred)
  qed
  have own: "wp idgen_New (\<lambda>_ w. w = (world s)\<lparr>entropy := (\<lambda>i. entropy (world s) (i + 16))\<rparr>) (\<lambda>_. False) (world s)"
    using calm(1) idgen_New_ok [of "world s"] by (simp add: wp_def calm_world_def)
  have locked: "wp (do_Acquire mem_locker (Root 0) (ID (exec u)) own ttl) (\<lambda>p t. p = (True, None) \<and> still V own s t) (\<lambda>_. False) u"
    if u: "u = s\<lparr>world := (world s)\<lparr>entropy := en\<rparr>\<rparr>" "\<forall>i. en i \<noteq> None" for u own ttl en
    by (rule wp_mono [OF acquire_fine [where V = V]])
       (use calm rec(1) free u in \<open>auto simp: calm_world_def still_def\<close>)
  have got: "wp (bind_go (gets (\<lambda>s. ID (exec s))) (\<lambda>i.
        bind_go (do_Acquire mem_locker (Root 0) i own (d_lockTTL d)) (\<lambda>(acquired, err). case err of
            Some x \<Rightarrow> ret (Some (acquire_error i x))
          | None \<Rightarrow> if \<not> acquired then ret (Some (ExecutionLockedError i))
              else resume_held \<lparr>rs_def = d, locker = Some mem_locker, lockOwner = own\<rparr> (Root 0)))) ?F (\<lambda>_. False) u"
    if u: "u = s\<lparr>world := (world s)\<lparr>entropy := en\<rparr>\<rparr>" "\<forall>i. en i \<noteq> None" for u own en
    unfolding wp_bind [of "gets f" for f] wp_gets wp_bind [of "do_Acquire l c i own t" for l c i own t]
    by (rule wp_mono [OF locked [OF u]]) (use held mild in \<open>auto simp: mild_run_def\<close>)
  have "\<forall>i. entropy (world s) (i + 16) \<noteq> None" using calm(1) by (simp add: calm_world_def)
  note got = got [OF refl this]
  show ?thesis
    unfolding resume_def d(1) option.case wp_bind [of "in_world m" for m] wp_in_world
    by (rule wp_mono [OF own]) (use got in auto)
qed

lemma new_execution_resumes:
  "find_failed k (map (\<lambda>step. new_step_execution (Name step) StepStatusPending) ss) = None"
  "skip_succeeded k data (map (\<lambda>step. new_step_execution (Name step) StepStatusPending) ss) = (k, data)"
  by (induction ss arbitrary: k) (auto simp: new_step_execution_def)

lemma Execute_fine:
  fixes s :: "('d, 'u) machine" and V :: "'u \<Rightarrow> 'v"
  assumes mild: "mild V d" and calm: "calm_world (world s)" "\<forall>n. ticks (world s) n < 1000000000"
    and free: "leases (mem (world s)) = []"
    and fw: "\<And>own rs t. mild_run V own rs \<Longrightarrow> rs_def rs = snd (Freeze d) \<Longrightarrow> fine own t \<Longrightarrow>
      V (user (world t)) = V (user (world s)) \<Longrightarrow>
      Steps (exec t) = map (\<lambda>step. new_step_execution (Name step) StepStatusPending) (d_steps d) \<Longrightarrow>
      Status (exec t) = StatusRunning \<Longrightarrow>
      wp (forward rs (Root 0) None (d_steps d) 0 input) (\<lambda>err t. F err (exec t) (V (user (world t)))) (\<lambda>_. False) t"
  shows "wp (Execute d (Root 0) input) (\<lambda>p t. F (fst p) (exec t) (V (user (world t))) \<and> snd p = snd (Freeze d))
    (\<lambda>_. False) s"
proof -
  let ?d = "snd (Freeze d)"
  have frozen: "mild V ?d" "d_steps ?d = d_steps d"
    using mild by (simp_all add: mild_def Freeze_def control_eval)
  have store: "d_store ?d = mem_store_ops" using frozen(1) by (simp add: mild_def)
  have resumed: "wp (resume ?d (Root 0)) (\<lambda>err t. F err (exec t) (V (user (world t)))) (\<lambda>_. False) u"
    if u: "exec u = new_execution ?d i input now" "i \<noteq> []" "calm_world (world u)" "\<forall>n. ticks (world u) n < 1000000000"
      "leases (mem (world u)) = []" "V (user (world u)) = V (user (world s))" for u i now
    by (rule resume_fine [where V = V and i = 0 and x = input])
       (use u frozen fw in \<open>auto simp: new_execution_def new_execution_resumes\<close>)
  have saved: "wp (store_Save ?d (Root 0)) (\<lambda>err t. err = None \<and> exec t = exec u \<and> (\<exists>m. world t = (world u)\<lparr>mem := m\<rparr>
      \<and> leases m = leases (mem (world u)))) (\<lambda>_. False) u" if "ID (exec u) \<noteq> []" for u :: "('d, 'u) machine"
    using that unfolding store_Save_def store
    by (auto simp: wp_bind wp_gets wp_seq wp_emit wp_in_world wp_ret mem_store_ops_def wp_store_op mem_Save_def)
  have own: "wp idgen_New (\<lambda>i w. i \<noteq> [] \<and> w = (tick (world s))\<lparr>entropy := (\<lambda>i. entropy (world s) (i + 16))\<rparr>) (\<lambda>_. False)
      (tick (world s))"
  proof -
    have "hex_EncodeToString (map (the \<circ> entropy (world s)) [0..<16]) \<noteq> []"
      using hex_length [of "map (the \<circ> entropy (world s)) [0..<16]"] by (cases "hex_EncodeToString (map (the \<circ> entropy (world s)) [0..<16])") auto
    then show ?thesis
      using calm(1) idgen_New_ok [of "tick (world s)"] by (simp add: wp_def calm_world_def)
  qed
  let ?F = "\<lambda>p t. F (fst p) (exec t) (V (user (world t))) \<and> snd p = ?d"
  have rest: "wp (bind_go (store_Save ?d (Root 0)) (\<lambda>err. case err of
           Some x \<Rightarrow> ret (Some x, ?d)
         | None \<Rightarrow> bind_go (resume ?d (Root 0)) (\<lambda>err. ret (err, ?d)))) ?F (\<lambda>_. False) u"
    if u: "exec u = new_execution ?d i input now" "i \<noteq> []"
      "world u = (tick (world s))\<lparr>entropy := (\<lambda>i. entropy (world s) (i + 16))\<rparr>" for u :: "('d, 'u) machine" and i now
  proof -
    have "ID (exec u) \<noteq> []" using u(1,2) by (simp add: new_execution_def)
    note save = saved [OF this]
    have "wp (bind_go (resume ?d (Root 0)) (\<lambda>err. ret (err, ?d))) ?F (\<lambda>_. False) t"
      if t: "exec t = exec u" "world t = (world u)\<lparr>mem := m\<rparr>" "leases m = leases (mem (world u))" for t :: "('d, 'u) machine" and m
      unfolding wp_bind
      by (rule wp_mono [OF resumed [of t i now]])
         (use t u calm free in \<open>auto simp: calm_world_def tick_def wp_ret\<close>)
    then show ?thesis
      unfolding wp_bind [of "store_Save d c" for d c] by (intro wp_mono [OF save]) auto
  qed
  show ?thesis
    unfolding Execute_def Let_def
    by (simp add: wp_bind [of "in_world m" for m] wp_in_world wp_time_Now wp_seq [of "upd_exec f" for f] wp_upd_exec)
       (rule wp_mono [OF own]; auto intro!: rest)
qed

end
