(* ===== verification/World_Frames.thy ===== *)
theory World_Frames
  imports Callback_Frames
begin

text \<open>
  What a run does to the world outside the library: whatever the functions it is built from do. The
  locale \<open>world_frame\<close> takes a relation \<open>W\<close> between worlds that is reflexive and transitive, that the
  library's own doings (clock, randomness, pointers) respect, and that every function of a definition
  respects when it is called - an action only with the key of its step in the execution \<open>eid\<close>. Then
  every run of that execution respects \<open>W\<close>: it is an instance of \<open>callback_frame\<close>.
\<close>

section \<open>The relation on machines\<close>

definition carries :: "string \<Rightarrow> (('d, 'u) world \<Rightarrow> ('d, 'u) world \<Rightarrow> bool)
    \<Rightarrow> ('d, 'u) machine \<Rightarrow> ('d, 'u) machine \<Rightarrow> bool" where
  "carries i W s t \<longleftrightarrow> (ID (exec s) = i \<longrightarrow> ID (exec t) = i \<and> W (world s) (world t))"

definition restless :: "(('d, 'u) world \<Rightarrow> ('d, 'u) world \<Rightarrow> bool) \<Rightarrow> bool" where
  "restless W \<longleftrightarrow> (\<forall>w. W w w) \<and> (\<forall>u v w. W u v \<longrightarrow> W v w \<longrightarrow> W u w)
     \<and> (\<forall>w c t e r. W w (w\<lparr>clock := c, ticks := t, entropy := e, next_ref := r\<rparr>))"

locale world_frame =
  fixes d :: "('d, 'u) definition_" and eid :: string
    and W :: "('d, 'u) world \<Rightarrow> ('d, 'u) world \<Rightarrow> bool"
  assumes restless: "restless W"
    and action: "step \<in> set (d_steps d) \<Longrightarrow> Action step = Some f \<Longrightarrow>
      OperationID c = operationID eid (Name step) \<Longrightarrow> keeps W (f c x)"
    and undo: "step \<in> set (d_steps d) \<Longrightarrow> Compensate step = Some g \<Longrightarrow> keeps W (g c x)"
    and delay: "step \<in> set (d_steps d) \<Longrightarrow> step_retryPolicy step = Some p \<Longrightarrow> keeps W (Delay p n)"
      "keeps W (Delay (d_retryPolicy d) n)"
    and persist: "keeps W (Save (d_store d) c e)"
    and lease: "as_Locker (d_store d) = Some l \<Longrightarrow> keeps W (Acquire l c i own ttl)"
      "as_Locker (d_store d) = Some l \<Longrightarrow> keeps W (Release l c i own)"
    and observe: "d_publisher d = Some p' \<Longrightarrow> keeps W (Publish p' c ev)"
      "d_logger d = Some lg \<Longrightarrow> keeps W (Log lg c level msg attrs)"
      "d_metrics d = Some m \<Longrightarrow> keeps W (IncCounter m n' labels)"
      "d_metrics d = Some m \<Longrightarrow> keeps W (ObserveDuration m n' k labels)"
    and spans: "d_tracer d = Some tr \<Longrightarrow> keeps W (StartSpan tr c n')"
      "d_tracer d = Some tr \<Longrightarrow> StartSpan tr c n' w = (Ret (c', fin), w') \<Longrightarrow>
        keeps W fin \<and> OperationID c' = OperationID c"

sublocale world_frame \<subseteq> world: frame W
  using restless by unfold_locales (auto simp: restless_def)

sublocale world_frame \<subseteq> machine: frame "carries eid W"
  using restless by unfold_locales (auto simp: restless_def carries_def)

context world_frame
begin

lemma in_world_carries: "keeps W m \<Longrightarrow> keeps (carries eid W) (in_world m)"
  by (auto simp: keeps_def carries_def in_world_def zoom_def split: prod.split) (metis snd_conv)

lemma own_doings:
  "W w (w\<lparr>clock := c\<rparr>)" "W w (w\<lparr>entropy := e\<rparr>)" "W w (w\<lparr>next_ref := r\<rparr>)" "W w (tick w)"
proof -
  have all: "W w (w\<lparr>clock := c, ticks := t, entropy := e, next_ref := r\<rparr>)" for w c t e r
    using restless by (simp add: restless_def)
  show "W w (w\<lparr>clock := c\<rparr>)" using all [where w = w and c = c and t = "ticks w" and e = "entropy w" and r = "next_ref w"] by simp
  show "W w (w\<lparr>entropy := e\<rparr>)" using all [where w = w and c = "clock w" and t = "ticks w" and e = e and r = "next_ref w"] by simp
  show "W w (w\<lparr>next_ref := r\<rparr>)" using all [where w = w and c = "clock w" and t = "ticks w" and e = "entropy w" and r = r] by simp
  show "W w (tick w)" using all [where w = w and e = "entropy w" and r = "next_ref w"] by (simp add: tick_def)
qed

lemma library_keeps:
  "keeps W time_Now" "keeps W (ctx_Done c)" "keeps W (context_Cause c)" "keeps W new_ref"
  "keeps W (context_WithTimeoutCause c timeout y)" "keeps W (timer_or_done c wait)" "keeps W idgen_New"
proof -
  show now: "keeps W time_Now" unfolding time_Now_def by (intro world.frame_rules own_doings)
  show "keeps W (ctx_Done c)" "keeps W (context_Cause c)"
    unfolding ctx_Done_def context_Cause_def by (intro world.frame_rules own_doings)+
  show "keeps W new_ref" unfolding new_ref_def
    by (intro world.ret_frame world.gets_frame world.bind_frame world.seq_frame world.modify_frame own_doings)
  show "keeps W (context_WithTimeoutCause c timeout y)"
    unfolding context_WithTimeoutCause_def by (intro world.frame_rules now)
  show "keeps W (timer_or_done c wait)"
    unfolding timer_or_done_def Let_def by (intro world.frame_rules now own_doings)
  show "keeps W idgen_New"
    unfolding idgen_New_def rand_Read_def by (intro world.frame_rules own_doings)
qed

text \<open>What a computation reads of the execution is about \<open>eid\<close>.\<close>

lemma carries_gets:
  assumes "\<And>i. i = eid \<Longrightarrow> keeps (carries eid W) (f i)"
  shows "keeps (carries eid W) (bind_go (gets (\<lambda>s. ID (exec s))) f)"
  unfolding keeps_def
proof
  fix s :: "('d, 'u) machine"
  show "carries eid W s (snd (bind_go (gets (\<lambda>s. ID (exec s))) f s))"
    using assms [of "ID (exec s)"]
    by (cases "ID (exec s) = eid") (simp_all add: keeps_def bind_go_def gets_def, simp add: carries_def)
qed

text \<open>Observations of every kind are irrelevant to the world.\<close>

lemma emit_carries: "keeps (carries eid W) (emit x)"
  unfolding emit_def by (rule machine.modify_frame) (simp add: carries_def world.refl)

lemma do_Acquire_carries: "as_Locker (d_store d) = Some l \<Longrightarrow> keeps (carries eid W) (do_Acquire l c i own ttl)"
  unfolding do_Acquire_def
  by (intro machine.seq_frame machine.bind_frame machine.prod_frame machine.ret_frame emit_carries
      in_world_carries lease)

lemma store_Save_carries: "keeps (carries eid W) (store_Save d c)"
  unfolding store_Save_def
  by (intro machine.seq_frame machine.bind_frame machine.gets_frame machine.ret_frame emit_carries
      in_world_carries persist)

definition held :: "('d, 'u) run_state \<Rightarrow> bool" where
  "held rs \<longleftrightarrow> rs_def rs = d \<and> (\<forall>l. locker rs = Some l \<longrightarrow> as_Locker (d_store d) = Some l)"

lemma held_definition: "held rs \<Longrightarrow> rs_def rs = d"
  by (simp add: held_def)

lemma save_carries:
  assumes "held rs"
  shows "keeps (carries eid W) (save rs c)"
proof -
  have def: "rs_def rs = d" and l: "locker rs = Some l \<Longrightarrow> as_Locker (d_store d) = Some l" for l
    using assms by (simp_all add: held_def)
  show ?thesis
    unfolding save_def def
    by (intro machine.option_frame machine.bind_frame machine.gets_frame machine.prod_frame machine.if_frame
        machine.ret_frame do_Acquire_carries store_Save_carries l; assumption)
qed

end

sublocale world_frame \<subseteq> engine: callback_frame "carries eid W" d held "\<lambda>i. i = eid"
  by unfold_locales
     (auto simp: carries_def world.refl intro: in_world_carries library_keeps action undo delay save_carries
        observe spans(1) carries_gets held_definition dest: spans(2))

context world_frame
begin

lemmas rules = engine.rules emit_carries

lemma release_lock_carries: "held rs \<Longrightarrow> keeps (carries eid W) (release_lock rs c)"
  unfolding release_lock_def held_def by (intro rules in_world_carries lease(2)) blast

lemma resume_carries: "keeps (carries eid W) (resume d c)"
  unfolding resume_def
  by (intro rules in_world_carries library_keeps do_Acquire_carries engine.resume_held_keeps release_lock_carries;
      simp add: held_def)

end

text \<open>What the locale gives for the entry points.\<close>

lemma resume_world:
  assumes "world_frame d (ID (exec s)) W"
  shows "W (world s) (world (snd (resume d c s)))"
  using world_frame.resume_carries [OF assms] by (simp add: keeps_def carries_def)

lemma Execute_world:
  assumes "\<And>i. world_frame (snd (Freeze d)) i (W i)"
  shows "wp (Execute d c input) (\<lambda>_ t. W (ID (exec t)) (world s) (world t)) (\<lambda>t. \<exists>i. W i (world s) (world t)) s"
proof -
  let ?d = "snd (Freeze d)"
  have lib: "W i (world s) (snd (idgen_New (tick (world s))))" for i
  proof -
    have "W i (world s) (tick (world s))" by (rule world_frame.own_doings(4) [OF assms])
    then show ?thesis
      using world_frame.library_keeps(7) [OF assms, of i] world_frame.restless [OF assms, of i]
      unfolding keeps_def restless_def by blast
  qed
  have after: "wp (bind_go (store_Save ?d c) (\<lambda>err. case err of Some x \<Rightarrow> ret (Some x, ?d)
        | None \<Rightarrow> bind_go (resume ?d c) (\<lambda>err. ret (err, ?d))))
      (\<lambda>_ t. W (ID (exec t)) (world s) (world t)) (\<lambda>t. \<exists>i. W i (world s) (world t)) u"
    if "ID (exec u) = i" "W i (world s) (world u)" for u :: "('a, 'b) machine" and i
  proof -
    have "keeps (carries i (W i)) (store_Save ?d c)" "keeps (carries i (W i)) (resume ?d c)"
      using world_frame.store_Save_carries [OF assms] world_frame.resume_carries [OF assms] by blast+
    then have "keeps (carries i (W i)) (bind_go (store_Save ?d c) (\<lambda>err. case err of Some x \<Rightarrow> ret (Some x, ?d)
        | None \<Rightarrow> bind_go (resume ?d c) (\<lambda>err. ret (err, ?d))))" (is "keeps _ ?m")
      by (auto intro!: world_frame.rules [OF assms] split: option.split)
    then have "ID (exec (snd (?m u))) = i" "W i (world u) (world (snd (?m u)))"
      using that(1) by (auto simp: keeps_def carries_def)
    then have "W (ID (exec (snd (?m u)))) (world s) (world (snd (?m u)))"
      using that(2) world_frame.restless [OF assms, of i] unfolding restless_def by blast
    then have "wp ?m (\<lambda>_ t. W (ID (exec t)) (world s) (world t)) (\<lambda>t. W (ID (exec t)) (world s) (world t)) u"
      by (simp add: wp_final)
    then show ?thesis by (rule wp_mono) auto
  qed
  have fresh: "wp idgen_New (\<lambda>i w. W i (world s) w) (\<lambda>w. \<exists>i. W i (world s) w) (tick (world s))"
    using lib by (auto simp: wp_def split: prod.split outcome.split)
  show ?thesis
    unfolding Execute_def Let_def
    by (auto simp: wp_bind [of "in_world m" for m] wp_seq [of "upd_exec f" for f] wp_upd_exec wp_in_world
          wp_time_Now new_execution_def
        intro!: after wp_mono [OF fresh])
qed

end
