(* ===== verification/Example_Payment.thy ===== *)
theory Example_Payment
  imports Mild_Runs World_Frames "HOL-Library.AList"
begin

text \<open>
  \<open>examples/payment\<close>: a saga over the in-memory store with retries, a step timeout, a logger, a
  publisher and a payment gateway that fails the first attempt for a key and recognises a key it has
  already charged.
\<close>

section \<open>The gateway\<close>

record payment_order =
  pay_ID :: string
  pay_SKU :: string
  pay_Qty :: int
  Amount :: float64

record paymentGateway =
  attempts :: "(string \<times> int) list"
  charged :: "(string \<times> string) list"

record payment_user = "payment_order console" +
  gateway :: paymentGateway

type_synonym payment_world = "(payment_order, payment_user) world"

definition newPaymentGateway :: paymentGateway where
  "newPaymentGateway = \<lparr>attempts = [], charged = []\<rparr>"

definition upd_gateway :: "(paymentGateway \<Rightarrow> paymentGateway) \<Rightarrow> (payment_world, unit) go" where
  "upd_gateway f = modify (\<lambda>w. w\<lparr>user := (user w)\<lparr>gateway := f (gateway (user w))\<rparr>\<rparr>)"

text \<open>A missing key of a Go map reads as zero.\<close>

definition attempts_of :: "paymentGateway \<Rightarrow> string \<Rightarrow> int" where
  "attempts_of g key = (case map_of (attempts g) key of None \<Rightarrow> 0 | Some n \<Rightarrow> n)"

definition Charge :: "string \<Rightarrow> float64 \<Rightarrow> (payment_world, string \<times> gerr option) go" where
  "Charge idempotencyKey amount = bind_go (gets (\<lambda>w. gateway (user w))) (\<lambda>g.
     case map_of (charged g) idempotencyKey of
       Some chargeID \<Rightarrow> seq_go (Printf
           ''  [gateway] key %s already processed -> returning original charge %s (no double charge)\<newline>''
           [ArgString idempotencyKey, ArgString chargeID])
         (ret (chargeID, None))
     | None \<Rightarrow> seq_go (upd_gateway (\<lambda>g. g\<lparr>attempts :=
           AList.update idempotencyKey (attempts_of g idempotencyKey + 1) (attempts g)\<rparr>))
         (if attempts_of g idempotencyKey + 1 = 1
          then seq_go (Printf ''  [gateway] transient failure for key %s (attempt 1)\<newline>'' [ArgString idempotencyKey])
            (bind_go new_ref (\<lambda>r. ret ([], Some (ErrorString r ''gateway timeout''))))
          else let chargeID = ''chg-'' @ nat_string (length (charged g) + 1) in
            seq_go (upd_gateway (\<lambda>g. g\<lparr>charged := AList.update idempotencyKey chargeID (charged g)\<rparr>))
            (seq_go (Printf ''  [gateway] charged $%.2f for key %s -> charge %s\<newline>''
                [ArgFloat amount, ArgString idempotencyKey, ArgString chargeID])
              (ret (chargeID, None)))))"

section \<open>The saga\<close>

definition int_string :: "int \<Rightarrow> string" where
  "int_string n = (if n < 0 then ''-'' @ nat_string (nat (- n)) else nat_string (nat n))"

definition validateOrder :: "(payment_order, payment_user) action_func" where
  "validateOrder c data = bind_go (assert_type data) (\<lambda>order.
     if pay_Qty order \<le> 0
     then bind_go new_ref (\<lambda>r. ret (None,
       NonRetryable (Some (ErrorString r (''invalid quantity: '' @ int_string (pay_Qty order))))))
     else seq_go (Printf ''  validate_order: order %s looks valid\<newline>'' [ArgString (pay_ID order)])
       (ret (Some order, None)))"

definition reserveInventory :: "(payment_order, payment_user) action_func" where
  "reserveInventory c data = bind_go (assert_type data) (\<lambda>order.
     seq_go (Printf ''  reserve_inventory: reserved %d x %s\<newline>'' [ArgInt (pay_Qty order), ArgString (pay_SKU order)])
       (ret (Some order, None)))"

definition releaseInventory :: "(payment_order, payment_user) compensate_func" where
  "releaseInventory c data = bind_go (assert_type data) (\<lambda>order.
     seq_go (Printf ''  compensate reserve_inventory: releasing %d x %s\<newline>''
         [ArgInt (pay_Qty order), ArgString (pay_SKU order)])
       (ret None))"

definition chargeStep :: "(payment_order, payment_user) action_func" where
  "chargeStep c data = bind_go (assert_type data) (\<lambda>order.
     bind_go (Charge (OperationID c) (Amount order)) (\<lambda>(chargeID, err). case err of
         Some x \<Rightarrow> ret (None, Some x)
       | None \<Rightarrow> seq_go (Printf ''  charge_payment: charge ID %s\<newline>'' [ArgString chargeID])
           (ret (Some order, None))))"

definition refundPayment :: "(payment_order, payment_user) compensate_func" where
  "refundPayment c data = seq_go (Println ''  compensate charge_payment: issuing refund'') (ret None)"

definition loggingPublisher :: "(payment_order, payment_user) event_publisher" where
  "loggingPublisher = \<lparr>Publish = (\<lambda>c ev. Printf ''  [event] %s step=%q\<newline>''
     [ArgString (event_type_string (ev_Type ev)), ArgString (ev_Step ev)])\<rparr>"

text \<open>\<open>slog.NewTextHandler(os.Stdout, ...)\<close> at level Info: every line of the engine is written.\<close>

definition textLogger :: "(payment_order, payment_user) slog_logger" where
  "textLogger = \<lparr>Log = (\<lambda>c level msg attrs.
     modify (\<lambda>w. w\<lparr>user := (user w)\<lparr>stdout := stdout (user w) @ [Logged level msg attrs]\<rparr>\<rparr>))\<rparr>"

section \<open>The program\<close>

definition payment_workflow :: "('s, (payment_order, payment_user) definition_) go" where
  "payment_workflow =
     bind_go (WithStore (Some mem_store_ops)) (\<lambda>withStore.
     bind_go (WithRetryPolicy (Some (FixedDelay (50 * Millisecond) 3))) (\<lambda>withRetryPolicy.
     bind_go (WithLogger (Some textLogger)) (\<lambda>withLogger.
     bind_go (WithEventPublisher (Some loggingPublisher)) (\<lambda>withPublisher.
     bind_go (New ''order_creation'' [withStore, withRetryPolicy, withLogger, withPublisher]) (\<lambda>workflow.
     bind_go (on_def (AddStep (Step ''validate_order'' (Some validateOrder) None [])) workflow) (\<lambda>workflow.
     bind_go (on_def (AddStep (Step ''reserve_inventory'' (Some reserveInventory) (Some releaseInventory) []))
       workflow) (\<lambda>workflow.
     on_def (AddStep (Step ''charge_payment'' (Some chargeStep) (Some refundPayment)
       [WithStepTimeout (2 * Second)])) workflow)))))))"

definition payment_main :: "(payment_order, payment_user, unit) engine" where
  "payment_main =
     seq_go (in_world (modify (\<lambda>w. w\<lparr>mem := mem_New\<rparr>)))
     (seq_go (in_world (upd_gateway (\<lambda>g. newPaymentGateway)))
     (bind_go payment_workflow (\<lambda>workflow.
     seq_go (in_world (Println ''--- Running an order (payment fails once transiently, then retries and succeeds) ---''))
     (bind_go (Execute workflow (Root 0) (Some \<lparr>pay_ID = ''ord-42'', pay_SKU = ''WIDGET'', pay_Qty = 3,
         Amount = f64 (5997 / 100)\<rparr>)) (\<lambda>(err, workflow).
     bind_go (gets exec) (\<lambda>e.
     seq_go (in_world (Println []))
     (seq_go (in_world (Printf ''execution %s finished with status %s\<newline>''
         [ArgString (ID e), ArgString (status_string (Status e))]))
       (case err of
          Some x \<Rightarrow> in_world (Printf ''error: %v\<newline>'' [ArgError x])
        | None \<Rightarrow> ret ()))))))))"

definition payment_saga :: "(payment_order, payment_user) definition_" where
  "payment_saga = \<lparr>d_name = ''order_creation'',
     d_steps = [Step ''validate_order'' (Some validateOrder) None [],
       Step ''reserve_inventory'' (Some reserveInventory) (Some releaseInventory) [],
       Step ''charge_payment'' (Some chargeStep) (Some refundPayment) [WithStepTimeout (2 * Second)]],
     stepSet = [''validate_order'' \<mapsto> True, ''reserve_inventory'' \<mapsto> True, ''charge_payment'' \<mapsto> True],
     d_frozen = False, d_store = mem_store_ops, d_retryPolicy = FixedDelay (50 * Millisecond) 3, d_timeout = 0,
     d_lockTTL = DefaultLockTTL, d_publisher = Some loggingPublisher, d_logger = Some textLogger,
     d_metrics = None, d_tracer = None\<rparr>"

lemma payment_workflow_is: "payment_workflow = ret payment_saga"
  by (simp add: payment_workflow_def WithStore_def WithRetryPolicy_def WithLogger_def WithEventPublisher_def
      New_def AddStep_def on_def_def control_eval Step_def WithStepTimeout_def flag_at_def TrimSpace_def
      is_space_def payment_saga_def fun_eq_iff)

section \<open>One charge for one execution\<close>

definition charge_format :: string where
  "charge_format = ''  [gateway] charged $%.2f for key %s -> charge %s\<newline>''"

fun is_charge :: "'d printed \<Rightarrow> bool" where
  "is_charge (Formatted format args) = (format = charge_format)"
| "is_charge _ = False"

text \<open>The charges the gateway has reported; its map could not tell a second charge for a key.\<close>

definition charge_log :: "payment_world \<Rightarrow> payment_order printed list" where
  "charge_log w = filter is_charge (stdout (user w))"

text \<open>Nothing is charged, or \<open>key\<close> is, once and for the first time.\<close>

definition charges_only :: "string \<Rightarrow> payment_world \<Rightarrow> payment_world \<Rightarrow> bool" where
  "charges_only key w w' \<longleftrightarrow> (let old = charged (gateway (user w)); new = charged (gateway (user w')) in
     new = old \<and> charge_log w' = charge_log w
     \<or> map_of old key = None \<and> (\<exists>chargeID amount. new = old @ [(key, chargeID)]
       \<and> charge_log w' = charge_log w @ [Formatted charge_format
           [ArgFloat amount, ArgString key, ArgString chargeID]]))"

lemma charges_only_restless: "restless (charges_only key)"
  by (auto simp: restless_def charges_only_def Let_def charge_log_def)

interpretation charges: frame "charges_only key" for key
  using charges_only_restless [of key] by unfold_locales (auto simp: restless_def)

lemma same_charges:
  "charged (gateway (user w')) = charged (gateway (user w)) \<Longrightarrow> charge_log w' = charge_log w \<Longrightarrow> charges_only key w w'"
  by (simp add: charges_only_def)

lemma prints_keep:
  "format \<noteq> charge_format \<Longrightarrow> keeps (charges_only key) (Printf format args)"
  "keeps (charges_only key) (Println text)"
  "keeps (charges_only key) new_ref" "keeps (charges_only key) time_Now"
  unfolding Printf_def Println_def new_ref_def time_Now_def
  by (intro charges.ret_frame charges.gets_frame charges.bind_frame charges.seq_frame charges.modify_frame
      same_charges; simp add: charge_log_def)+

lemma other_formats [simp]:
  "''  [gateway] key %s already processed -> returning original charge %s (no double charge)\<newline>'' \<noteq> charge_format"
  "''  [gateway] transient failure for key %s (attempt 1)\<newline>'' \<noteq> charge_format"
  "''  validate_order: order %s looks valid\<newline>'' \<noteq> charge_format"
  "''  reserve_inventory: reserved %d x %s\<newline>'' \<noteq> charge_format"
  "''  compensate reserve_inventory: releasing %d x %s\<newline>'' \<noteq> charge_format"
  "''  charge_payment: charge ID %s\<newline>'' \<noteq> charge_format"
  "''  [event] %s step=%q\<newline>'' \<noteq> charge_format"
  by (simp_all add: charge_format_def)

lemmas charges_rules = charges.ret_frame charges.panic_frame charges.gets_frame charges.bind_frame
  charges.seq_frame charges.if_frame charges.option_frame charges.prod_frame prints_keep

lemma Charge_once: "keeps (charges_only key) (Charge key amount)"
proof -
  have absent: "map_of xs k = None \<Longrightarrow> AList.update k v xs = xs @ [(k, v)]" for xs :: "(string \<times> string) list" and k v
    by (induction xs) (auto split: if_splits)
  show ?thesis
    unfolding keeps_def
    by (auto simp: Charge_def upd_gateway_def Printf_def new_ref_def control_eval Let_def charges_only_def absent
        charge_log_def simp flip: charge_format_def split: option.split)
qed

lemma assert_type_keeps: "keeps (charges_only key) (assert_type x)"
  unfolding assert_type_def by (intro charges_rules)

lemma steps_keep:
  "keeps (charges_only key) (validateOrder c x)" "keeps (charges_only key) (reserveInventory c x)"
  "keeps (charges_only key) (releaseInventory c x)" "keeps (charges_only key) (refundPayment c x)"
  unfolding validateOrder_def reserveInventory_def releaseInventory_def refundPayment_def
  by (intro charges_rules assert_type_keeps other_formats)+

lemma chargeStep_once: "OperationID c = key \<Longrightarrow> keeps (charges_only key) (chargeStep c x)"
  unfolding chargeStep_def
  by (intro charges_rules assert_type_keeps other_formats; hypsubst; rule Charge_once)

lemma services_keep:
  "keeps (charges_only key) (Save mem_store_ops c e)"
  "as_Locker mem_store_ops = Some l \<Longrightarrow> keeps (charges_only key) (Acquire l c i own ttl)"
  "as_Locker mem_store_ops = Some l \<Longrightarrow> keeps (charges_only key) (Release l c i own)"
  "keeps (charges_only key) (Publish loggingPublisher c ev)"
  "keeps (charges_only key) (Log textLogger c level msg attrs)"
  "keeps (charges_only key) (Delay (FixedDelay k m) n)"
  by (auto simp: keeps_def same_charges mem_store_ops_def mem_locker_def loggingPublisher_def textLogger_def
      FixedDelay_def fixedDelayPolicy_def Printf_def time_Now_def control_eval charge_log_def split: prod.split)

interpretation gateway: world_frame "payment_saga\<lparr>d_frozen := frozen\<rparr>" eid
    "charges_only (operationID eid ''charge_payment'')" for frozen eid
  by unfold_locales
     (auto simp: payment_saga_def Step_def WithStepTimeout_def charges_only_restless
       intro: steps_keep chargeStep_once services_keep)

text \<open>
  Any number of resumptions of one execution, from any records of it - the last one saved, an earlier
  one, twice the same - each in its own context.
\<close>

fun resumptions :: "(ctx \<times> payment_order execution) list \<Rightarrow> (payment_order, payment_user) machine
    \<Rightarrow> (payment_order, payment_user) machine" where
  "resumptions [] s = s"
| "resumptions ((c, e) # rest) s = resumptions rest (snd (resume payment_saga c (s\<lparr>exec := e\<rparr>)))"

lemma resumptions_charge:
  "\<forall>(c, e) \<in> set ces. ID e = eid \<Longrightarrow>
   charges_only (operationID eid ''charge_payment'') (world s) (world (resumptions ces s))"
proof (induction ces arbitrary: s)
  case Nil
  then show ?case by (simp add: charges.refl)
next
  case (Cons ce ces)
  obtain c e where ce: "ce = (c, e)" by (cases ce)
  let ?u = "snd (resume payment_saga c (s\<lparr>exec := e\<rparr>))"
  have "world_frame (payment_saga\<lparr>d_frozen := False\<rparr>) (ID (exec (s\<lparr>exec := e\<rparr>))) (charges_only (operationID eid ''charge_payment''))"
    using Cons.prems gateway.world_frame_axioms ce by auto
  then have "charges_only (operationID eid ''charge_payment'') (world s) (world ?u)"
    using resume_world [where s = "s\<lparr>exec := e\<rparr>" and c = c] by (fastforce simp: payment_saga_def)
  then show ?case using Cons ce charges.trans by fastforce
qed

definition of_execution :: "string \<Rightarrow> (ctx \<times> payment_order execution) list \<Rightarrow> (ctx \<times> payment_order execution) list" where
  "of_execution eid ces = map (\<lambda>(c, e). (c, e\<lparr>ID := eid\<rparr>)) ces"

text \<open>
  C23: the payment example charges at most once. Run the saga and resume its execution as often as it
  takes, from whatever copies of its record, whatever the clock, the cancellations and the leases
  do, and whether or not the first run panics: the gateway reports at most one charge, under the key
  of this execution, and records it under that key; and none if that key was charged before.
\<close>

theorem payment_charges_once:
  "\<exists>eid. (case Execute payment_saga c input s of (r, t) \<Rightarrow> ((\<exists>p. r = Panic p) \<or> ID (exec t) = eid)
     \<and> charges_only (operationID eid ''charge_payment'') (world s) (world (resumptions (of_execution eid ces) t)))"
proof -
  have "snd (Freeze payment_saga) = payment_saga\<lparr>d_frozen := True\<rparr>" by (simp add: Freeze_def control_eval)
  then have frame: "world_frame (snd (Freeze payment_saga)) i (charges_only (operationID i ''charge_payment''))" for i
    using gateway.world_frame_axioms [of True i] by simp
  have again: "charges_only (operationID i ''charge_payment'') (world s) (world (resumptions (of_execution i ces) t))"
    if "charges_only (operationID i ''charge_payment'') (world s) (world t)" for i t
  proof -
    have "\<forall>(c, e) \<in> set (of_execution i ces). ID e = i" by (auto simp: of_execution_def)
    from charges.trans [OF that resumptions_charge [OF this]] show ?thesis .
  qed
  obtain r t where run: "Execute payment_saga c input s = (r, t)" by (cases "Execute payment_saga c input s")
  note wp = Execute_world [OF frame, of c input s]
  show ?thesis
    using wp_RetD [OF wp] wp_PanicD [OF wp] again unfolding run by (cases r) (auto simp: run)
qed

section \<open>The run of the program\<close>

definition charged_once :: "string \<Rightarrow> paymentGateway" where
  "charged_once key = \<lparr>attempts = [(key, 2)], charged = [(key, ''chg-1'')]\<rparr>"

lemma payment_mild: "mild gateway payment_saga" "mild gateway (snd (Freeze payment_saga))"
  by (auto simp: mild_def payment_saga_def loggingPublisher_def textLogger_def Printf_def control_eval Freeze_def
      intro: exI [of _ "_\<lparr>stdout := _\<rparr>"])

lemma charge_retried: "retried (FixedDelay (50 * Millisecond) 3) (Some (ErrorString r m))"
proof -
  have "Delay (FixedDelay (50 * Millisecond) 3) n = ret (50 * Millisecond)" "0 < sint (50 * Millisecond)" for n
    by (simp_all add: FixedDelay_def fixedDelayPolicy_def Millisecond_def)
  then show ?thesis
    unfolding retried_def by (auto simp: FixedDelay_def fixedDelayPolicy_def isNonRetryable_def)
qed

lemma payment_answers:
  assumes "0 < pay_Qty order"
  shows "answers gateway validateOrder key (Some order) g (Some order) (\<lambda>err. err = None) g"
    and "answers gateway reserveInventory key (Some order) g (Some order) (\<lambda>err. err = None) g"
    and "answers gateway chargeStep key (Some order) newPaymentGateway None (retried (FixedDelay (50 * Millisecond) 3))
      (newPaymentGateway\<lparr>attempts := [(key, 1)]\<rparr>)"
    and "answers gateway chargeStep key (Some order) (newPaymentGateway\<lparr>attempts := [(key, 1)]\<rparr>) (Some order)
      (\<lambda>err. err = None) (charged_once key)"
  by (rule answersI; use assms in \<open>simp add: validateOrder_def reserveInventory_def chargeStep_def Charge_def
    upd_gateway_def attempts_of_def newPaymentGateway_def charged_once_def assert_type_def Printf_def new_ref_def
    control_eval charge_retried nat_string.simps Let_def\<close>)+

lemma payment_forward:
  fixes t :: "(payment_order, payment_user) machine"
  assumes run: "mild_run gateway own rs" and rs: "rs_def rs = snd (Freeze payment_saga)" and t: "fine own t"
    and v: "gateway (user (world t)) = newPaymentGateway" and qty: "0 < pay_Qty order"
    and steps: "Steps (exec t) = map (\<lambda>step. new_step_execution (Name step) StepStatusPending) (d_steps payment_saga)"
    and st: "Status (exec t) = StatusRunning"
  shows "wp (forward rs (Root 0) None (d_steps payment_saga) 0 (Some order)) (\<lambda>err t. err = None
     \<and> Status (exec t) = StatusCompleted \<and> Output (exec t) = Some order
     \<and> gateway (user (world t)) = charged_once (operationID (ID (exec t)) ''charge_payment'')) (\<lambda>_. False) t"
proof -
  note ans = payment_answers [OF qty]
  have policy: "retryPolicyFor rs step = FixedDelay (50 * Millisecond) 3" if "step_retryPolicy step = None" for step
    using that rs by (simp add: retryPolicyFor_def payment_saga_def Freeze_def control_eval)
  have three: "length (Steps (exec t)) = 3" "\<forall>k < 3. sStatus (Steps (exec t) ! k) = StepStatusPending"
    using steps by (auto simp: payment_saga_def new_step_execution_def nth_Cons' numeral_3_eq_3 less_Suc_eq)
  let ?ok = "\<lambda>err t. err = None \<and> Status (exec t) = StatusCompleted \<and> Output (exec t) = Some order
     \<and> gateway (user (world t)) = charged_once (operationID (ID (exec t)) ''charge_payment'')"
  have ending: "wp (forward rs (Root 0) None [] i (Some order)) ?ok (\<lambda>_. False) u"
    if "fine own u" "Status (exec u) = StatusRunning"
      "gateway (user (world u)) = charged_once (operationID (ID (exec u)) ''charge_payment'')"
    for i and u :: "(payment_order, payment_user) machine"
    by (rule wp_mono [OF forward_done_fine [OF run that(1,2)]]) (use that(3) in auto)
  let ?validate = "Step ''validate_order'' (Some validateOrder) None []"
  let ?reserve = "Step ''reserve_inventory'' (Some reserveInventory) (Some releaseInventory) []"
  let ?charge = "Step ''charge_payment'' (Some chargeStep) (Some refundPayment) [WithStepTimeout (2 * Second)]"
  have last: "wp (forward rs (Root 0) None [?charge] 2 (Some order)) ?ok (\<lambda>_. False) u"
    if u: "fine own u" "gateway (user (world u)) = newPaymentGateway" "ahead 2 (exec t) (exec u)"
    for u :: "(payment_order, payment_user) machine"
  proof (rule forward_step_fine [OF run u(1,2), where v' = "charged_once (operationID (ID (exec u)) ''charge_payment'')"
        and out = "Some order"])
    show "2 < length (Steps (exec u))" "sStatus (Steps (exec u) ! 2) \<in> {StepStatusPending, StepStatusRunning}"
      using u(3) three by (auto simp: ahead_def)
  next
    fix w :: "(payment_order, payment_user) machine" assume w: "fine own w" "gateway (user (world w)) = newPaymentGateway"
    have charge: "Action ?charge = Some chargeStep" "1000000000 \<le> sint (step_timeout ?charge)"
        "step_retryPolicy ?charge = None" "Name ?charge = ''charge_payment''"
      by (simp_all add: Step_def WithStepTimeout_def Second_def)
    show "wp (run_attempts rs (Root 0) None (operationID (ID (exec u)) (Name ?charge)) 2 ?charge (Some order) 1)
        (\<lambda>p x. p = (Some order, None) \<and> fine own x
          \<and> gateway (user (world x)) = charged_once (operationID (ID (exec u)) ''charge_payment'')
          \<and> (\<exists>k. exec x = (bump 2 ^^ k) (exec w))) (\<lambda>_. False) w"
      by (rule wp_mono [OF second_attempt [OF run w(1) charge(1) disjI2 [OF charge(2)] w(2) _ ans(4)]])
         (use ans(3) policy [OF charge(3)] charge(4) in \<open>auto intro: exI [of _ "2 :: nat"] simp: numeral_2_eq_2\<close>)
  next
    fix x :: "(payment_order, payment_user) machine"
    assume "fine own x" "gateway (user (world x)) = charged_once (operationID (ID (exec u)) ''charge_payment'')"
      "ahead (Suc 2) (exec u) (exec x)"
    then show "wp (forward rs (Root 0) None [] (Suc 2) (Some order)) ?ok (\<lambda>_. False) x"
      using u(3) st by (intro ending) (auto simp: ahead_def)
  qed
  have plain: "wp (forward rs (Root 0) None (step # rest) i (Some order)) ?ok (\<lambda>_. False) u"
    if u: "fine own u" "gateway (user (world u)) = newPaymentGateway" "ahead i (exec t) (exec u)" "i < 3"
      and f: "Action step = Some f" "step_timeout step = 0"
        "\<And>key. answers gateway f key (Some order) newPaymentGateway (Some order) (\<lambda>err. err = None) newPaymentGateway"
      and later: "\<And>x. fine own x \<Longrightarrow> gateway (user (world x)) = newPaymentGateway \<Longrightarrow> ahead (Suc i) (exec t) (exec x) \<Longrightarrow>
        wp (forward rs (Root 0) None rest (Suc i) (Some order)) ?ok (\<lambda>_. False) x"
    for u :: "(payment_order, payment_user) machine" and i step rest f
  proof (rule forward_step_fine [OF run u(1,2), where v' = newPaymentGateway and out = "Some order"])
    show "i < length (Steps (exec u))" "sStatus (Steps (exec u) ! i) \<in> {StepStatusPending, StepStatusRunning}"
      using u(3,4) three by (auto simp: ahead_def)
  next
    fix w :: "(payment_order, payment_user) machine" assume w: "fine own w" "gateway (user (world w)) = newPaymentGateway"
    have "sint (step_timeout step) \<le> 0" using f(2) by simp
    from first_attempt [OF run w(1) f(1) disjI1 [OF this] w(2) f(3)]
    show "wp (run_attempts rs (Root 0) None (operationID (ID (exec u)) (Name step)) i step (Some order) 1)
        (\<lambda>p x. p = (Some order, None) \<and> fine own x \<and> gateway (user (world x)) = newPaymentGateway
          \<and> (\<exists>k. exec x = (bump i ^^ k) (exec w))) (\<lambda>_. False) w"
      by (rule wp_mono) (auto intro: exI [of _ "1 :: nat"])
  next
    fix x :: "(payment_order, payment_user) machine"
    assume "fine own x" "gateway (user (world x)) = newPaymentGateway" "ahead (Suc i) (exec u) (exec x)"
    then show "wp (forward rs (Root 0) None rest (Suc i) (Some order)) ?ok (\<lambda>_. False) x"
      using u(3) by (intro later) (auto simp: ahead_def)
  qed
  have second: "wp (forward rs (Root 0) None [?reserve, ?charge] 1 (Some order)) ?ok (\<lambda>_. False) u"
    if "fine own u" "gateway (user (world u)) = newPaymentGateway" "ahead 1 (exec t) (exec u)"
    for u :: "(payment_order, payment_user) machine"
    by (rule plain [where ?f1 = reserveInventory, OF that])
       (use last in \<open>auto simp: Step_def ans(2) numeral_2_eq_2\<close>)
  have "d_steps payment_saga = [?validate, ?reserve, ?charge]" by (simp add: payment_saga_def)
  moreover have "wp (forward rs (Root 0) None [?validate, ?reserve, ?charge] 0 (Some order)) ?ok (\<lambda>_. False) t"
    by (rule plain [where ?f1 = validateOrder, OF t v])
       (use second in \<open>auto simp: Step_def ans(1)\<close>)
  ultimately show ?thesis by simp
qed

text \<open>
  C38: the program of \<open>examples/payment\<close>, in any world with a working random source, an uncancelled
  background context and a clock that never jumps by a second: the first charge fails, the retry
  succeeds, and the execution completes with two attempts and exactly one charge under its key.
\<close>

theorem payment_main_completes:
  assumes "calm_world (world s)" and "\<forall>n. ticks (world s) n < 1000000000"
  shows "\<exists>t i. payment_main s = (Ret (), t) \<and> gateway (user (world t)) = charged_once (operationID i ''charge_payment'')
    \<and> last (stdout (user (world t))) =
      Formatted ''execution %s finished with status %s\<newline>'' [ArgString i, ArgString ''COMPLETED'']"
proof -
  let ?order = "\<lparr>pay_ID = ''ord-42'', pay_SKU = ''WIDGET'', pay_Qty = 3, Amount = f64 (5997 / 100)\<rparr>"
  let ?u = "s\<lparr>world := (world s)\<lparr>mem := mem_New, user := (user (world s))\<lparr>gateway := newPaymentGateway,
    stdout := stdout (user (world s)) @ [Line
      ''--- Running an order (payment fails once transiently, then retries and succeeds) ---'']\<rparr>\<rparr>\<rparr>"
  let ?F = "\<lambda>err e g. err = None \<and> Status e = StatusCompleted \<and> Output e = Some ?order
    \<and> g = charged_once (operationID (ID e) ''charge_payment'')"
  have "wp (Execute payment_saga (Root 0) (Some ?order)) (\<lambda>p t. ?F (fst p) (exec t) (gateway (user (world t)))
      \<and> snd p = snd (Freeze payment_saga)) (\<lambda>_. False) ?u"
    by (rule Execute_fine [where V = gateway and F = ?F])
       (use assms payment_mild(1) payment_forward in \<open>auto simp: calm_world_def mem_New_def\<close>)
  then obtain d t where run: "Execute payment_saga (Root 0) (Some ?order) ?u = (Ret (None, d), t)"
      "?F None (exec t) (gateway (user (world t)))"
    by (auto simp: wp_def split: prod.splits outcome.splits)
  show ?thesis
    using run
    by (auto simp: payment_main_def payment_workflow_is control_eval in_world_def upd_gateway_def Println_def
        Printf_def)
qed

theorem payment_main_completes_witness:
  "\<exists>t. payment_main \<lparr>exec = new_execution payment_saga [] None 0, trace = [], world =
      \<lparr>clock = 0, ticks = (\<lambda>n. 7), cancel_at = (\<lambda>n. None), entropy = (\<lambda>i. Some 0), next_ref = 0, mem = mem_New,
       user = \<lparr>stdout = [], gateway = newPaymentGateway\<rparr>\<rparr>\<rparr> = (Ret (), t)
     \<and> length (charged (gateway (user (world t)))) = 1"
proof -
  let ?s = "\<lparr>exec = new_execution payment_saga [] None 0, trace = [], world =
      \<lparr>clock = 0, ticks = (\<lambda>n. 7), cancel_at = (\<lambda>n. None), entropy = (\<lambda>i. Some 0), next_ref = 0, mem = mem_New,
       user = \<lparr>stdout = [], gateway = newPaymentGateway\<rparr>\<rparr>\<rparr> :: (payment_order, payment_user) machine"
  have "calm_world (world ?s)" "\<forall>n. ticks (world ?s) n < 1000000000" by (simp_all add: calm_world_def)
  from payment_main_completes [OF this] show ?thesis by (auto simp: charged_once_def)
qed

end
