(* ===== verification/Example_Recovery.thy ===== *)
theory Example_Recovery
  imports Mild_Runs Recovery
begin

text \<open>
  \<open>examples/recovery\<close>: a record that says one step has succeeded and the next was running is put into
  the in-memory store, as if the process had died there, and recovered.
\<close>

type_synonym recovery_world = "(string, string console) world"

definition reserveInventory :: "(string, string console) action_func" where
  "reserveInventory c data = seq_go (Println ''  reserve_inventory: ran normally'') (ret (data, None))"

definition releaseInventory :: "(string, string console) compensate_func" where
  "releaseInventory c data = ret None"

definition chargePayment :: "(string, string console) action_func" where
  "chargePayment c data = seq_go
     (Println ''  charge_payment: re-invoked by recovery (was in flight when the process exited)'')
     (ret (data, None))"

definition refundPayment :: "(string, string console) compensate_func" where
  "refundPayment c data = seq_go (Println ''  compensate charge_payment: refunding'') (ret None)"

definition shipOrder :: "(string, string console) action_func" where
  "shipOrder c data = seq_go (Println ''  ship_order: ran normally, never started before the crash'')
     (ret (data, None))"

definition cancelShipment :: "(string, string console) compensate_func" where
  "cancelShipment c data = ret None"

definition recovery_workflow :: "('s, (string, string console) definition_) go" where
  "recovery_workflow =
     bind_go (WithStore (Some mem_store_ops)) (\<lambda>withStore.
     bind_go (New ''order_creation'' [withStore]) (\<lambda>workflow.
     bind_go (on_def (AddStep (Step ''reserve_inventory'' (Some reserveInventory) (Some releaseInventory) []))
       workflow) (\<lambda>workflow.
     bind_go (on_def (AddStep (Step ''charge_payment'' (Some chargePayment) (Some refundPayment) []))
       workflow) (\<lambda>workflow.
     on_def (AddStep (Step ''ship_order'' (Some shipOrder) (Some cancelShipment) [])) workflow))))"

definition crashed :: "go_time \<Rightarrow> string execution" where
  "crashed now = \<lparr>ID = ''exec-simulated-crash'', SagaName = ''order_creation'', Status = StatusRunning,
     Input = Some ''ord-99'', Output = None,
     Steps = [(new_step_execution ''reserve_inventory'' StepStatusSucceeded)\<lparr>sOutput := Some ''ord-99-reserved''\<rparr>,
       new_step_execution ''charge_payment'' StepStatusRunning,
       new_step_execution ''ship_order'' StepStatusPending],
     CurrentStep = [], Error = [], CreatedAt = now, UpdatedAt = 0, StartedAt = None, CompletedAt = None\<rparr>"

definition report :: "string recovery_result \<Rightarrow> (recovery_world, unit) go" where
  "report r = seq_go (Printf ''recovered execution %s -> status %s\<newline>''
       [ArgString (ID (Execution r)), ArgString (status_string (Status (Execution r)))])
     (case Err r of None \<Rightarrow> ret () | Some x \<Rightarrow> Printf ''  error: %v\<newline>'' [ArgError x])"

definition recovery_main :: "(string, string console, unit) engine" where
  "recovery_main =
     seq_go (in_world (modify (\<lambda>w. w\<lparr>mem := mem_New\<rparr>)))
     (bind_go recovery_workflow (\<lambda>workflow.
     bind_go (in_world time_Now) (\<lambda>now.
     bind_go (in_world (Save mem_store_ops (Root 0) (crashed now))) (\<lambda>err. case err of
         Some x \<Rightarrow> panic (Error_msg x)
       | None \<Rightarrow>
     seq_go (in_world (Println ''--- Simulated a crash: reserve_inventory done, charge_payment in flight, ship_order never started ---''))
     (seq_go (in_world (Println []))
     (bind_go (WithSaga (Some workflow)) (\<lambda>withSaga.
     bind_go (NewRecoveryManager (Some mem_lister) [withSaga]) (\<lambda>rm.
     bind_go (Recover rm (Root 0)) (\<lambda>res. case res of
         Inl x \<Rightarrow> panic (Error_msg x)
       | Inr results \<Rightarrow>
     seq_go (in_world (Println []))
       (in_world (run_all (map report results))))))))))))"

definition recovery_saga :: "(string, string console) definition_" where
  "recovery_saga = \<lparr>d_name = ''order_creation'',
     d_steps = [Step ''reserve_inventory'' (Some reserveInventory) (Some releaseInventory) [],
       Step ''charge_payment'' (Some chargePayment) (Some refundPayment) [],
       Step ''ship_order'' (Some shipOrder) (Some cancelShipment) []],
     stepSet = [''reserve_inventory'' \<mapsto> True, ''charge_payment'' \<mapsto> True, ''ship_order'' \<mapsto> True],
     d_frozen = False, d_store = mem_store_ops, d_retryPolicy = NoRetry, d_timeout = 0,
     d_lockTTL = DefaultLockTTL, d_publisher = None, d_logger = None, d_metrics = None, d_tracer = None\<rparr>"

lemma recovery_workflow_is: "recovery_workflow = ret recovery_saga"
  by (simp add: recovery_workflow_def WithStore_def New_def AddStep_def on_def_def control_eval Step_def
      flag_at_def TrimSpace_def is_space_def recovery_saga_def fun_eq_iff)

section \<open>What it prints\<close>

lemma recovery_mild: "mild (\<lambda>u. u) recovery_saga"
  by (simp add: mild_def recovery_saga_def)

definition printed :: "string printed list \<Rightarrow> string console \<Rightarrow> string console" where
  "printed ls u = u\<lparr>stdout := stdout u @ ls\<rparr>"

definition charge_line :: "string printed" where
  "charge_line = Line ''  charge_payment: re-invoked by recovery (was in flight when the process exited)''"

definition ship_line :: "string printed" where
  "ship_line = Line ''  ship_order: ran normally, never started before the crash''"

lemma recovery_answers:
  "answers (\<lambda>u. u) chargePayment key x v x (\<lambda>err. err = None) (printed [charge_line] v)"
  "answers (\<lambda>u. u) shipOrder key x v x (\<lambda>err. err = None) (printed [ship_line] v)"
  by (rule answersI; simp add: chargePayment_def shipOrder_def Println_def printed_def charge_line_def ship_line_def
      control_eval)+

lemma crashed_resumes:
  fixes s :: "(string, string console) machine"
  assumes "calm_world (world s)" and "\<forall>n. ticks (world s) n < 1000000000" and "exec s = crashed now"
    and "leases (mem (world s)) = []"
  shows "wp (resume recovery_saga (Root 0)) (\<lambda>err t. err = None \<and> ID (exec t) = ''exec-simulated-crash''
     \<and> Status (exec t) = StatusCompleted \<and> user (world t) = printed [charge_line, ship_line] (user (world s))) (\<lambda>_. False) s"
proof -
  let ?F = "\<lambda>err e u. err = None \<and> ID e = ''exec-simulated-crash'' \<and> Status e = StatusCompleted
    \<and> u = printed [charge_line, ship_line] (user (world s))"
  let ?charge = "Step ''charge_payment'' (Some chargePayment) (Some refundPayment) []"
  let ?ship = "Step ''ship_order'' (Some shipOrder) (Some cancelShipment) []"
  have steps: "length (Steps (crashed now)) = 3" "sStatus (Steps (crashed now) ! 1) = StepStatusRunning"
      "sStatus (Steps (crashed now) ! 2) = StepStatusPending"
    by (simp_all add: crashed_def new_step_execution_def)
  have "wp (forward rs (Root 0) None [?charge, ?ship] 1 (Some ''ord-99-reserved''))
      (\<lambda>err t. ?F err (exec t) (user (world t))) (\<lambda>_. False) t"
    if run: "mild_run (\<lambda>u. u) own rs" and t: "fine own t" "user (world t) = user (world s)" "ID (exec t) = ''exec-simulated-crash''"
      "Steps (exec t) = Steps (crashed now)" "Status (exec t) = StatusRunning" for own rs and t :: "(string, string console) machine"
  proof (rule forward_step_fine [OF run t(1,2), where v' = "printed [charge_line] (user (world s))" and out = "Some ''ord-99-reserved''"])
    show "1 < length (Steps (exec t))" "sStatus (Steps (exec t) ! 1) \<in> {StepStatusPending, StepStatusRunning}"
      using steps t(4) by simp_all
  next
    fix w :: "(string, string console) machine" assume w: "fine own w" "user (world w) = user (world s)"
    have "Action ?charge = Some chargePayment" "sint (step_timeout ?charge) \<le> 0" by (simp_all add: Step_def)
    from first_attempt [OF run w(1) this(1) disjI1 [OF this(2)] w(2) recovery_answers(1)]
    show "wp (run_attempts rs (Root 0) None (operationID (ID (exec t)) (Name ?charge)) 1 ?charge (Some ''ord-99-reserved'') 1)
        (\<lambda>p x. p = (Some ''ord-99-reserved'', None) \<and> fine own x \<and> user (world x) = printed [charge_line] (user (world s))
          \<and> (\<exists>k. exec x = (bump 1 ^^ k) (exec w))) (\<lambda>_. False) w"
      by (rule wp_mono) (auto intro: exI [of _ "1 :: nat"])
  next
    fix x :: "(string, string console) machine"
    assume x: "fine own x" "user (world x) = printed [charge_line] (user (world s))" "ahead (Suc 1) (exec t) (exec x)"
    show "wp (forward rs (Root 0) None [?ship] (Suc 1) (Some ''ord-99-reserved''))
        (\<lambda>err t. ?F err (exec t) (user (world t))) (\<lambda>_. False) x"
    proof (rule forward_step_fine [OF run x(1,2), where v' = "printed [charge_line, ship_line] (user (world s))"
          and out = "Some ''ord-99-reserved''"])
      show "Suc 1 < length (Steps (exec x))" "sStatus (Steps (exec x) ! Suc 1) \<in> {StepStatusPending, StepStatusRunning}"
        using steps t(4) x(3) by (simp_all add: ahead_def numeral_2_eq_2)
    next
      fix w :: "(string, string console) machine" assume w: "fine own w" "user (world w) = printed [charge_line] (user (world s))"
      have "Action ?ship = Some shipOrder" "sint (step_timeout ?ship) \<le> 0" by (simp_all add: Step_def)
      from first_attempt [OF run w(1) this(1) disjI1 [OF this(2)] w(2) recovery_answers(2)]
      show "wp (run_attempts rs (Root 0) None (operationID (ID (exec x)) (Name ?ship)) (Suc 1) ?ship (Some ''ord-99-reserved'') 1)
          (\<lambda>p x. p = (Some ''ord-99-reserved'', None) \<and> fine own x
            \<and> user (world x) = printed [charge_line, ship_line] (user (world s))
            \<and> (\<exists>k. exec x = (bump (Suc 1) ^^ k) (exec w))) (\<lambda>_. False) w"
        by (rule wp_mono) (auto intro: exI [of _ "1 :: nat"] simp: printed_def)
    next
      fix y :: "(string, string console) machine"
      assume y: "fine own y" "user (world y) = printed [charge_line, ship_line] (user (world s))"
        "ahead (Suc (Suc 1)) (exec x) (exec y)"
      have "Status (exec y) = StatusRunning" "ID (exec y) = ''exec-simulated-crash''"
        using t(3,5) x(3) y(3) by (simp_all add: ahead_def)
      then show "wp (forward rs (Root 0) None [] (Suc (Suc 1)) (Some ''ord-99-reserved''))
          (\<lambda>err t. ?F err (exec t) (user (world t))) (\<lambda>_. False) y"
        by (intro wp_mono [OF forward_done_fine [OF run y(1)]]) (use y(2) in auto)
    qed
  qed
  then show ?thesis
    by (intro resume_fine [where V = "\<lambda>u. u" and F = ?F and i = 1 and x = "Some ''ord-99-reserved''"])
       (use assms recovery_mild in \<open>auto simp: crashed_def new_step_execution_def recovery_saga_def\<close>)
qed

lemma crashed_fields [simp]:
  "ID (crashed now) = ''exec-simulated-crash''" "SagaName (crashed now) = ''order_creation''"
  "Status (crashed now) = StatusRunning"
  by (simp_all add: crashed_def)

lemma one_saga:
  "bind_go (WithSaga (Some d)) (\<lambda>withSaga. bind_go (NewRecoveryManager (Some l) [withSaga]) k) =
   k \<lparr>lister = l, sagas = [d_name d \<mapsto> d], policy = RecoverAutomatically\<rparr>"
  by (simp add: WithSaga_def NewRecoveryManager_def control_eval fun_eq_iff)

lemma Recover_one:
  assumes "mem_ListIncomplete (mem (world s)) = [e]" and "SagaName e = d_name d"
    and "resume d c (s\<lparr>exec := e\<rparr>) = (Ret err, t)"
  shows "Recover \<lparr>lister = mem_lister, sagas = [d_name d \<mapsto> d], policy = RecoverAutomatically\<rparr> c s =
    (Ret (Inr [\<lparr>Execution = exec t, Err = err\<rparr>]), t)"
  using assms
  by (simp add: Recover_def mem_lister_def in_world_def recovery_order_def recover_one_def upd_exec_def control_eval)

text \<open>
  C39: what \<open>examples/recovery\<close> prints, in any world with a working clock and an uncancelled background
  context: recovery finds the execution that was left, does not reserve again, charges again because
  nobody knows whether it was charged, ships, and reports the execution completed. The record is
  written without \<open>UpdatedAt\<close>, which is the zero time in it.
\<close>

theorem recovery_main_output:
  fixes s :: "(string, string console) machine"
  assumes "calm_world (world s)" and "\<forall>n. ticks (world s) n < 1000000000"
  shows "\<exists>t. recovery_main s = (Ret (), t) \<and> stdout (user (world t)) = stdout (user (world s)) @
      [Line ''--- Simulated a crash: reserve_inventory done, charge_payment in flight, ship_order never started ---'',
       Line [],
       Line ''  charge_payment: re-invoked by recovery (was in flight when the process exited)'',
       Line ''  ship_order: ran normally, never started before the crash'',
       Line [],
       Formatted ''recovered execution %s -> status %s\<newline>''
         [ArgString ''exec-simulated-crash'', ArgString ''COMPLETED'']]"
proof -
  define now where "now = clock (tick (world s))"
  define u where "u = (tick ((world s)\<lparr>mem := mem_New\<rparr>))\<lparr>mem := \<lparr>mem_data = [(''exec-simulated-crash'', crashed now)],
    leases = []\<rparr>, user := (user (world s))\<lparr>stdout := stdout (user (world s)) @
      [Line ''--- Simulated a crash: reserve_inventory done, charge_payment in flight, ship_order never started ---'',
       Line []]\<rparr>\<rparr>"
  have "calm_world (world (s\<lparr>world := u, exec := crashed now\<rparr>))" "\<forall>n. ticks (world (s\<lparr>world := u, exec := crashed now\<rparr>)) n < 1000000000"
    using assms by (simp_all add: u_def calm_world_def tick_def)
  then obtain t where run: "resume recovery_saga (Root 0) (s\<lparr>world := u, exec := crashed now\<rparr>) = (Ret None, t)"
      "ID (exec t) = ''exec-simulated-crash''" "Status (exec t) = StatusCompleted"
      "user (world t) = printed [charge_line, ship_line] (user u)"
    using crashed_resumes [of "s\<lparr>world := u, exec := crashed now\<rparr>" now]
    by (auto simp: wp_def u_def split: prod.splits outcome.splits)
  have "mem_ListIncomplete (mem (world (s\<lparr>world := u\<rparr>))) = [crashed now]"
    by (simp add: u_def mem_ListIncomplete_def)
  from Recover_one [OF this, of recovery_saga] run(1)
  have Recover: "Recover \<lparr>lister = mem_lister, sagas = [''order_creation'' \<mapsto> recovery_saga], policy = RecoverAutomatically\<rparr>
      (Root 0) (s\<lparr>world := u\<rparr>) = (Ret (Inr [\<lparr>Execution = exec t, Err = None\<rparr>]), t)"
    by (simp add: recovery_saga_def)
  have saved: "in_world (Save mem_store_ops (Root 0) (crashed now)) (s\<lparr>world := tick ((world s)\<lparr>mem := mem_New\<rparr>)\<rparr>) =
      (Ret None, s\<lparr>world := (tick ((world s)\<lparr>mem := mem_New\<rparr>))\<lparr>mem :=
        \<lparr>mem_data = [(''exec-simulated-crash'', crashed now)], leases = []\<rparr>\<rparr>\<rparr>)"
    by (simp add: in_world_def zoom_def mem_store_ops_def mem_Save_def mem_New_def)
  have "d_name recovery_saga = ''order_creation''" by (simp add: recovery_saga_def)
  then have "recovery_main s = seq_go (in_world (Println [])) (in_world (run_all (map report [\<lparr>Execution = exec t, Err = None\<rparr>]))) t"
    unfolding recovery_main_def recovery_workflow_is one_saga using saved Recover
    by (simp add: control_eval in_world_def time_Now_def Println_def u_def now_def tick_def)
  then show ?thesis
    using run(2-4)
    by (simp add: control_eval in_world_def Println_def Printf_def report_def printed_def charge_line_def ship_line_def u_def)
qed

theorem recovery_main_output_witness:
  "\<exists>t. recovery_main \<lparr>exec = crashed 0, trace = [], world =
      \<lparr>clock = 0, ticks = (\<lambda>n. 7), cancel_at = (\<lambda>n. None), entropy = (\<lambda>i. Some 0), next_ref = 0, mem = mem_New,
       user = \<lparr>stdout = []\<rparr>\<rparr>\<rparr> = (Ret (), t) \<and> length (stdout (user (world t))) = 6"
proof -
  let ?s = "\<lparr>exec = crashed 0, trace = [], world =
      \<lparr>clock = 0, ticks = (\<lambda>n. 7), cancel_at = (\<lambda>n. None), entropy = (\<lambda>i. Some 0), next_ref = 0, mem = mem_New,
       user = \<lparr>stdout = []\<rparr>\<rparr>\<rparr> :: (string, string console) machine"
  have "calm_world (world ?s)" "\<forall>n. ticks (world ?s) n < 1000000000" by (simp_all add: calm_world_def)
  from recovery_main_output [OF this] show ?thesis by auto
qed

end
