(* ===== verification/Spec2Isabelle.thy ===== *)
theory Spec2Isabelle
  imports Recovery_Properties Idempotency_Keys Lease_Discipline Event_Truth Saga_Refinement
    Observability Failure_Origin Data_Flow Event_History Jitter Built_Definitions Takeover
    Retry_Discipline Attempt_Accounting Mutual_Exclusion Example_Basic Example_Payment Example_Recovery
begin

text \<open>
  A model of go-orchestrator, an embeddable library for sagas in Go, and the theorems that make
  it correct.

  \<^bold>\<open>The program.\<close> A saga \<open>Definition\<close> (\<open>definition.go\<close>, \<open>step.go\<close>, \<open>options.go\<close>) is a list of steps,
  each an action and an optional compensation, with a store, a retry policy, a timeout, a lease
  duration and observers. \<open>Execute\<close> (\<open>execute.go\<close>) freezes it, builds an \<open>Execution\<close> record
  (\<open>execution.go\<close>, \<open>step_execution.go\<close>), saves it and drives it: the actions run in order, each
  retried under its policy (\<open>retry.go\<close>) and its deadline; after a failure the steps that succeeded
  are compensated, last first. Every change of a status goes through the transition tables
  (\<open>status.go\<close>, \<open>step_status.go\<close>, \<open>transitions.go\<close>), then to the store, then to the observers
  (\<open>events.go\<close>, \<open>observability.go\<close>). With a store that is a \<open>Locker\<close> (\<open>lock.go\<close>) each save renews the
  lease of the run first. After a crash \<open>Recover\<close> (\<open>recovery.go\<close>) lists the unfinished records and
  resumes each where it was. Actions and compensations find an idempotency key in their context
  (\<open>idempotency.go\<close>), made of the identifier of the execution (\<open>internal/idgen\<close>) and the step.
  \<open>store/memory\<close> is the store the repository brings along.

  \<^bold>\<open>The model.\<close> A Go function is a function of the state of the machine to an outcome, \<open>Ret\<close> or
  \<open>Panic\<close>, and the next state (\<open>Prelude\<close>: sequencing, \<open>defer\<close>, \<open>recover\<close>, and a calculus of weakest
  preconditions, \<open>wp m Q E s\<close>, with \<open>Q\<close> for returns and \<open>E\<close> for panics). The machine
  (\<open>World\<close>, \<open>Engine\<close>) holds the record being driven, the world (clock, cancellation times, random
  source, the in-memory store, the state of user code) and a trace of what was called and saved. The
  trace is a ghost: no definition reads it. Everything a user supplies - actions, compensations,
  stores, policies, publishers, loggers, metrics, tracers - is a function of the world, so it may do
  anything to the world, and the clock and the cancellations advance as they like: other goroutines
  and workers appear there. Durations are 64-bit words, other integers of Go are unbounded where
  the code only counts. Errors are the datatype \<open>gerr\<close> with Go's wrapping; two errors made by
  \<open>errors.New\<close> differ by a reference.

  \<^item> \<open>Prelude\<close>, \<open>World\<close>: computations, contexts, clock, \<open>idempotency.go\<close>, \<open>store.go\<close>, \<open>lock.go\<close>, \<open>idgen\<close>.
  \<^item> \<open>Statuses\<close>, \<open>Errors\<close>, \<open>Executions\<close>, \<open>Memory_Store\<close>, \<open>Retry\<close>, \<open>Events\<close>, \<open>Saga_Definition\<close>: the
    components the engine uses, each with its own properties.
  \<^item> \<open>Jitter\<close>: \<open>WithJitter\<close> of \<open>retry.go\<close>, over \<open>Float64\<close>, binary64 numbers as rationals that are rounded to
    nearest, ties to even, after every operation. The random source and the conversion of a value that is
    no \<open>int64\<close> are parameters.
  \<^item> \<open>Engine\<close>: \<open>execute.go\<close>, function by function. \<open>Recovery\<close>: \<open>recovery.go\<close>.
  \<^item> \<open>Saga_Spec\<close>: the abstract machine a saga implements.
  \<^item> \<open>Example_Basic\<close>, \<open>Example_Payment\<close>, \<open>Example_Recovery\<close>: the programs under \<open>examples\<close>, whole, with what
    they share in \<open>Console\<close>: output as the list of calls to \<open>fmt\<close> and \<open>slog\<close> with their arguments.

  \<^bold>\<open>The proofs.\<close> \<open>Engine_Rules\<close>, \<open>Engine_Quiet\<close> and \<open>Engine_Frames\<close> hold the rules for the operations and
  the frames (a relation between the machine before and after that every operation of the engine
  keeps is kept by runs). \<open>Persisting\<close> says what a transition leaves behind, \<open>Engine_Outline\<close> is the
  annotated control flow of \<open>resume\<close> as a locale: assertions at its program points and the triples of
  its operations give a property of whole runs. \<open>Engine_Invariant\<close> and \<open>Durable_Record\<close> carry the
  invariant of the record through the engine, \<open>Simulation\<close> compares two runs, \<open>Order_Saga\<close> is the
  concrete saga the hypotheses of the properties are discharged at. \<open>Callback_Frames\<close> is a locale for
  relations that a run keeps because every function of its definition keeps them; \<open>World_Frames\<close> is its
  instance for what user code and a store may do to the world, and \<open>Rely_Guarantee\<close> the one for workers
  that share the in-memory store: the steps a worker expects of others, and that the engine does
  no others. \<open>Mild_Runs\<close> holds total triples for runs that nothing disturbs; the examples rest on it.

  \<^item> The record: every record saved is well-formed (\<open>Crash_Safety\<close>), moves along the tables
    (\<open>Engine_Rules\<close>), and the records saved are a run of the abstract machine (\<open>Saga_Refinement\<close>), which
    settles within \<open>3 + 4n\<close> moves for \<open>n\<close> steps, so that at most \<open>4 + 4n\<close> records are saved.
  \<^item> The result: the error returned and the record left agree (\<open>Crash_Safety\<close>), every error has its
    origin on the trace or in a deadline (\<open>Failure_Origin\<close>), and outputs go from step to step as they
    should (\<open>Data_Flow\<close>).
  \<^item> The calls: in order, as often as the policy allows, compensations in reverse (\<open>Engine_Calls\<close>), each
    with its key (\<open>Idempotency_Keys\<close>), repeated only as the policy says and after its wait
    (\<open>Retry_Discipline\<close>), and counted in the record (\<open>Attempt_Accounting\<close>).
  \<^item> Crashes: resuming any record that was ever saved settles it (\<open>Crash_Safety\<close>), \<open>Recover\<close> does so for
    all listed (\<open>Recovery_Properties\<close>).
  \<^item> Leases and observers: nothing is saved without the lease (\<open>Lease_Discipline\<close>), nothing is reported
    before it is saved (\<open>Event_Truth\<close>), the published events are the history of the records accepted
    (\<open>Event_History\<close>), and observers change nothing (\<open>Observability\<close>).
  \<^item> Definitions: what a program can build is well-formed (\<open>Built_Definitions\<close>).
  \<^item> Several workers: the engine keeps to the leases, so a run that is over before its lease would have
    expired is alone with its record (\<open>Mutual_Exclusion\<close>); a lease that is lost during a longer action is
    not noticed (\<open>Takeover\<close>).
  \<^item> Policies: delays with their bounds and where they overflow (\<open>Retry\<close>, \<open>Jitter\<close>).
  \<^item> Examples: what the programs print, and that the payment example charges at most once however often
    its execution is resumed.

  \<^bold>\<open>Termination.\<close> No fuel is used. The retry loop ends by the measure \<open>MaxAttempts - attempt\<close>, the other
  loops are over the list of steps; user code is a total function that returns or panics, and an
  action that never returns is outside the model.

  \<^bold>\<open>Not modelled.\<close> \<open>doc.go\<close> is a comment. Records are values, so the aliasing that \<open>Clone\<close> cuts does not
  arise. Goroutines do not interleave inside an operation of the engine, only between the calls it makes.
  The text that \<open>fmt\<close> and \<open>slog\<close> make of their arguments is left out, except for errors. \<open>TrimSpace\<close> and
  quoting are those of ASCII. A compiler may fuse a multiplication and an addition of \<open>WithJitter\<close>; here
  each is rounded by itself.
\<close>

end
